(* ===== verification/Prelude.thy ===== *)
theory Prelude
  imports Main "HOL-Library.Word"
begin

text \<open>
  Shared vocabulary of the development: the machine integers of the crate (\<open>i64\<close>, \<open>usize\<close> of a
  64-bit target, \<open>u32\<close>), the two standard-library functions on them that the crate calls
  (\<open>is_power_of_two\<close>, \<open>trailing_zeros\<close>), and the facts on inclusive integer ranges, residues
  and bit masks that the component theories share.

  An \<open>i64\<close> is an \<open>int\<close> in \<open>[-2^63, 2^63)\<close>; every addition and subtraction of the source is
  followed by \<open>wrap64\<close>, which is what the release build computes (the debug build panics where
  \<open>wrap64\<close> changes the value). Bitwise operations on \<open>int\<close> agree with those on \<open>i64\<close>, since an
  \<open>int\<close> is an infinite two's complement number. A \<open>usize\<close> is a \<open>nat\<close> below \<open>2^64\<close>.
\<close>

unbundle bit_operations_syntax

named_theorems range_simps \<open>inclusive integer ranges, as the for-loops of the source run over them\<close>
named_theorems frame_simps \<open>fields that an operation leaves alone\<close>

type_synonym i64 = int
type_synonym usize = nat
type_synonym u32 = "32 word"

section \<open>Machine integers\<close>

definition wrap64 :: "int \<Rightarrow> i64" where
  "wrap64 x = (x + 2 ^ 63) mod 2 ^ 64 - 2 ^ 63"

text \<open>The casts \<open>n as i64\<close> and \<open>x as usize\<close>.\<close>

definition usize_as_i64 :: "usize \<Rightarrow> i64" where
  "usize_as_i64 n = wrap64 (int n)"

definition i64_as_usize :: "i64 \<Rightarrow> usize" where
  "i64_as_usize x = nat (x mod 2 ^ 64)"

lemma wrap64_id [simp]: "- (2 ^ 63) \<le> x \<Longrightarrow> x < 2 ^ 63 \<Longrightarrow> wrap64 x = x"
  by (simp add: wrap64_def)

text \<open>Where nothing wraps, evaluation does not divide.\<close>

lemma wrap64_code [code]:
  "wrap64 x =
     (if - 9223372036854775808 \<le> x \<and> x < 9223372036854775808 then x
      else (x + 9223372036854775808) mod 18446744073709551616 - 9223372036854775808)"
  by (simp add: wrap64_def)

lemma usize_as_i64_id [simp]: "n < 2 ^ 63 \<Longrightarrow> usize_as_i64 n = int n"
  unfolding usize_as_i64_def by (rule wrap64_id) simp_all

lemma i64_as_usize_id [simp]: "0 \<le> x \<Longrightarrow> x < 2 ^ 63 \<Longrightarrow> i64_as_usize x = nat x"
  by (simp add: i64_as_usize_def)

section \<open>Powers of two\<close>

fun is_power_of_two :: "usize \<Rightarrow> bool" where
  "is_power_of_two n = (if n = 0 then False else if n = 1 then True
     else even n \<and> is_power_of_two (n div 2))"

fun trailing_zeros :: "usize \<Rightarrow> nat" where
  "trailing_zeros n = (if n = 0 then 64 else if odd n then 0
     else Suc (trailing_zeros (n div 2)))"

declare is_power_of_two.simps [simp del] trailing_zeros.simps [simp del]

lemma is_power_of_two_power: "is_power_of_two (2 ^ k)"
  by (induction k) (simp_all add: is_power_of_two.simps [of "2 ^ _"] is_power_of_two.simps [of "Suc 0"]
      is_power_of_two.simps [of "2 * _"])

lemma trailing_zeros_power [simp]: "trailing_zeros (2 ^ k) = k"
  by (induction k) (simp_all add: trailing_zeros.simps [of "Suc 0"] trailing_zeros.simps [of "2 * _"])

lemma is_power_of_two_iff: "is_power_of_two n \<longleftrightarrow> (\<exists>k. n = 2 ^ k)"
proof
  show "is_power_of_two n \<Longrightarrow> \<exists>k. n = 2 ^ k"
  proof (induction n rule: is_power_of_two.induct)
    case (1 n)
    consider "n = 1" | "n \<noteq> 0" "n \<noteq> 1" "even n" "is_power_of_two (n div 2)"
      using "1.prems" by (auto simp: is_power_of_two.simps [of n] split: if_splits)
    then show ?case
    proof cases
      case 1
      then show ?thesis by (intro exI [of _ 0]) simp
    next
      case 2
      then obtain k where "n div 2 = 2 ^ k" using "1.IH" by blast
      with \<open>even n\<close> have "n = 2 ^ Suc k" by auto
      then show ?thesis by blast
    qed
  qed
qed (auto simp: is_power_of_two_power)

section \<open>Residues\<close>

lemma and_low_mask: "(x::int) AND (2 ^ k - 1) = x mod 2 ^ k"
  by (metis mask_eq_exp_minus_1 take_bit_eq_mask take_bit_eq_mod)

text \<open>Two sequence numbers less than one ring apart never share a slot.\<close>

lemma mod_eq_close:
  assumes "(a::int) mod c = b mod c" and "\<bar>a - b\<bar> < c"
  shows "a = b"
proof -
  have "c dvd a - b" using assms(1) by (simp add: mod_eq_dvd_iff)
  with assms(2) show ?thesis
    using zdvd_not_zless [of "\<bar>a - b\<bar>" c] by fastforce
qed

lemma div_near:
  assumes "(a::int) mod c = b mod c" and "0 < c" and "a = b + d * c"
  shows "a div c = b div c + d"
  using assms by simp

section \<open>Inclusive ranges\<close>

lemma upto_step [range_simps]: "(a::int) \<le> b \<Longrightarrow> [a..b] = a # [a + 1..b]"
  by (simp add: upto_rec1)

lemma upto_none [range_simps]: "(b::int) < a \<Longrightarrow> [a..b] = []"
  by simp

lemma upto_snoc: "(a::int) \<le> b \<Longrightarrow> [a..b] = [a..b - 1] @ [b]"
  by (rule upto_rec2)

lemma nth_upto': "i < length [a..b] \<Longrightarrow> [a..b] ! i = a + int i"
  by (simp add: nth_upto)

text \<open>
  The run of sequence numbers from \<open>a\<close> on that satisfy \<open>P\<close>, cut at \<open>b\<close>: its last member, or
  \<open>a - 1\<close>. Both scans of the slot states compute it.
\<close>

definition last_run :: "(int \<Rightarrow> bool) \<Rightarrow> int \<Rightarrow> int \<Rightarrow> int" where
  "last_run P a b = a - 1 + int (length (takeWhile P [a..b]))"

lemma last_run_Nil [simp]: "b < a \<Longrightarrow> last_run P a b = a - 1"
  by (simp add: last_run_def)

lemma last_run_step: "a \<le> b \<Longrightarrow> last_run P a b = (if P a then last_run P (a + 1) b else a - 1)"
  by (simp add: last_run_def upto_rec1)

lemma last_run_bounds: "a - 1 \<le> last_run P a b" "a \<le> b \<Longrightarrow> last_run P a b \<le> b"
  "last_run P a b \<le> max (a - 1) b"
  using length_takeWhile_le [of P "[a..b]"] by (auto simp: last_run_def)

lemma last_run_all: "a \<le> q \<Longrightarrow> q \<le> last_run P a b \<Longrightarrow> P q"
proof -
  assume q: "a \<le> q" "q \<le> last_run P a b"
  let ?i = "nat (q - a)"
  have i: "?i < length (takeWhile P [a..b])" using q by (simp add: last_run_def)
  have "takeWhile P [a..b] ! ?i = [a..b] ! ?i" using i by (rule takeWhile_nth)
  moreover have "?i < length [a..b]" using i length_takeWhile_le [of P "[a..b]"] by linarith
  ultimately have "takeWhile P [a..b] ! ?i = q" using q by (simp add: nth_upto)
  with i show "P q" by (metis nth_mem set_takeWhileD)
qed

lemma last_run_maximal: "last_run P a b < b \<Longrightarrow> a \<le> b \<Longrightarrow> \<not> P (last_run P a b + 1)"
proof -
  assume less: "last_run P a b < b" and "a \<le> b"
  let ?n = "length (takeWhile P [a..b])"
  have n: "?n < length [a..b]" using less by (simp add: last_run_def)
  then have "\<not> P ([a..b] ! ?n)" by (rule nth_length_takeWhile)
  with n show ?thesis by (simp add: last_run_def nth_upto)
qed

lemma last_run_eqI:
  assumes "a - 1 \<le> l" "l \<le> b" "\<And>q. a \<le> q \<Longrightarrow> q \<le> l \<Longrightarrow> P q" "l < b \<Longrightarrow> \<not> P (l + 1)"
  shows "last_run P a b = l"
proof (cases "a \<le> b")
  case True
  show ?thesis
  proof (rule ccontr)
    assume "last_run P a b \<noteq> l"
    then consider "last_run P a b < l" | "l < last_run P a b" by linarith
    then show False
    proof cases
      case 1
      then have "\<not> P (last_run P a b + 1)"
        using last_run_maximal [of P a b] assms(2) True by linarith
      moreover have "P (last_run P a b + 1)"
        using assms(3) 1 last_run_bounds(1) [of a P b] by (smt (verit))
      ultimately show False by simp
    next
      case 2
      then have "P (l + 1)" using assms(1) by (intro last_run_all [of a "l + 1" P b]) linarith+
      moreover have "l < b" using 2 last_run_bounds(2) [OF True, of P] by linarith
      ultimately show False using assms(4) by simp
    qed
  qed
next
  case False
  then show ?thesis using assms(1,2) by simp
qed

lemma last_run_cong:
  "(\<And>q. a \<le> q \<Longrightarrow> q \<le> b \<Longrightarrow> P q = Q q) \<Longrightarrow> last_run P a b = last_run Q a b"
  using takeWhile_cong [of "[a..b]" "[a..b]" P Q] by (simp add: last_run_def)

lemma last_run_threshold: "a - 1 \<le> l \<Longrightarrow> a \<le> b \<Longrightarrow> last_run (\<lambda>q. q \<le> l) a b = min l b"
  by (rule last_run_eqI) auto

end
