(* ===== verification/Sequences.thy ===== *)
theory Sequences
  imports Prelude
begin

text \<open>
  \<open>src/src/sequence.rs\<close> and \<open>src/src/cursor.rs\<close>: sequence numbers (a newtype around \<open>i64\<close>) and
  the atomic cell that holds one. \<open>INIT = -1\<close> is "nothing yet"; \<open>SHUTDOWN_OPEN = i64::MAX\<close> is
  what a dropped receiver leaves in its cursor. A cursor is its current value; every operation
  on it is one atomic access, and memory orderings are not modelled.
\<close>

type_synonym sequence = i64
type_synonym cursor = i64

text \<open>The newtype's constructor and accessor, the conversions, and the comparisons with an \<open>i64\<close>.\<close>

definition seq_new :: "i64 \<Rightarrow> sequence" where
  "seq_new v = v"

definition seq_value :: "sequence \<Rightarrow> i64" where
  "seq_value s = s"

definition seq_from_i64 :: "i64 \<Rightarrow> sequence" where
  "seq_from_i64 v = seq_new v"

definition i64_from_seq :: "sequence \<Rightarrow> i64" where
  "i64_from_seq s = seq_value s"

datatype ordering = Less | Equal | Greater

definition seq_eq_i64 :: "sequence \<Rightarrow> i64 \<Rightarrow> bool" where
  "seq_eq_i64 s n \<longleftrightarrow> seq_value s = n"

definition seq_partial_cmp_i64 :: "sequence \<Rightarrow> i64 \<Rightarrow> ordering option" where
  "seq_partial_cmp_i64 s n =
     Some (if seq_value s < n then Less else if seq_value s = n then Equal else Greater)"

definition INIT :: sequence where
  "INIT = - 1"

definition SHUTDOWN_OPEN :: sequence where
  "SHUTDOWN_OPEN = 2 ^ 63 - 1"

definition is_shutdown_open :: "sequence \<Rightarrow> bool" where
  "is_shutdown_open s \<longleftrightarrow> s = SHUTDOWN_OPEN"

definition is_init :: "sequence \<Rightarrow> bool" where
  "is_init s \<longleftrightarrow> s = INIT"

text \<open>\<open>Add\<close>, \<open>AddAssign\<close> and the two \<open>Sub\<close> instances.\<close>

definition seq_add :: "sequence \<Rightarrow> i64 \<Rightarrow> sequence" where
  "seq_add s n = wrap64 (s + n)"

definition seq_sub :: "sequence \<Rightarrow> i64 \<Rightarrow> sequence" where
  "seq_sub s n = wrap64 (s - n)"

definition seq_add_assign :: "sequence \<Rightarrow> i64 \<Rightarrow> sequence" where
  "seq_add_assign s n = wrap64 (s + n)"

definition seq_diff :: "sequence \<Rightarrow> sequence \<Rightarrow> sequence" where
  "seq_diff s t = wrap64 (s - t)"

definition cursor_new :: "sequence \<Rightarrow> cursor" where
  "cursor_new s = s"

definition cursor_default :: cursor where
  "cursor_default = cursor_new INIT"

definition cursor_load :: "cursor \<Rightarrow> i64" where
  "cursor_load c = c"

definition cursor_store :: "cursor \<Rightarrow> i64 \<Rightarrow> cursor" where
  "cursor_store c v = v"

text \<open>The strong compare-and-swap: the result (\<open>Inr\<close> the old value, or \<open>Inl\<close> the value found)
  and the cell after it.\<close>

definition compare_exchange :: "cursor \<Rightarrow> i64 \<Rightarrow> i64 \<Rightarrow> (i64 + i64) \<times> cursor" where
  "compare_exchange c current new =
     (if c = current then (Inr c, new) else (Inl c, c))"

lemma seq_add_id [simp]: "- (2 ^ 63) \<le> s + n \<Longrightarrow> s + n < 2 ^ 63 \<Longrightarrow> seq_add s n = s + n"
  by (simp add: seq_add_def)

lemma seq_sub_id [simp]: "- (2 ^ 63) \<le> s - n \<Longrightarrow> s - n < 2 ^ 63 \<Longrightarrow> seq_sub s n = s - n"
  by (simp add: seq_sub_def)

lemma seq_add_assign_id [simp]: "- (2 ^ 63) \<le> s + n \<Longrightarrow> s + n < 2 ^ 63 \<Longrightarrow> seq_add_assign s n = s + n"
  by (simp add: seq_add_assign_def)

lemma seq_diff_id [simp]: "- (2 ^ 63) \<le> s - t \<Longrightarrow> s - t < 2 ^ 63 \<Longrightarrow> seq_diff s t = s - t"
  by (simp add: seq_diff_def)

lemma cursor_load_store [simp]: "cursor_load (cursor_store c v) = v"
  by (simp add: cursor_load_def cursor_store_def)

lemma cursor_load_default [simp]: "cursor_load cursor_default = - 1"
  by (simp add: cursor_load_def cursor_default_def cursor_new_def INIT_def)

lemma compare_exchange_hit [simp]: "compare_exchange c c new = (Inr c, new)"
  by (simp add: compare_exchange_def)

lemma compare_exchange_miss [simp]: "c \<noteq> current \<Longrightarrow> compare_exchange c current new = (Inl c, c)"
  by (simp add: compare_exchange_def)

end
