(* ===== verification/Errors.thy ===== *)
theory Errors
  imports Prelude
begin

text \<open>
  \<open>src/src/errors.rs\<close>: the internal claim error, the public errors it is converted to on the
  sending and on the receiving side, and the check of a channel's size. A \<open>Result\<close> is a sum with
  \<open>Inl\<close> the error; the \<open>?\<close> operator of the source is \<open>map_error\<close> with the \<open>From\<close> conversion.
\<close>

datatype try_claim_error = ClaimEmpty | ClaimShutdown

datatype 'a try_send_error = SendFull 'a | SendDisconnected 'a

datatype try_reserve_error = ReserveFull | ReserveDisconnected

datatype try_send_at_most_error = AtMostFull | AtMostDisconnected

datatype try_recv_error = RecvEmpty | RecvDisconnected

datatype invalid_channel_size = NotAPowerOfTwo | TooLarge

definition MAX_CHANNEL_SIZE :: usize where
  "MAX_CHANNEL_SIZE = 2 ^ 30"

definition validate :: "usize \<Rightarrow> invalid_channel_size + unit" where
  "validate channel_size =
     (if channel_size > MAX_CHANNEL_SIZE then Inl TooLarge
      else if \<not> is_power_of_two channel_size then Inl NotAPowerOfTwo
      else Inr ())"

fun recv_error_of :: "try_claim_error \<Rightarrow> try_recv_error" where
  "recv_error_of ClaimEmpty = RecvEmpty"
| "recv_error_of ClaimShutdown = RecvDisconnected"

fun at_most_error_of :: "try_claim_error \<Rightarrow> try_send_at_most_error" where
  "at_most_error_of ClaimEmpty = AtMostFull"
| "at_most_error_of ClaimShutdown = AtMostDisconnected"

fun reserve_error_of :: "try_claim_error \<Rightarrow> try_reserve_error" where
  "reserve_error_of ClaimEmpty = ReserveFull"
| "reserve_error_of ClaimShutdown = ReserveDisconnected"

definition map_error :: "('e \<Rightarrow> 'f) \<Rightarrow> 'e + 'a \<Rightarrow> 'f + 'a" where
  "map_error f r = map_sum f id r"

lemma map_error_simps [simp]:
  "map_error f (Inl e) = Inl (f e)" "map_error f (Inr x) = Inr x"
  by (simp_all add: map_error_def)

lemma power_le_MAX_CHANNEL_SIZE [simp]: "2 ^ k \<le> MAX_CHANNEL_SIZE \<longleftrightarrow> k \<le> 30"
  unfolding MAX_CHANNEL_SIZE_def by (rule power_increasing_iff) simp

lemma validate_ok_iff: "validate n = Inr () \<longleftrightarrow> (\<exists>k \<le> 30. n = 2 ^ k)"
proof -
  have "validate n = Inr () \<longleftrightarrow> n \<le> MAX_CHANNEL_SIZE \<and> (\<exists>k. n = 2 ^ k)"
    by (simp add: validate_def is_power_of_two_iff not_less)
  also have "\<dots> \<longleftrightarrow> (\<exists>k \<le> 30. n = 2 ^ k)" by auto
  finally show ?thesis .
qed

text \<open>The size check compares in binary when it is evaluated.\<close>

lemma validate_code [code]:
  "validate n = (if int n > 2 ^ 30 then Inl TooLarge
     else if \<not> is_power_of_two n then Inl NotAPowerOfTwo else Inr ())"
  unfolding validate_def MAX_CHANNEL_SIZE_def by auto

end
