(* ===== verification/RingBuffers.thy ===== *)
theory RingBuffers
  imports Sequences Errors
begin

text \<open>
  \<open>src/src/ringbuffer.rs\<close>: the geometry of a ring (\<open>RingBufferMeta\<close>: its size and the mask that
  turns a sequence number into a slot index) and the ring of values itself. The unchecked slot
  accesses of the source are list accesses here; \<open>index_of_seq_less\<close> shows that the index is
  always in range, so neither is ever out of bounds.
\<close>

section \<open>RingBufferMeta\<close>

record ring_meta =
  index_mask :: i64
  buffer_size :: i64

text \<open>\<open>None\<close> is the panic of one of the two assertions.\<close>

definition meta_new :: "usize \<Rightarrow> ring_meta option" where
  "meta_new n =
     (if \<not> is_power_of_two n then None
      else if n > MAX_CHANNEL_SIZE then None
      else Some \<lparr>index_mask = wrap64 (usize_as_i64 n - 1), buffer_size = usize_as_i64 n\<rparr>)"

lemma meta_new_code [code]:
  "meta_new n =
     (if \<not> is_power_of_two n then None
      else if int n > 2 ^ 30 then None
      else Some \<lparr>index_mask = wrap64 (usize_as_i64 n - 1), buffer_size = usize_as_i64 n\<rparr>)"
  unfolding meta_new_def MAX_CHANNEL_SIZE_def by auto

definition index_of_seq :: "ring_meta \<Rightarrow> sequence \<Rightarrow> usize" where
  "index_of_seq m s = i64_as_usize (s AND index_mask m)"

definition available_slots :: "ring_meta \<Rightarrow> sequence \<Rightarrow> sequence \<Rightarrow> i64" where
  "available_slots m highest_published max_consumed =
     (let wrap_point = seq_sub highest_published (buffer_size m)
      in seq_diff max_consumed wrap_point)"

text \<open>The geometries that \<open>meta_new\<close> returns.\<close>

definition meta_ok :: "ring_meta \<Rightarrow> bool" where
  "meta_ok m \<longleftrightarrow> 1 \<le> buffer_size m \<and> buffer_size m \<le> 2 ^ 30 \<and>
     is_power_of_two (nat (buffer_size m)) \<and> index_mask m = buffer_size m - 1"

lemma meta_okE:
  assumes "meta_ok m"
  obtains k where "k \<le> 30" "buffer_size m = 2 ^ k" "index_mask m = 2 ^ k - 1"
proof -
  from assms obtain k where k: "nat (buffer_size m) = 2 ^ k"
    by (auto simp: meta_ok_def is_power_of_two_iff)
  have b: "buffer_size m = 2 ^ k"
    using k assms by (metis int_nat_eq less_le_not_le linear meta_ok_def nat_int of_nat_numeral
        of_nat_power zero_le_one order_trans)
  then have "(2::int) ^ k \<le> 2 ^ 30" using assms by (simp add: meta_ok_def)
  then have "k \<le> 30" by (rule power_le_imp_le_exp [rotated]) simp
  with b assms that show thesis by (simp add: meta_ok_def)
qed

lemma buffer_size_pos: "meta_ok m \<Longrightarrow> 0 < buffer_size m"
  and buffer_size_le: "meta_ok m \<Longrightarrow> buffer_size m \<le> 2 ^ 30"
  by (simp_all add: meta_ok_def)

lemma meta_new_ok: "meta_new n = Some m \<Longrightarrow> meta_ok m \<and> buffer_size m = int n"
proof -
  assume "meta_new n = Some m"
  then have p: "is_power_of_two n" and le: "n \<le> 2 ^ 30"
    and m: "m = \<lparr>index_mask = wrap64 (usize_as_i64 n - 1), buffer_size = usize_as_i64 n\<rparr>"
    by (auto simp: meta_new_def MAX_CHANNEL_SIZE_def split: if_splits)
  have n: "usize_as_i64 n = int n" using le by (intro usize_as_i64_id) simp
  have "0 < n" using p by (auto simp: is_power_of_two_iff)
  moreover have "int n \<le> 2 ^ 30" using le by simp
  ultimately show ?thesis using p m n by (simp add: meta_ok_def)
qed

lemma index_of_seq_mod: "meta_ok m \<Longrightarrow> index_of_seq m s = nat (s mod buffer_size m)"
proof -
  assume m: "meta_ok m"
  then obtain k where k: "buffer_size m = 2 ^ k" "index_mask m = 2 ^ k - 1" by (rule meta_okE)
  have "0 \<le> s mod 2 ^ k" by simp
  moreover have "s mod 2 ^ k < 2 ^ 63"
  proof -
    have "s mod 2 ^ k < 2 ^ k" by simp
    also have "(2::int) ^ k \<le> 2 ^ 30" using buffer_size_le [OF m] k by simp
    also have "(2::int) ^ 30 < 2 ^ 63" by simp
    finally show ?thesis .
  qed
  ultimately have "i64_as_usize (s mod 2 ^ k) = nat (s mod 2 ^ k)" by (rule i64_as_usize_id)
  then show ?thesis using k by (simp add: index_of_seq_def and_low_mask)
qed

lemma index_of_seq_less: "meta_ok m \<Longrightarrow> index_of_seq m s < nat (buffer_size m)"
  by (simp add: index_of_seq_mod nat_less_iff buffer_size_pos)

lemma index_of_seq_eq_iff:
  assumes "meta_ok m" and "\<bar>a - b\<bar> < buffer_size m"
  shows "index_of_seq m a = index_of_seq m b \<longleftrightarrow> a = b"
proof
  assume "index_of_seq m a = index_of_seq m b"
  then have "a mod buffer_size m = b mod buffer_size m"
    using assms(1) by (simp add: index_of_seq_mod eq_nat_nat_iff buffer_size_pos)
  then show "a = b" using assms(2) by (rule mod_eq_close)
qed simp

lemma index_of_seq_lap [simp]:
  "meta_ok m \<Longrightarrow> index_of_seq m (s - buffer_size m) = index_of_seq m s"
  "meta_ok m \<Longrightarrow> index_of_seq m (s + buffer_size m) = index_of_seq m s"
  by (simp_all add: index_of_seq_mod)

lemma available_slots_eq:
  assumes "meta_ok m" "- 1 \<le> hp" "hp < 2 ^ 62" "- 1 \<le> mc" "mc < 2 ^ 62"
  shows "available_slots m hp mc = mc - hp + buffer_size m"
  using assms buffer_size_le [OF assms(1)] buffer_size_pos [OF assms(1)]
  by (simp add: available_slots_def)

section \<open>RingBuffer\<close>

text \<open>
  The values by slot. \<open>initializer\<close> is called once per slot in index order; the model passes it
  the number of the call, so that a stateful closure is covered.
\<close>

record 'a ring_buffer =
  slots :: "'a list"
  rb_meta :: ring_meta

definition init_with :: "usize \<Rightarrow> (nat \<Rightarrow> 'a) \<Rightarrow> 'a ring_buffer option" where
  "init_with capacity initializer =
     (case meta_new capacity of
        None \<Rightarrow> None
      | Some m \<Rightarrow> Some \<lparr>slots = map initializer [0..<capacity], rb_meta = m\<rparr>)"

definition rb_capacity :: "'a ring_buffer \<Rightarrow> i64" where
  "rb_capacity rb = buffer_size (rb_meta rb)"

definition modify_at :: "'a ring_buffer \<Rightarrow> sequence \<Rightarrow> ('a \<Rightarrow> 'a) \<Rightarrow> 'a ring_buffer" where
  "modify_at rb s modifier =
     (let index = index_of_seq (rb_meta rb) s
      in rb\<lparr>slots := (slots rb)[index := modifier (slots rb ! index)]\<rparr>)"

definition get_ref_at :: "'a ring_buffer \<Rightarrow> sequence \<Rightarrow> 'a" where
  "get_ref_at rb s = slots rb ! index_of_seq (rb_meta rb) s"

definition ring_ok :: "'a ring_buffer \<Rightarrow> bool" where
  "ring_ok rb \<longleftrightarrow> meta_ok (rb_meta rb) \<and> length (slots rb) = nat (buffer_size (rb_meta rb))"

lemma init_with_ok: "init_with n f = Some rb \<Longrightarrow> ring_ok rb \<and> buffer_size (rb_meta rb) = int n"
  using meta_new_ok [of n] by (auto simp: init_with_def ring_ok_def split: option.splits)

lemma rb_meta_modify_at [frame_simps, simp]: "rb_meta (modify_at rb s f) = rb_meta rb"
  by (simp add: modify_at_def Let_def)

lemma ring_ok_modify_at [simp]: "ring_ok (modify_at rb s f) = ring_ok rb"
  by (simp add: modify_at_def ring_ok_def Let_def)

lemma get_modify_same_index:
  assumes "ring_ok rb" "index_of_seq (rb_meta rb) s = index_of_seq (rb_meta rb) t"
  shows "get_ref_at (modify_at rb s f) t = f (get_ref_at rb t)"
  using assms index_of_seq_less [of "rb_meta rb" t]
  by (simp add: modify_at_def get_ref_at_def ring_ok_def Let_def)

lemma get_modify_other_index:
  "index_of_seq (rb_meta rb) s \<noteq> index_of_seq (rb_meta rb) t \<Longrightarrow>
     get_ref_at (modify_at rb s f) t = get_ref_at rb t"
  by (simp add: modify_at_def get_ref_at_def Let_def)

lemma get_modify:
  assumes "ring_ok rb" "\<bar>s - t\<bar> < buffer_size (rb_meta rb)"
  shows "get_ref_at (modify_at rb s f) t =
    (if s = t then f (get_ref_at rb t) else get_ref_at rb t)"
  using assms index_of_seq_eq_iff [of "rb_meta rb" s t]
  by (auto simp: get_modify_same_index get_modify_other_index ring_ok_def)

end
