(* ===== verification/SlotStates.thy ===== *)
theory SlotStates
  imports RingBuffers
begin

text \<open>
  \<open>src/src/slot_states.rs\<close>: one \<open>u32\<close> per slot, whose low 31 bits hold the lap of the last
  sequence number published there and whose top bit is the shutdown marker. \<open>published\<close> and
  \<open>marked\<close> read a slot state the way the scans do. The first part states what each operation
  does to them; the locales at the end are the contracts \<open>ProducerBarrier\<close> (what a consumer may
  rely on) and \<open>SlotStateGroup\<close> (what a publisher may rely on), interpreted on these operations.
\<close>

section \<open>Definitions\<close>

text \<open>\<open>SlotState\<close> of \<open>sequencers/mod.rs\<close>: the answer of a scan or of a gate.\<close>

record slot_state =
  ss_seq :: sequence
  ss_shutdown :: bool

definition MASK :: u32 where
  "MASK = push_bit 31 1 - 1"

definition SHUTDOWN_BIT :: u32 where
  "SHUTDOWN_BIT = push_bit 31 1"

text \<open>The two constants as literals, for evaluation.\<close>

lemma MASK_code [code]: "MASK = 2147483647"
  by (simp add: MASK_def)

lemma SHUTDOWN_BIT_code [code]: "SHUTDOWN_BIT = 2147483648"
  by (simp add: SHUTDOWN_BIT_def)

record u32_slot_states =
  states :: "u32 list"
  index_shift :: nat
  st_meta :: ring_meta
  flag_adjustment :: u32

definition new_all_empty :: "ring_meta \<Rightarrow> u32_slot_states" where
  "new_all_empty m =
     (let capacity = i64_as_usize (buffer_size m)
      in \<lparr>states = replicate capacity 0, index_shift = trailing_zeros capacity,
          st_meta = m, flag_adjustment = 1\<rparr>)"

definition slot_index :: "u32_slot_states \<Rightarrow> sequence \<Rightarrow> usize" where
  "slot_index st s = index_of_seq (st_meta st) s"

text \<open>\<open>>>\<close> on \<open>i64\<close> is the arithmetic shift, and \<open>as u32\<close> keeps the low 32 bits.\<close>

definition available_flag :: "u32_slot_states \<Rightarrow> sequence \<Rightarrow> u32" where
  "available_flag st s =
     (let lap = (word_of_int (drop_bit (index_shift st) s) :: u32)
      in (lap + flag_adjustment st) AND MASK)"

definition slot_state_of :: "u32_slot_states \<Rightarrow> sequence \<Rightarrow> usize \<times> u32" where
  "slot_state_of st s = (slot_index st s, available_flag st s)"

definition mark_shutdown :: "u32_slot_states \<Rightarrow> sequence \<Rightarrow> u32_slot_states" where
  "mark_shutdown st s =
     (let index = slot_index st s
      in st\<lparr>states := (states st)[index := states st ! index OR SHUTDOWN_BIT]\<rparr>)"

text \<open>The store of one slot, shared by \<open>publish\<close> and the loop of \<open>publish_range\<close>.\<close>

definition publish :: "u32_slot_states \<Rightarrow> sequence \<Rightarrow> u32_slot_states" where
  "publish st s =
     (case slot_state_of st s of (index, flag) \<Rightarrow> st\<lparr>states := (states st)[index := flag]\<rparr>)"

definition publish_range :: "u32_slot_states \<Rightarrow> sequence \<Rightarrow> sequence \<Rightarrow> u32_slot_states" where
  "publish_range st start stop = foldl publish st [start..stop]"

fun scan_last_loop :: "u32_slot_states \<Rightarrow> sequence \<Rightarrow> sequence list \<Rightarrow> sequence" where
  "scan_last_loop st last_available [] = last_available"
| "scan_last_loop st last_available (s # ss) =
     (case slot_state_of st s of (index, flag) \<Rightarrow>
        if states st ! index AND MASK \<noteq> flag then last_available
        else scan_last_loop st s ss)"

definition scan_last_available :: "u32_slot_states \<Rightarrow> sequence \<Rightarrow> sequence \<Rightarrow> sequence" where
  "scan_last_available st start stop = scan_last_loop st (wrap64 (start - 1)) [start..stop]"

fun scan_loop :: "u32_slot_states \<Rightarrow> sequence \<Rightarrow> bool \<Rightarrow> sequence list \<Rightarrow> slot_state" where
  "scan_loop st last_available shutdown [] = \<lparr>ss_seq = last_available, ss_shutdown = shutdown\<rparr>"
| "scan_loop st last_available shutdown (s # ss) =
     (case slot_state_of st s of (index, flag) \<Rightarrow>
        let raw = states st ! index;
            shutdown' = (shutdown \<or> raw AND SHUTDOWN_BIT \<noteq> 0)
        in if raw AND MASK \<noteq> flag
           then \<lparr>ss_seq = last_available, ss_shutdown = shutdown'\<rparr>
           else scan_loop st s shutdown' ss)"

definition scan_available_until ::
  "u32_slot_states \<Rightarrow> sequence \<Rightarrow> sequence \<Rightarrow> slot_state" where
  "scan_available_until st start stop = scan_loop st (wrap64 (start - 1)) False [start..stop]"

section \<open>Reading a slot state\<close>

definition published :: "u32_slot_states \<Rightarrow> sequence \<Rightarrow> bool" where
  "published st s \<longleftrightarrow> states st ! slot_index st s AND MASK = available_flag st s"

definition marked :: "u32_slot_states \<Rightarrow> sequence \<Rightarrow> bool" where
  "marked st s \<longleftrightarrow> states st ! slot_index st s AND SHUTDOWN_BIT \<noteq> 0"

definition slots_ok :: "u32_slot_states \<Rightarrow> bool" where
  "slots_ok st \<longleftrightarrow> meta_ok (st_meta st) \<and> length (states st) = nat (buffer_size (st_meta st)) \<and>
     index_shift st = trailing_zeros (nat (buffer_size (st_meta st))) \<and> flag_adjustment st = 1"

abbreviation ring_size :: "u32_slot_states \<Rightarrow> int" where
  "ring_size st \<equiv> buffer_size (st_meta st)"

lemma MASK_eq: "MASK = mask 31"
  by (simp add: MASK_def mask_eq_exp_minus_1 push_bit_eq_mult)

lemma SHUTDOWN_BIT_eq: "SHUTDOWN_BIT = 2 ^ 31"
  by (simp add: SHUTDOWN_BIT_def push_bit_eq_mult)

lemma and_MASK: "w AND MASK = take_bit 31 w"
  by (simp add: MASK_eq take_bit_eq_mask)

lemma bit_SHUTDOWN_BIT: "bit SHUTDOWN_BIT n \<longleftrightarrow> n = 31"
  unfolding SHUTDOWN_BIT_eq bit_exp_iff by (auto simp: possible_bit_word)

lemma bit_MASK: "bit MASK n \<longleftrightarrow> n < 31"
  unfolding MASK_eq bit_mask_iff by (auto simp: possible_bit_word)

lemma or_SHUTDOWN_BIT_and_MASK [simp]: "(w OR SHUTDOWN_BIT) AND MASK = w AND MASK"
  by (rule bit_eqI) (auto simp: bit_and_iff bit_or_iff bit_SHUTDOWN_BIT bit_MASK)

lemma SHUTDOWN_BIT_nonzero [simp]: "SHUTDOWN_BIT \<noteq> 0"
  using bit_SHUTDOWN_BIT [of 31] by auto

lemma and_MASK_unmarked [simp]: "(w AND MASK) AND SHUTDOWN_BIT = 0"
  by (rule bit_eqI) (auto simp: bit_and_iff bit_SHUTDOWN_BIT bit_MASK)

lemma and_MASK_idem [simp]: "w AND MASK AND MASK = w AND MASK"
  by (simp add: and.assoc)

lemma available_flag_masked [simp]: "available_flag st s AND MASK = available_flag st s"
  "available_flag st s AND SHUTDOWN_BIT = 0"
  by (simp_all add: available_flag_def Let_def)

lemma slots_okE:
  assumes "slots_ok st"
  obtains k where "k \<le> 30" "ring_size st = 2 ^ k" "index_shift st = k" "flag_adjustment st = 1"
    "meta_ok (st_meta st)" "length (states st) = 2 ^ k"
proof -
  from assms have "meta_ok (st_meta st)" by (simp add: slots_ok_def)
  then obtain k where "k \<le> 30" "ring_size st = 2 ^ k" by (rule meta_okE)
  then show thesis using that assms by (simp add: slots_ok_def nat_power_eq)
qed

lemma slot_index_less: "slots_ok st \<Longrightarrow> slot_index st s < length (states st)"
  by (simp add: slots_ok_def slot_index_def index_of_seq_less)

lemma slots_ok_new: "meta_ok m \<Longrightarrow> slots_ok (new_all_empty m)"
proof -
  assume m: "meta_ok m"
  have "i64_as_usize (buffer_size m) = nat (buffer_size m)"
    using buffer_size_pos [OF m] buffer_size_le [OF m] by (intro i64_as_usize_id) simp_all
  with m show ?thesis by (simp add: slots_ok_def new_all_empty_def Let_def)
qed

section \<open>Lap flags\<close>

definition lap :: "u32_slot_states \<Rightarrow> sequence \<Rightarrow> int" where
  "lap st s = s div ring_size st"

text \<open>A flag is the lap plus one, modulo \<open>2^31\<close>: bit 31 is the shutdown marker's.\<close>

lemma available_flag_eq_iff:
  assumes "slots_ok st"
  shows "available_flag st a = available_flag st b \<longleftrightarrow> lap st a mod 2 ^ 31 = lap st b mod 2 ^ 31"
proof -
  obtain k where k: "ring_size st = 2 ^ k" "index_shift st = k" "flag_adjustment st = 1"
    using assms by (rule slots_okE)
  have flag: "uint (available_flag st s) = (lap st s + 1) mod 2 ^ 31" for s
  proof -
    have "available_flag st s = take_bit 31 (word_of_int (lap st s + 1))"
      using k by (simp add: available_flag_def and_MASK drop_bit_eq_div lap_def)
    then have "uint (available_flag st s) = take_bit 31 (uint (word_of_int (lap st s + 1) :: u32))"
      by (simp only: unsigned_take_bit_eq)
    also have "\<dots> = take_bit 31 (take_bit 32 (lap st s + 1))"
      by (simp only: uint_word_of_int_eq) simp
    finally show ?thesis by (simp add: take_bit_eq_mod mod_mod_cancel)
  qed
  have "available_flag st a = available_flag st b \<longleftrightarrow>
      (lap st a + 1) mod 2 ^ 31 = (lap st b + 1) mod 2 ^ 31"
    by (simp only: word_uint_eq_iff flag)
  also have "\<dots> \<longleftrightarrow> lap st a mod 2 ^ 31 = lap st b mod 2 ^ 31"
    by (simp add: mod_eq_dvd_iff)
  finally show ?thesis .
qed

text \<open>
  Bounded lag: as long as two sequence numbers of one slot are less than \<open>2^31\<close> laps apart,
  the slot's flag tells them apart.
\<close>

lemma lap_diff_same_slot:
  assumes "slots_ok st" "slot_index st a = slot_index st b"
  shows "a - b = (lap st a - lap st b) * ring_size st"
proof -
  have "meta_ok (st_meta st)" using assms(1) by (simp add: slots_ok_def)
  then have "a mod ring_size st = b mod ring_size st"
    using assms(2) by (simp add: slot_index_def index_of_seq_mod eq_nat_nat_iff buffer_size_pos)
  then show ?thesis
    using div_mult_mod_eq [of a "ring_size st"] div_mult_mod_eq [of b "ring_size st"]
    unfolding lap_def left_diff_distrib by linarith
qed

lemma published_unique:
  assumes "slots_ok st" "published st a" "slot_index st a = slot_index st b"
    and "\<bar>lap st a - lap st b\<bar> < 2 ^ 31"
  shows "published st b \<longleftrightarrow> a = b"
proof
  assume "published st b"
  then have "available_flag st a = available_flag st b"
    using assms(2,3) by (simp add: published_def)
  then have "lap st a mod 2 ^ 31 = lap st b mod 2 ^ 31"
    using assms(1) by (simp add: available_flag_eq_iff)
  then have "lap st a = lap st b" using assms(4) by (rule mod_eq_close)
  then show "a = b" using lap_diff_same_slot [OF assms(1,3)] by simp
qed (use assms(2) in simp)

section \<open>Effects\<close>

lemma frame_publish [frame_simps, simp]:
  "st_meta (publish st s) = st_meta st"
  "available_flag (publish st s) t = available_flag st t"
  "slot_index (publish st s) t = slot_index st t"
  by (simp_all add: publish_def slot_state_of_def available_flag_def slot_index_def)

lemma frame_mark_shutdown [frame_simps, simp]:
  "st_meta (mark_shutdown st s) = st_meta st"
  "available_flag (mark_shutdown st s) t = available_flag st t"
  "slot_index (mark_shutdown st s) t = slot_index st t"
  by (simp_all add: mark_shutdown_def available_flag_def slot_index_def Let_def)

lemma slots_ok_publish [simp]: "slots_ok (publish st s) = slots_ok st"
  by (simp add: publish_def slot_state_of_def slots_ok_def)

lemma slots_ok_mark_shutdown [simp]: "slots_ok (mark_shutdown st s) = slots_ok st"
  by (simp add: mark_shutdown_def Let_def slots_ok_def)

lemma published_publish_other:
  "slot_index st s \<noteq> slot_index st t \<Longrightarrow> published (publish st s) t = published st t"
  by (simp add: published_def) (simp add: publish_def slot_state_of_def)

lemma published_publish_same:
  "slots_ok st \<Longrightarrow> slot_index st s = slot_index st t \<Longrightarrow>
     published (publish st s) t \<longleftrightarrow> available_flag st s = available_flag st t"
  by (simp add: published_def)
    (simp add: publish_def slot_state_of_def slot_index_less)

lemma published_publish:
  assumes "slots_ok st" "\<bar>s - t\<bar> < ring_size st"
  shows "published (publish st s) t \<longleftrightarrow> s = t \<or> published st t"
proof (cases "slot_index st s = slot_index st t")
  case True
  then have "s = t"
    using assms by (simp add: slots_ok_def slot_index_def index_of_seq_eq_iff)
  then show ?thesis using assms(1) by (simp add: published_publish_same)
qed (auto simp: published_publish_other)

lemma published_mark_shutdown [simp]: "slots_ok st \<Longrightarrow> published (mark_shutdown st s) t = published st t"
  by (cases "slot_index st s = slot_index st t")
    (simp_all add: published_def slot_index_less, simp_all add: mark_shutdown_def Let_def slot_index_less)

lemma marked_mark_shutdown:
  "slots_ok st \<Longrightarrow>
     marked (mark_shutdown st s) t \<longleftrightarrow> slot_index st s = slot_index st t \<or> marked st t"
  by (cases "slot_index st s = slot_index st t")
    (simp_all add: marked_def, simp_all add: mark_shutdown_def Let_def slot_index_less)

text \<open>A publication stores the bare flag: it clears the marker of its slot.\<close>

lemma marked_publish:
  "slots_ok st \<Longrightarrow>
     marked (publish st s) t \<longleftrightarrow> slot_index st s \<noteq> slot_index st t \<and> marked st t"
  by (cases "slot_index st s = slot_index st t")
    (simp_all add: marked_def, simp_all add: publish_def slot_state_of_def slot_index_less)

lemma marked_published_new:
  assumes "meta_ok m"
  shows "\<not> marked (new_all_empty m) s"
    and "published (new_all_empty m) s \<longleftrightarrow> lap (new_all_empty m) s mod 2 ^ 31 = 2 ^ 31 - 1"
proof -
  let ?st = "new_all_empty m"
  have ok: "slots_ok ?st" using assms by (rule slots_ok_new)
  have zero: "states ?st ! slot_index ?st s = 0"
    using slot_index_less [OF ok, of s] by (simp add: new_all_empty_def Let_def)
  then show "\<not> marked ?st s" by (simp add: marked_def)
  have "available_flag ?st (- ring_size ?st) = 0"
  proof -
    obtain k where k: "ring_size ?st = 2 ^ k" "index_shift ?st = k" "flag_adjustment ?st = 1"
      using ok by (rule slots_okE)
    then show ?thesis by (simp add: available_flag_def drop_bit_eq_div zdiv_zminus1_eq_if)
  qed
  moreover have "lap ?st (- ring_size ?st) = - 1"
    using buffer_size_pos [OF assms] by (simp add: lap_def new_all_empty_def Let_def zdiv_zminus1_eq_if)
  ultimately show "published ?st s \<longleftrightarrow> lap ?st s mod 2 ^ 31 = 2 ^ 31 - 1"
    using zero available_flag_eq_iff [OF ok, of s "- ring_size ?st"] by (auto simp: published_def)
qed

section \<open>Scans\<close>

lemma scan_last_loop_eq:
  "scan_last_loop st (a - 1) [a..b] = last_run (published st) a b"
proof (induction "nat (b - a + 1)" arbitrary: a)
  case 0
  then show ?case by simp
next
  case (Suc n)
  then have "a \<le> b" by simp
  moreover have "scan_last_loop st (a + 1 - 1) [a + 1..b] = last_run (published st) (a + 1) b"
    using Suc by (intro Suc(1)) linarith
  ultimately show ?case
    by (simp add: upto_step last_run_step slot_state_of_def published_def)
qed

lemma scan_loop_seq:
  "ss_seq (scan_loop st (a - 1) d [a..b]) = last_run (published st) a b"
proof (induction "nat (b - a + 1)" arbitrary: a d)
  case 0
  then show ?case by simp
next
  case (Suc n)
  then have "a \<le> b" by simp
  moreover have "ss_seq (scan_loop st (a + 1 - 1) d' [a + 1..b]) = last_run (published st) (a + 1) b"
    for d' using Suc by (intro Suc(1)) linarith
  ultimately show ?case
    by (simp add: upto_step last_run_step slot_state_of_def published_def Let_def)
qed

text \<open>The shutdown flag: some slot the scan looked at is marked. It looks at the run and at the
  first slot behind it.\<close>

lemma scan_loop_shutdown:
  "ss_shutdown (scan_loop st (a - 1) d [a..b]) \<longleftrightarrow>
     d \<or> (\<exists>s \<in> {a..min b (last_run (published st) a b + 1)}. marked st s)"
proof (induction "nat (b - a + 1)" arbitrary: a d)
  case 0
  then show ?case by simp
next
  case (Suc n)
  then have ab: "a \<le> b" by simp
  let ?r = "last_run (published st) (a + 1) b"
  have IH: "ss_shutdown (scan_loop st (a + 1 - 1) d' [a + 1..b]) \<longleftrightarrow>
      d' \<or> (\<exists>s \<in> {a + 1..min b (?r + 1)}. marked st s)" for d'
    using Suc by (intro Suc(1)) linarith
  have "{a..min b (?r + 1)} = insert a {a + 1..min b (?r + 1)}"
    using ab last_run_bounds(1) [of "a + 1" "published st" b] by auto
  moreover have "{a..min b a} = {a}" using ab by auto
  ultimately show ?case using ab IH
    by (auto simp: upto_step last_run_step slot_state_of_def published_def marked_def Let_def)
qed

lemma scan_last_available_eq:
  "- (2 ^ 62) < a \<Longrightarrow> a < 2 ^ 62 \<Longrightarrow> scan_last_available st a b = last_run (published st) a b"
  using scan_last_loop_eq [of st a b] by (simp add: scan_last_available_def)

lemma scan_available_until_eq:
  assumes "- (2 ^ 62) < a" "a < 2 ^ 62"
  shows "ss_seq (scan_available_until st a b) = last_run (published st) a b"
    and "ss_shutdown (scan_available_until st a b) \<longleftrightarrow>
      (\<exists>s \<in> {a..min b (last_run (published st) a b + 1)}. marked st s)"
  using assms scan_loop_seq [of st a False b] scan_loop_shutdown [of st a False b]
  by (simp_all add: scan_available_until_def)

section \<open>Contracts\<close>

text \<open>
  \<open>ProducerBarrier\<close> (\<open>sequencers/mod.rs\<close>): \<open>max_published\<close> returns the last member of the
  contiguous run of available sequence numbers, and tells a consumer that found nothing whether
  the first slot carries the shutdown marker.
\<close>

locale producer_barrier =
  fixes max_published :: "'p \<Rightarrow> sequence \<Rightarrow> sequence \<Rightarrow> slot_state"
    and ok :: "'p \<Rightarrow> bool"
    and avail :: "'p \<Rightarrow> sequence \<Rightarrow> bool"
    and closing :: "'p \<Rightarrow> sequence \<Rightarrow> bool"
  assumes published_run: "ok p \<Longrightarrow> - (2 ^ 62) < a \<Longrightarrow> a < 2 ^ 62 \<Longrightarrow>
      ss_seq (max_published p a b) = last_run (avail p) a b"
    and closing_first: "ok p \<Longrightarrow> - (2 ^ 62) < a \<Longrightarrow> a < 2 ^ 62 \<Longrightarrow> a \<le> b \<Longrightarrow> \<not> avail p a \<Longrightarrow>
      ss_shutdown (max_published p a b) = closing p a"
begin

lemma nothing_published:
  assumes "ok p" "- (2 ^ 62) < a" "a < 2 ^ 62" "a \<le> b"
  shows "ss_seq (max_published p a b) < a \<longleftrightarrow> \<not> avail p a"
  using assms last_run_bounds(1) [of "a + 1" "avail p" b]
  by (auto simp: published_run last_run_step)

lemma published_available:
  assumes "ok p" "- (2 ^ 62) < a" "a < 2 ^ 62" "a \<le> s" "s \<le> ss_seq (max_published p a b)"
  shows "avail p s"
  using assms last_run_all [of a s "avail p" b] by (simp add: published_run)

end

text \<open>
  \<open>SlotStateGroup\<close> (\<open>slot_states.rs\<close>): a barrier whose sequence numbers a publisher makes
  available one by one or as a range; within one ring length nothing else changes.
\<close>

locale slot_state_group = producer_barrier scan ok avail closing
  for scan :: "'g \<Rightarrow> sequence \<Rightarrow> sequence \<Rightarrow> slot_state" and ok avail closing +
  fixes pub :: "'g \<Rightarrow> sequence \<Rightarrow> 'g"
    and pub_range :: "'g \<Rightarrow> sequence \<Rightarrow> sequence \<Rightarrow> 'g"
    and size_of :: "'g \<Rightarrow> int"
  assumes pub_ok: "ok g \<Longrightarrow> ok (pub g s)"
    and pub_size: "size_of (pub g s) = size_of g"
    and pub_avail: "ok g \<Longrightarrow> \<bar>s - t\<bar> < size_of g \<Longrightarrow> avail (pub g s) t \<longleftrightarrow> s = t \<or> avail g t"
    and pub_range_fold: "pub_range g a b = foldl pub g [a..b]"
begin

lemma pub_list:
  assumes "ok g" "\<And>s. s \<in> set ss \<Longrightarrow> \<bar>s - t\<bar> < size_of g"
  shows "ok (foldl pub g ss) \<and> size_of (foldl pub g ss) = size_of g \<and>
    (avail (foldl pub g ss) t \<longleftrightarrow> t \<in> set ss \<or> avail g t)"
  using assms by (induction ss arbitrary: g) (auto simp: pub_ok pub_size pub_avail)

lemma pub_range_avail:
  assumes "ok g" "\<And>s. a \<le> s \<Longrightarrow> s \<le> b \<Longrightarrow> \<bar>s - t\<bar> < size_of g"
  shows "avail (pub_range g a b) t \<longleftrightarrow> a \<le> t \<and> t \<le> b \<or> avail g t"
  using pub_list [OF assms(1), of "[a..b]" t] assms(2) by (auto simp: pub_range_fold)

lemma pub_range_ok: "ok g \<Longrightarrow> ok (pub_range g a b)"
proof -
  assume "ok g"
  then have "ok (foldl pub g ss)" for ss
    by (induction ss arbitrary: g) (simp_all add: pub_ok)
  then show ?thesis by (simp add: pub_range_fold)
qed

lemma pub_range_scan:
  assumes "ok g" "- (2 ^ 62) < a" "a < 2 ^ 62" "a \<le> b" "b - a < size_of g"
  shows "ss_seq (scan (pub_range g a b) a b) = b"
proof -
  have "avail (pub_range g a b) t" if "a \<le> t" "t \<le> b" for t
    using pub_range_avail [OF assms(1), of a b t] assms(5) that by auto
  then have "last_run (avail (pub_range g a b)) a b = b"
    using assms(4) by (intro last_run_eqI) auto
  then show ?thesis using assms by (simp add: published_run pub_range_ok)
qed

end

lemma frame_publish_range [frame_simps, simp]:
  "st_meta (publish_range st a b) = st_meta st"
  "available_flag (publish_range st a b) t = available_flag st t"
  "slot_index (publish_range st a b) t = slot_index st t"
proof -
  have "st_meta (foldl publish st ss) = st_meta st \<and>
    available_flag (foldl publish st ss) t = available_flag st t \<and>
    slot_index (foldl publish st ss) t = slot_index st t" for ss
    by (induction ss arbitrary: st) simp_all
  then show "st_meta (publish_range st a b) = st_meta st"
    "available_flag (publish_range st a b) t = available_flag st t"
    "slot_index (publish_range st a b) t = slot_index st t"
    by (simp_all add: publish_range_def)
qed

lemma closing_first_scan:
  assumes "- (2 ^ 62) < a" "a < 2 ^ 62" "a \<le> b" "\<not> published st a"
  shows "ss_shutdown (scan_available_until st a b) \<longleftrightarrow> marked st a"
proof -
  have "last_run (published st) a b = a - 1" using assms by (simp add: last_run_step)
  then have "{a..min b (last_run (published st) a b + 1)} = {a}" using assms by auto
  then show ?thesis using assms by (simp add: scan_available_until_eq)
qed

interpretation u32: slot_state_group scan_available_until slots_ok published marked
  publish publish_range ring_size
  by unfold_locales
    (simp_all add: scan_available_until_eq(1) closing_first_scan published_publish publish_range_def)

lemma slots_ok_publish_range [simp]: "slots_ok st \<Longrightarrow> slots_ok (publish_range st a b)"
  by (rule u32.pub_range_ok)

end
