(* ===== verification/Gates.thy ===== *)
theory Gates
  imports SlotStates
begin

text \<open>
  \<open>src/src/sequencers/mod.rs\<close>, \<open>con_ex.rs\<close>, \<open>con_fanout.rs\<close>: the consumer side as the
  publishers see it. A gate holds the consumers' cursors and wakers; \<open>max_consumed\<close> is the
  position of the slowest live consumer. A trait object is passed as a record of its methods
  (\<open>'g consumer_barrier\<close>), as a generic parameter is resolved to its methods.

  The waker is \<open>atomic_waker::AtomicWaker\<close>, a third-party type: its state is the type parameter
  \<open>'w\<close> and its \<open>wake\<close> a parameter of the definitions that call it. With the feature
  \<open>async-receiver\<close> off there is no waker: \<open>'w\<close> is \<open>unit\<close>, and \<open>wake\<close> the identity.
\<close>

section \<open>The trait\<close>

record 'g consumer_barrier =
  max_consumed :: "'g \<Rightarrow> slot_state"
  notify :: "'g \<Rightarrow> 'g"

section \<open>ExclusiveConSeqGate\<close>

record 'w exclusive_gate =
  ex_consumed :: cursor
  ex_waker :: 'w

definition ex_new :: "'w \<Rightarrow> 'w exclusive_gate" where
  "ex_new w = \<lparr>ex_consumed = cursor_new INIT, ex_waker = w\<rparr>"

definition ex_max_consumed :: "'w exclusive_gate \<Rightarrow> slot_state" where
  "ex_max_consumed g =
     (let s = cursor_load (ex_consumed g)
      in \<lparr>ss_seq = s, ss_shutdown = is_shutdown_open s\<rparr>)"

definition ex_notify :: "('w \<Rightarrow> 'w) \<Rightarrow> 'w exclusive_gate \<Rightarrow> 'w exclusive_gate" where
  "ex_notify wake g = g\<lparr>ex_waker := wake (ex_waker g)\<rparr>"

definition ex_barrier :: "('w \<Rightarrow> 'w) \<Rightarrow> 'w exclusive_gate consumer_barrier" where
  "ex_barrier wake = \<lparr>max_consumed = ex_max_consumed, notify = ex_notify wake\<rparr>"

section \<open>FanoutConSeqGate\<close>

record 'w fanout_gate =
  fan_consumed :: "cursor list"
  fan_wakers :: "'w list"

definition fan_new :: "nat \<Rightarrow> 'w \<Rightarrow> 'w fanout_gate" where
  "fan_new n w = \<lparr>fan_consumed = replicate n (cursor_new INIT), fan_wakers = replicate n w\<rparr>"

text \<open>The loop over the cursors, with the minimum so far.\<close>

fun fan_min_loop :: "sequence \<Rightarrow> cursor list \<Rightarrow> sequence" where
  "fan_min_loop min_consumed [] = min_consumed"
| "fan_min_loop min_consumed (c # cs) = fan_min_loop (min min_consumed (cursor_load c)) cs"

definition fan_max_consumed :: "'w fanout_gate \<Rightarrow> slot_state" where
  "fan_max_consumed g =
     (let min_consumed = fan_min_loop SHUTDOWN_OPEN (fan_consumed g)
      in \<lparr>ss_seq = min_consumed, ss_shutdown = is_shutdown_open min_consumed\<rparr>)"

definition fan_notify :: "('w \<Rightarrow> 'w) \<Rightarrow> 'w fanout_gate \<Rightarrow> 'w fanout_gate" where
  "fan_notify wake g = g\<lparr>fan_wakers := map wake (fan_wakers g)\<rparr>"

definition fan_barrier :: "('w \<Rightarrow> 'w) \<Rightarrow> 'w fanout_gate consumer_barrier" where
  "fan_barrier wake = \<lparr>max_consumed = fan_max_consumed, notify = fan_notify wake\<rparr>"

section \<open>Contract\<close>

text \<open>
  What a publisher may rely on: \<open>max_consumed\<close> answers with a position no live consumer is
  behind, which is some consumer's position unless all have left, and reports shutdown exactly
  when all have left. \<open>cursors\<close> lists the positions of the consumers of a gate.
\<close>

definition cursors_ok :: "cursor list \<Rightarrow> bool" where
  "cursors_ok cs \<longleftrightarrow> (\<forall>c \<in> set cs. - 1 \<le> c \<and> c \<le> SHUTDOWN_OPEN)"

locale consumer_gate_contract =
  fixes B :: "'g consumer_barrier"
    and cursors :: "'g \<Rightarrow> cursor list"
  assumes slowest: "cursors_ok (cursors g) \<Longrightarrow> c \<in> set (cursors g) \<Longrightarrow> ss_seq (max_consumed B g) \<le> c"
    and attained: "cursors_ok (cursors g) \<Longrightarrow> \<not> ss_shutdown (max_consumed B g) \<Longrightarrow>
      ss_seq (max_consumed B g) \<in> set (cursors g)"
    and all_left: "cursors_ok (cursors g) \<Longrightarrow>
      ss_shutdown (max_consumed B g) \<longleftrightarrow> (\<forall>c \<in> set (cursors g). c = SHUTDOWN_OPEN)"
    and notify_cursors: "cursors (notify B g) = cursors g"
begin

lemma live_consumer:
  assumes "cursors_ok (cursors g)" "\<not> ss_shutdown (max_consumed B g)"
  shows "- 1 \<le> ss_seq (max_consumed B g)" "ss_seq (max_consumed B g) < SHUTDOWN_OPEN"
proof -
  show "- 1 \<le> ss_seq (max_consumed B g)"
    using attained [OF assms] assms(1) by (auto simp: cursors_ok_def)
  obtain c where c: "c \<in> set (cursors g)" "c \<noteq> SHUTDOWN_OPEN"
    using assms all_left by blast
  then have "c < SHUTDOWN_OPEN" using assms(1) by (force simp: cursors_ok_def)
  moreover have "ss_seq (max_consumed B g) \<le> c" using assms(1) c(1) by (rule slowest)
  ultimately show "ss_seq (max_consumed B g) < SHUTDOWN_OPEN" by linarith
qed

end

lemma fan_min_loop_eq: "fan_min_loop m cs = Min (insert m (set cs))"
proof (induction cs arbitrary: m)
  case (Cons c cs)
  have "fan_min_loop m (c # cs) = Min (insert (min m c) (set cs))"
    by (simp add: Cons cursor_load_def)
  also have "\<dots> = Min (insert m (set (c # cs)))"
    by (cases "cs = []") (simp_all add: Min_insert min.assoc)
  finally show ?case .
qed simp

interpretation ex_gate: consumer_gate_contract "ex_barrier wake" "\<lambda>g. [ex_consumed g]" for wake
  by unfold_locales
    (simp_all add: ex_barrier_def ex_max_consumed_def ex_notify_def cursor_load_def is_shutdown_open_def Let_def)

interpretation fan_gate: consumer_gate_contract "fan_barrier wake" fan_consumed for wake
proof
  fix g :: "'a fanout_gate" and c
  let ?m = "fan_min_loop SHUTDOWN_OPEN (fan_consumed g)"
  have seq: "ss_seq (max_consumed (fan_barrier wake) g) = ?m"
    and sd: "ss_shutdown (max_consumed (fan_barrier wake) g) \<longleftrightarrow> ?m = SHUTDOWN_OPEN"
    by (simp_all add: fan_barrier_def fan_max_consumed_def Let_def is_shutdown_open_def)
  show "ss_seq (max_consumed (fan_barrier wake) g) \<le> c" if "c \<in> set (fan_consumed g)"
    using that by (simp add: seq fan_min_loop_eq)
  have "?m \<in> insert SHUTDOWN_OPEN (set (fan_consumed g))"
    unfolding fan_min_loop_eq by (rule Min_in) simp_all
  then show "\<not> ss_shutdown (max_consumed (fan_barrier wake) g) \<Longrightarrow>
      ss_seq (max_consumed (fan_barrier wake) g) \<in> set (fan_consumed g)"
    by (simp add: seq sd)
  show "ss_shutdown (max_consumed (fan_barrier wake) g) \<longleftrightarrow>
      (\<forall>c \<in> set (fan_consumed g). c = SHUTDOWN_OPEN)" if "cursors_ok (fan_consumed g)"
  proof -
    have "?m = SHUTDOWN_OPEN \<longleftrightarrow> (\<forall>c \<in> set (fan_consumed g). SHUTDOWN_OPEN \<le> c)"
      by (simp add: fan_min_loop_eq Min_eq_iff)
    then show ?thesis using that by (fastforce simp: sd cursors_ok_def intro: antisym)
  qed
  show "fan_consumed (notify (fan_barrier wake) g) = fan_consumed g"
    by (simp add: fan_barrier_def fan_notify_def)
qed

end
