(* ===== verification/Publisher.thy ===== *)
theory Publisher
  imports Gates
begin

text \<open>
  \<open>src/src/sequencers/pub_mul.rs\<close>: the multi-producer sequencer. All senders share one
  \<open>SharedState\<close>: the cursor \<open>claimed\<close> (the highest claimed sequence number, with the sign bit as
  the shutdown flag), the slot states and the gate of the consumers. A claim is a compare-and-swap
  loop; \<open>close\<close> puts the shutdown marker behind the last published sequence number and then sets
  the flag of \<open>claimed\<close>. Here every method runs without interference; the theory \<open>Protocol\<close> breaks
  the same code into its atomic accesses and interleaves them.
\<close>

definition SHUTDOWN_MASK :: i64 where
  "SHUTDOWN_MASK = - (2 ^ 63)"

definition VALUE_MASK :: i64 where
  "VALUE_MASK = 2 ^ 63 - 1"

definition has_shutdown :: "i64 \<Rightarrow> bool" where
  "has_shutdown raw \<longleftrightarrow> raw < 0 \<and> raw \<noteq> - 1"

record 'g shared_state =
  claimed :: cursor
  slot_states :: u32_slot_states
  consumer_gate :: 'g
  ss_buffer_size :: i64

record 'g multi_publisher =
  shared :: "'g shared_state"
  mp_meta :: ring_meta

definition shared_new :: "ring_meta \<Rightarrow> 'g \<Rightarrow> 'g shared_state" where
  "shared_new m gate =
     \<lparr>claimed = cursor_default, slot_states = new_all_empty m, consumer_gate = gate,
      ss_buffer_size = buffer_size m\<rparr>"

definition mp_new :: "'g \<Rightarrow> ring_meta \<Rightarrow> 'g multi_publisher" where
  "mp_new gate m = \<lparr>shared = shared_new m gate, mp_meta = m\<rparr>"

section \<open>Claiming\<close>

text \<open>
  One pass of the claim loop up to the compare-and-swap: the checks, and the range to claim.
  \<open>n\<close> is the limit cut at the ring size.
\<close>

definition claim_target ::
  "ring_meta \<Rightarrow> i64 \<Rightarrow> sequence \<Rightarrow> slot_state \<Rightarrow> try_claim_error + sequence \<times> sequence" where
  "claim_target m n last_claimed consumed =
     (let start_seq = seq_add last_claimed 1
      in if ss_shutdown consumed then Inl ClaimShutdown
         else
           let max_consumed = ss_seq consumed;
               available_capacity = available_slots m last_claimed max_consumed;
               max_available = seq_add last_claimed available_capacity
           in if start_seq > max_available then Inl ClaimEmpty
              else
                let available = min (wrap64 (max_available - last_claimed)) n;
                    highest_to_publish = seq_add last_claimed available
                in Inr (start_seq, highest_to_publish))"

function claim_loop ::
  "'g consumer_barrier \<Rightarrow> i64 \<Rightarrow> sequence \<Rightarrow> 'g multi_publisher \<Rightarrow>
     (try_claim_error + sequence \<times> sequence) \<times> 'g multi_publisher" where
  "claim_loop B n last_claimed p =
     (if has_shutdown last_claimed then (Inl ClaimShutdown, p)
      else
        case claim_target (mp_meta p) n last_claimed (max_consumed B (consumer_gate (shared p))) of
          Inl e \<Rightarrow> (Inl e, p)
        | Inr (start_seq, highest_to_publish) \<Rightarrow>
            (case compare_exchange (claimed (shared p)) last_claimed highest_to_publish of
               (Inr _, c) \<Rightarrow>
                 (Inr (start_seq, highest_to_publish), p\<lparr>shared := (shared p)\<lparr>claimed := c\<rparr>\<rparr>)
             | (Inl new_value, _) \<Rightarrow> claim_loop B n new_value p))"
  by pat_completeness auto

text \<open>Without interference a failed compare-and-swap reports the current value, and the next one
  succeeds.\<close>

termination
  by (relation "measure (\<lambda>(B, n, last_claimed, p). if last_claimed = claimed (shared p) then 0 else 1)")
    (auto simp: compare_exchange_def split: if_splits)

declare claim_loop.simps [simp del]

definition mp_try_claim_at_most ::
  "'g consumer_barrier \<Rightarrow> i64 \<Rightarrow> 'g multi_publisher \<Rightarrow>
     (try_claim_error + sequence \<times> sequence) \<times> 'g multi_publisher" where
  "mp_try_claim_at_most B limit p =
     (let n = min limit (buffer_size (mp_meta p));
          raw = cursor_load (claimed (shared p))
      in claim_loop B n raw p)"

definition mp_try_claim ::
  "'g consumer_barrier \<Rightarrow> 'g multi_publisher \<Rightarrow>
     (try_claim_error + sequence) \<times> 'g multi_publisher" where
  "mp_try_claim B p =
     (case mp_try_claim_at_most B 1 p of (r, p') \<Rightarrow> (map_sum id snd r, p'))"

section \<open>Committing\<close>

definition notify_gate :: "'g consumer_barrier \<Rightarrow> 'g shared_state \<Rightarrow> 'g shared_state" where
  "notify_gate B sh = sh\<lparr>consumer_gate := notify B (consumer_gate sh)\<rparr>"

definition mp_commit :: "'g consumer_barrier \<Rightarrow> sequence \<Rightarrow> 'g multi_publisher \<Rightarrow> 'g multi_publisher" where
  "mp_commit B s p =
     p\<lparr>shared := notify_gate B ((shared p)\<lparr>slot_states := publish (slot_states (shared p)) s\<rparr>)\<rparr>"

definition mp_commit_range ::
  "'g consumer_barrier \<Rightarrow> sequence \<Rightarrow> sequence \<Rightarrow> 'g multi_publisher \<Rightarrow> 'g multi_publisher" where
  "mp_commit_range B start_seq end_seq p =
     p\<lparr>shared := notify_gate B
       ((shared p)\<lparr>slot_states := publish_range (slot_states (shared p)) start_seq end_seq\<rparr>)\<rparr>"

section \<open>Shutting down\<close>

text \<open>\<open>close\<close> as a function of the values it loads: where the marker goes.\<close>

definition close_boundary :: "'g shared_state \<Rightarrow> sequence" where
  "close_boundary sh =
     (let raw = cursor_load (claimed sh);
          last_claimed = (if has_shutdown raw then raw AND VALUE_MASK else raw);
          last_published =
            (if last_claimed < 0 then last_claimed
             else
               let window_start = max (wrap64 (last_claimed - wrap64 (ss_buffer_size sh - 1))) 0
               in scan_last_available (slot_states sh) window_start last_claimed)
      in seq_add last_published 1)"

definition close :: "'g consumer_barrier \<Rightarrow> 'g shared_state \<Rightarrow> 'g shared_state" where
  "close B sh =
     (let raw = cursor_load (claimed sh);
          sh1 = sh\<lparr>slot_states := mark_shutdown (slot_states sh) (close_boundary sh)\<rparr>;
          sh2 = sh1\<lparr>claimed := cursor_store (claimed sh1) (raw OR SHUTDOWN_MASK)\<rparr>
      in notify_gate B sh2)"

definition shared_drop :: "'g consumer_barrier \<Rightarrow> 'g shared_state \<Rightarrow> 'g shared_state" where
  "shared_drop B sh = close B sh"

definition mp_terminate :: "'g consumer_barrier \<Rightarrow> 'g multi_publisher \<Rightarrow> 'g multi_publisher" where
  "mp_terminate B p = p\<lparr>shared := close B (shared p)\<rparr>"

section \<open>MultiPubSeqGate\<close>

record multi_pub_gate =
  gate_states :: u32_slot_states

definition publisher_gate :: "'g multi_publisher \<Rightarrow> multi_pub_gate" where
  "publisher_gate p = \<lparr>gate_states = slot_states (shared p)\<rparr>"

definition max_published :: "multi_pub_gate \<Rightarrow> sequence \<Rightarrow> sequence \<Rightarrow> slot_state" where
  "max_published g next_seq end_seq = scan_available_until (gate_states g) next_seq end_seq"

interpretation pub_gate: producer_barrier max_published
  "\<lambda>g. slots_ok (gate_states g)" "\<lambda>g. published (gate_states g)" "\<lambda>g. marked (gate_states g)"
  by unfold_locales (simp_all add: max_published_def u32.published_run u32.closing_first)

end
