(* ===== verification/Invariants.thy ===== *)
theory Invariants
  imports Publisher
begin

text \<open>
  The invariant of the shared memory of a channel, in named clauses, and its preservation by every
  atomic access of the code. Three auxiliary values describe a memory:
  \<^item> \<open>t\<close>, the highest sequence number ever claimed;
  \<^item> \<open>P\<close>, the sequence numbers claimed and not published yet (those of the outstanding permits);
  \<^item> \<open>h\<close>, the value published under each sequence number.
  Memory is looked at through the window of the last ring length of sequence numbers,
  \<open>(t - size, t]\<close>: each slot belongs to exactly one of them, and holds either its flag and value,
  or, while it is pending, the flag of the lap before.
\<close>

section \<open>Flags\<close>

definition flags_inv :: "u32_slot_states \<Rightarrow> int \<Rightarrow> int set \<Rightarrow> bool" where
  "flags_inv st t P \<longleftrightarrow> slots_ok st \<and> - 1 \<le> t \<and> t < 2 ^ 61 \<and> P \<subseteq> {0..} \<and>
     P \<subseteq> {t - ring_size st<..t} \<and>
     (\<forall>q \<in> {t - ring_size st<..t}. published st (if q \<in> P then q - ring_size st else q))"

lemma flags_invD:
  assumes "flags_inv st t P"
  shows "slots_ok st" "- 1 \<le> t" "t < 2 ^ 61" "\<And>q. q \<in> P \<Longrightarrow> 0 \<le> q \<and> t - ring_size st < q \<and> q \<le> t"
    "meta_ok (st_meta st)" "0 < ring_size st" "ring_size st \<le> 2 ^ 30"
  using assms buffer_size_pos [of "st_meta st"] buffer_size_le [of "st_meta st"]
  by (auto simp: flags_inv_def slots_ok_def subset_iff)

lemma flags_invI:
  assumes "slots_ok st" "- 1 \<le> t" "t < 2 ^ 61" "\<And>q. q \<in> P \<Longrightarrow> 0 \<le> q \<and> t - ring_size st < q \<and> q \<le> t"
    "\<And>q. t - ring_size st < q \<Longrightarrow> q \<le> t \<Longrightarrow> published st (if q \<in> P then q - ring_size st else q)"
  shows "flags_inv st t P"
  using assms by (auto simp: flags_inv_def)

lemma slot_index_lap [simp]:
  "slots_ok st \<Longrightarrow> slot_index st (q - ring_size st) = slot_index st q"
  "slots_ok st \<Longrightarrow> slot_index st (q + ring_size st) = slot_index st q"
  by (simp_all add: slots_ok_def slot_index_def)

lemma lap_neighbour [simp]:
  "slots_ok st \<Longrightarrow> lap st (q - ring_size st) = lap st q - 1"
  "slots_ok st \<Longrightarrow> lap st (q + ring_size st) = lap st q + 1"
proof -
  assume "slots_ok st"
  then have "0 < ring_size st" by (simp add: slots_ok_def buffer_size_pos)
  then show "lap st (q - ring_size st) = lap st q - 1" "lap st (q + ring_size st) = lap st q + 1"
    using div_mult_self1 [of "ring_size st" q "- 1"] div_mult_self1 [of "ring_size st" q 1]
    by (simp_all add: lap_def)
qed

lemma published_not_next_lap:
  assumes "slots_ok st" "published st q"
  shows "\<not> published st (q + ring_size st)" "\<not> published st (q - ring_size st)"
  using assms published_unique [of st q "q + ring_size st"] published_unique [of st q "q - ring_size st"]
    buffer_size_pos [of "st_meta st"]
  by (auto simp: slots_ok_def)

text \<open>Inside the window, published means not pending; ahead of it, nothing is published that a
  consumer could mistake for a new item.\<close>

lemma published_window:
  assumes "flags_inv st t P" "t - ring_size st < q" "q \<le> t"
  shows "published st q \<longleftrightarrow> q \<notin> P"
proof -
  have "published st (if q \<in> P then q - ring_size st else q)"
    using assms by (simp add: flags_inv_def)
  then show ?thesis
    using published_not_next_lap(1) [OF flags_invD(1) [OF assms(1)], of "q - ring_size st"]
    by (auto split: if_splits)
qed

lemma published_ahead:
  assumes inv: "flags_inv st t P" and c: "t - ring_size st \<le> c" "c \<le> t" "\<forall>p \<in> P. c < p"
    and q: "c < q" "q \<le> c + ring_size st"
  shows "published st q \<longleftrightarrow> q \<le> t \<and> q \<notin> P"
proof (cases "q \<le> t")
  case True
  then show ?thesis using published_window [OF inv, of q] c q by simp
next
  case False
  then have "t - ring_size st < q - ring_size st" "q - ring_size st \<le> t" "q - ring_size st \<notin> P"
    using c q by auto
  then have "published st (q - ring_size st)" using published_window [OF inv] by simp
  then have "\<not> published st q"
    using published_not_next_lap(1) [OF flags_invD(1) [OF inv], of "q - ring_size st"] by simp
  with False show ?thesis by simp
qed

text \<open>The initial states, as \<open>new_all_empty\<close> leaves them: nothing claimed.\<close>

lemma flags_inv_new: "meta_ok m \<Longrightarrow> flags_inv (new_all_empty m) (- 1) {}"
proof -
  assume m: "meta_ok m"
  have size: "ring_size (new_all_empty m) = buffer_size m" by (simp add: new_all_empty_def Let_def)
  have "published (new_all_empty m) q" if "- 1 - buffer_size m < q" "q \<le> - 1" for q
  proof -
    have "lap (new_all_empty m) q = - 1"
      using that unfolding lap_def size by (intro int_div_pos_eq [where r = "q + buffer_size m"]) simp_all
    then show ?thesis using m by (simp add: marked_published_new)
  qed
  then show ?thesis using slots_ok_new [OF m] by (auto simp: flags_inv_def size)
qed

text \<open>A claim of the \<open>b - t\<close> sequence numbers after \<open>t\<close>, when nothing a ring length behind is
  pending.\<close>

lemma flags_inv_claim:
  assumes inv: "flags_inv st t P" and b: "t < b" "b \<le> t + ring_size st" "b < 2 ^ 61"
    and free: "\<forall>p \<in> P. b - ring_size st < p"
  shows "flags_inv st b (P \<union> {t + 1..b})"
proof -
  note D = flags_invD [OF inv]
  let ?c = "ring_size st"
  have "published st (if q \<in> P \<union> {t + 1..b} then q - ?c else q)" if q: "b - ?c < q" "q \<le> b" for q
  proof (cases "q \<le> t")
    case True
    moreover have "t - ?c < q" using q b by linarith
    ultimately show ?thesis using inv q by (auto simp: flags_inv_def)
  next
    case False
    then have "t - ?c < q - ?c" "q - ?c \<le> t" "q - ?c \<notin> P"
      using b q free by force+
    then have "published st (q - ?c)" using published_window [OF inv] by simp
    with False q show ?thesis by simp
  qed
  then show ?thesis
    using D b free unfolding flags_inv_def by force
qed

lemma flags_inv_publish:
  assumes inv: "flags_inv st t P" and s: "s \<in> P"
  shows "flags_inv (publish st s) t (P - {s})"
proof -
  note D = flags_invD [OF inv]
  let ?c = "ring_size st"
  have main: "published (publish st s) (if q \<in> P - {s} then q - ?c else q)"
    if q: "t - ?c < q" "q \<le> t" for q
  proof (cases "q = s")
    case True
    then show ?thesis using D(1,6) by (simp add: published_publish)
  next
    case False
    have "slot_index st s \<noteq> slot_index st q"
      using False q D(4) [OF s] D(5) by (auto simp: slot_index_def index_of_seq_eq_iff)
    then show ?thesis
      using published_window [OF inv q] inv q False D(1)
      by (auto simp: flags_inv_def published_publish_other)
  qed
  show ?thesis
  proof (rule flags_invI)
    show "slots_ok (publish st s)" "- 1 \<le> t" "t < 2 ^ 61" using D by simp_all
    show "0 \<le> q \<and> t - ring_size (publish st s) < q \<and> q \<le> t" if "q \<in> P - {s}" for q
      using D(4) [of q] that by simp
    show "published (publish st s) (if q \<in> P - {s} then q - ring_size (publish st s) else q)"
      if "t - ring_size (publish st s) < q" "q \<le> t" for q
      using main [of q] that by (simp only: frame_publish)
  qed
qed

lemma flags_inv_publish_range:
  assumes "flags_inv st t P" "{a..b} \<subseteq> P"
  shows "flags_inv (publish_range st a b) t (P - {a..b})"
proof -
  have "flags_inv st t P \<Longrightarrow> distinct ss \<Longrightarrow> set ss \<subseteq> P \<Longrightarrow> flags_inv (foldl publish st ss) t (P - set ss)" for ss
  proof (induction ss arbitrary: st P)
    case (Cons s ss)
    have "flags_inv (publish st s) t (P - {s})"
      using Cons.prems by (intro flags_inv_publish) simp_all
    moreover have "set ss \<subseteq> P - {s}" "distinct ss" using Cons.prems by auto
    ultimately have "flags_inv (foldl publish (publish st s) ss) t (P - {s} - set ss)"
      by (intro Cons.IH)
    moreover have "P - {s} - set ss = P - set (s # ss)" by auto
    ultimately show ?case by simp
  qed simp
  from this [of "[a..b]"] assms show ?thesis by (simp add: publish_range_def)
qed

lemma flags_inv_mark_shutdown: "flags_inv st t P \<Longrightarrow> flags_inv (mark_shutdown st s) t P"
  by (auto simp: flags_inv_def)

section \<open>The frontier\<close>

text \<open>Everything up to the frontier is published, and nothing behind it can be received yet.\<close>

definition frontier :: "int \<Rightarrow> int set \<Rightarrow> int" where
  "frontier t P = (if P = {} then t else Min P - 1)"

lemma pending_finite: "flags_inv st t P \<Longrightarrow> finite P"
  by (auto simp: flags_inv_def intro: finite_subset)

lemma frontier_props:
  assumes "flags_inv st t P"
  shows "frontier t P \<le> t" "\<And>p. p \<in> P \<Longrightarrow> frontier t P < p" "- 1 \<le> frontier t P"
    "frontier t P = t \<or> frontier t P + 1 \<in> P" "t - ring_size st \<le> frontier t P"
proof -
  note D = flags_invD [OF assms] and fin = pending_finite [OF assms]
  show "frontier t P < p" if "p \<in> P" for p
    using Min_le [OF fin that] that by (auto simp: frontier_def)
  have "P = {} \<or> Min P \<in> P" using fin Min_in by blast
  then show "frontier t P \<le> t" "- 1 \<le> frontier t P" "frontier t P = t \<or> frontier t P + 1 \<in> P"
    "t - ring_size st \<le> frontier t P"
    using D(2,6) D(4) [of "Min P"] by (auto simp: frontier_def)
qed

lemma frontier_empty [simp]: "frontier t {} = t"
  by (simp add: frontier_def)

text \<open>What a live consumer finds: the published sequence numbers ahead of it are those up to the
  frontier, as far as they are contiguous.\<close>

lemma last_run_frontier:
  assumes inv: "flags_inv st t P" and c: "t - ring_size st \<le> c" "c \<le> frontier t P"
    and n: "1 \<le> n" "n \<le> ring_size st"
  shows "last_run (published st) (c + 1) (c + n) = min (frontier t P) (c + n)"
    and "published st (c + 1) \<longleftrightarrow> c < frontier t P"
proof -
  note F = frontier_props [OF inv]
  have ct: "c \<le> t" "\<forall>p \<in> P. c < p" using c F(1,2) by force+
  have pub: "published st q \<longleftrightarrow> q \<le> t \<and> q \<notin> P" if "c < q" "q \<le> c + n" for q
    using published_ahead [OF inv c(1) ct that(1)] that(2) n by simp
  have "c + 1 \<le> t \<and> c + 1 \<notin> P \<longleftrightarrow> c < frontier t P"
  proof
    assume l: "c + 1 \<le> t \<and> c + 1 \<notin> P"
    show "c < frontier t P"
    proof (rule ccontr)
      assume "\<not> c < frontier t P"
      then have "frontier t P = c" using c(2) by simp
      then show False using F(4) l by simp
    qed
  next
    assume "c < frontier t P"
    then show "c + 1 \<le> t \<and> c + 1 \<notin> P" using F(1) F(2) [of "c + 1"] by auto
  qed
  then show "published st (c + 1) \<longleftrightarrow> c < frontier t P"
    using pub [of "c + 1"] n(1) by simp
  show "last_run (published st) (c + 1) (c + n) = min (frontier t P) (c + n)"
  proof (rule last_run_eqI)
    show "published st q" if "c + 1 \<le> q" "q \<le> min (frontier t P) (c + n)" for q
      using pub [of q] that F(1) F(2) [of q] by auto
    show "\<not> published st (min (frontier t P) (c + n) + 1)" if less: "min (frontier t P) (c + n) < c + n"
    proof -
      have fn: "frontier t P < c + n" using less by linarith
      then have "\<not> published st (frontier t P + 1)" using pub [of "frontier t P + 1"] c F(4) by auto
      with fn show ?thesis by (simp add: min_def)
    qed
  qed (use c n in simp_all)
qed

section \<open>Cursors, values and the claimed cursor\<close>

text \<open>A live consumer is at most one ring length behind, and nothing up to its position is
  pending.\<close>

definition live_cursor :: "int \<Rightarrow> int \<Rightarrow> int set \<Rightarrow> cursor \<Rightarrow> bool" where
  "live_cursor sz t P c \<longleftrightarrow> - 1 \<le> c \<and> t - sz \<le> c \<and> c \<le> t \<and> (\<forall>p \<in> P. c < p)"

lemma live_cursor_frontier:
  "flags_inv st t P \<Longrightarrow> live_cursor sz t P c \<Longrightarrow> c \<le> frontier t P"
  using pending_finite [of st t P] by (auto simp: live_cursor_def frontier_def)

lemma live_cursorI:
  "flags_inv st t P \<Longrightarrow> - 1 \<le> c \<Longrightarrow> t - sz \<le> c \<Longrightarrow> c \<le> frontier t P \<Longrightarrow> live_cursor sz t P c"
  using frontier_props [of st t P] by (force simp: live_cursor_def)

definition cursors_inv :: "int \<Rightarrow> int \<Rightarrow> int set \<Rightarrow> cursor list \<Rightarrow> bool" where
  "cursors_inv sz t P cs \<longleftrightarrow> (\<forall>c \<in> set cs. c = SHUTDOWN_OPEN \<or> live_cursor sz t P c)"

definition claimed_inv :: "cursor \<Rightarrow> int \<Rightarrow> bool" where
  "claimed_inv raw t \<longleftrightarrow> raw = t \<or> 0 \<le> t \<and> has_shutdown raw \<and> - (2 ^ 63) \<le> raw"

definition data_inv :: "'a ring_buffer \<Rightarrow> int \<Rightarrow> int set \<Rightarrow> (int \<Rightarrow> 'a) \<Rightarrow> bool" where
  "data_inv rb t P h \<longleftrightarrow> ring_ok rb \<and>
     (\<forall>q. t - buffer_size (rb_meta rb) < q \<longrightarrow> q \<le> t \<longrightarrow> 0 \<le> q \<longrightarrow> q \<notin> P \<longrightarrow> get_ref_at rb q = h q)"

lemma live_cursor_lt_open: "live_cursor sz t P c \<Longrightarrow> t < 2 ^ 61 \<Longrightarrow> c < SHUTDOWN_OPEN"
  by (simp add: live_cursor_def SHUTDOWN_OPEN_def)

lemma cursors_inv_ok: "cursors_inv sz t P cs \<Longrightarrow> t < 2 ^ 61 \<Longrightarrow> cursors_ok cs"
  using live_cursor_lt_open [of sz t P]
  by (force simp: cursors_inv_def cursors_ok_def live_cursor_def SHUTDOWN_OPEN_def)

lemma cursors_inv_claim:
  assumes "cursors_inv sz t P cs" "t \<le> b" "\<forall>c \<in> set cs. c = SHUTDOWN_OPEN \<or> b - sz \<le> c"
  shows "cursors_inv sz b (P \<union> {t + 1..b}) cs"
  using assms by (fastforce simp: cursors_inv_def live_cursor_def)

lemma cursors_inv_shrink: "cursors_inv sz t P cs \<Longrightarrow> Q \<subseteq> P \<Longrightarrow> cursors_inv sz t Q cs"
  by (auto simp: cursors_inv_def live_cursor_def)

lemma cursors_inv_update:
  "cursors_inv sz t P cs \<Longrightarrow> c = SHUTDOWN_OPEN \<or> live_cursor sz t P c \<Longrightarrow>
     cursors_inv sz t P (cs[i := c])"
  using set_update_subset_insert [of cs i c] by (auto simp: cursors_inv_def)

lemma data_inv_claim:
  "data_inv rb t P h \<Longrightarrow> t \<le> b \<Longrightarrow> data_inv rb b (P \<union> {t + 1..b}) h"
  by (simp add: data_inv_def)

lemma data_inv_write:
  assumes "data_inv rb t P h" "s \<in> P" "t - buffer_size (rb_meta rb) < s" "s \<le> t"
  shows "data_inv (modify_at rb s f) t P h"
proof -
  have "get_ref_at (modify_at rb s f) q = get_ref_at rb q"
    if "t - buffer_size (rb_meta rb) < q" "q \<le> t" "q \<notin> P" for q
    using assms that by (subst get_modify) (auto simp: data_inv_def)
  then show ?thesis using assms(1) by (simp add: data_inv_def)
qed

lemma data_inv_publish:
  assumes "data_inv rb t P h" "\<And>q. q \<in> S \<Longrightarrow> h' q = get_ref_at rb q" "\<And>q. q \<notin> S \<Longrightarrow> h' q = h q"
  shows "data_inv rb t (P - S) h'"
  using assms by (auto simp: data_inv_def) (metis assms(2,3))

lemma or_SHUTDOWN_MASK: "raw OR SHUTDOWN_MASK = raw mod 2 ^ 63 - 2 ^ 63"
proof -
  have "raw OR NOT (mask 63) = (raw AND mask 63) OR NOT (mask 63)"
    by (rule bit_eqI) (auto simp: bit_simps)
  also have "\<dots> = (raw AND mask 63) + NOT (mask 63)"
    by (rule disjunctive_add_eq_or [symmetric]) (rule bit_eqI, auto simp: bit_simps)
  finally show ?thesis
    by (simp only: SHUTDOWN_MASK_def minus_exp_eq_not_mask [symmetric] take_bit_eq_mask [symmetric]
        take_bit_eq_mod)
qed

lemma and_VALUE_MASK: "raw AND VALUE_MASK = raw mod 2 ^ 63"
  unfolding VALUE_MASK_def by (rule and_low_mask)

lemma shutdown_flag_set:
  "0 \<le> raw \<Longrightarrow> raw < 2 ^ 62 \<Longrightarrow> raw OR SHUTDOWN_MASK = raw - 2 ^ 63"
  "- (2 ^ 63) \<le> raw \<Longrightarrow> raw < 0 \<Longrightarrow> raw OR SHUTDOWN_MASK = raw"
  using mod_pos_pos_trivial [of "raw + 2 ^ 63" "2 ^ 63"] by (simp_all add: or_SHUTDOWN_MASK)

lemma claimed_inv_close:
  assumes "claimed_inv raw t" "0 \<le> t" "t < 2 ^ 61"
  shows "has_shutdown (raw OR SHUTDOWN_MASK)" "claimed_inv (raw OR SHUTDOWN_MASK) t"
proof -
  consider "0 \<le> raw" "raw < 2 ^ 61" | "- (2 ^ 63) \<le> raw" "raw < - 1"
    using assms by (auto simp: claimed_inv_def has_shutdown_def)
  then show "has_shutdown (raw OR SHUTDOWN_MASK)" "claimed_inv (raw OR SHUTDOWN_MASK) t"
    using assms(2) shutdown_flag_set [of raw]
    by (cases; simp add: claimed_inv_def has_shutdown_def)+
qed

end
