(* ===== verification/Consumer.thy ===== *)
theory Consumer
  imports Invariants
begin

text \<open>
  \<open>src/src/sequencers/consumer.rs\<close>: the consumer's sequencer. Claiming only looks: the consumer's
  cursor moves when a claim is committed, and to \<open>SHUTDOWN_OPEN\<close> when the consumer is dropped. The
  producer's gate and its \<open>max_published\<close> are parameters, as the source is generic in
  \<open>ProducerBarrier\<close>.
\<close>

record ('p, 'w) consumer_sequencer =
  consumed :: cursor
  producer_gate :: 'p
  cs_meta :: ring_meta
  cs_waker :: 'w

definition cs_new :: "'p \<Rightarrow> cursor \<Rightarrow> ring_meta \<Rightarrow> 'w \<Rightarrow> ('p, 'w) consumer_sequencer" where
  "cs_new gate c m w = \<lparr>consumed = c, producer_gate = gate, cs_meta = m, cs_waker = w\<rparr>"

definition cs_try_claim_at_most ::
  "('p \<Rightarrow> sequence \<Rightarrow> sequence \<Rightarrow> slot_state) \<Rightarrow> i64 \<Rightarrow> ('p, 'w) consumer_sequencer \<Rightarrow>
     try_claim_error + sequence \<times> sequence" where
  "cs_try_claim_at_most scan limit c =
     (let last_claimed = cursor_load (consumed c);
          n = min limit (buffer_size (cs_meta c));
          start_seq = seq_add last_claimed 1;
          highest_to_consume = seq_add last_claimed n;
          max_available_slot = scan (producer_gate c) start_seq highest_to_consume;
          max_available = ss_seq max_available_slot
      in if max_available \<le> last_claimed
         then if ss_shutdown max_available_slot then Inl ClaimShutdown else Inl ClaimEmpty
         else Inr (start_seq, max_available))"

definition cs_try_claim ::
  "('p \<Rightarrow> sequence \<Rightarrow> sequence \<Rightarrow> slot_state) \<Rightarrow> ('p, 'w) consumer_sequencer \<Rightarrow>
     try_claim_error + sequence" where
  "cs_try_claim scan c = map_sum id snd (cs_try_claim_at_most scan 1 c)"

definition cs_commit :: "sequence \<Rightarrow> ('p, 'w) consumer_sequencer \<Rightarrow> ('p, 'w) consumer_sequencer" where
  "cs_commit s c = c\<lparr>consumed := cursor_store (consumed c) s\<rparr>"

definition cs_commit_range ::
  "sequence \<Rightarrow> sequence \<Rightarrow> ('p, 'w) consumer_sequencer \<Rightarrow> ('p, 'w) consumer_sequencer" where
  "cs_commit_range start_seq end_seq c = c\<lparr>consumed := cursor_store (consumed c) end_seq\<rparr>"

definition cs_drop :: "('p, 'w) consumer_sequencer \<Rightarrow> ('p, 'w) consumer_sequencer" where
  "cs_drop c = c\<lparr>consumed := cursor_store (consumed c) SHUTDOWN_OPEN\<rparr>"

text \<open>
  One poll of the async claim. \<open>register\<close> is \<open>AtomicWaker::register\<close>; \<open>before\<close> and \<open>after\<close> are
  what the other threads do to the shared state between the first attempt and the registration,
  and between the registration and the second attempt.
\<close>

datatype 'a poll = Ready 'a | Pending

definition claim_at_most_async ::
  "('p \<Rightarrow> sequence \<Rightarrow> sequence \<Rightarrow> slot_state) \<Rightarrow> ('w \<Rightarrow> 't \<Rightarrow> 'w) \<Rightarrow>
     (('p, 'w) consumer_sequencer \<Rightarrow> ('p, 'w) consumer_sequencer) \<Rightarrow>
     (('p, 'w) consumer_sequencer \<Rightarrow> ('p, 'w) consumer_sequencer) \<Rightarrow>
     i64 \<Rightarrow> 't \<Rightarrow> ('p, 'w) consumer_sequencer \<Rightarrow>
     (try_claim_error + sequence \<times> sequence) poll \<times> ('p, 'w) consumer_sequencer" where
  "claim_at_most_async scan register before after limit ctx c =
     (case cs_try_claim_at_most scan limit c of
        Inr r \<Rightarrow> (Ready (Inr r), c)
      | Inl ClaimShutdown \<Rightarrow> (Ready (Inl ClaimShutdown), c)
      | Inl ClaimEmpty \<Rightarrow>
          let c1 = before c;
              c2 = after (c1\<lparr>cs_waker := register (cs_waker c1) ctx\<rparr>)
          in case cs_try_claim_at_most scan limit c2 of
               Inr r \<Rightarrow> (Ready (Inr r), c2)
             | Inl ClaimEmpty \<Rightarrow> (Pending, c2)
             | Inl ClaimShutdown \<Rightarrow> (Ready (Inl ClaimShutdown), c2))"

context producer_barrier
begin

text \<open>The client of the contract: a claim of a consumer in a sound position, in each of its
  three outcomes.\<close>

lemma claim_outcome:
  assumes "ok (producer_gate c)" "- 1 \<le> consumed c" "consumed c < 2 ^ 61"
    and "meta_ok (cs_meta c)" "1 \<le> limit"
  shows "cs_try_claim_at_most max_published limit c =
    (let a = consumed c + 1; b = consumed c + min limit (buffer_size (cs_meta c))
     in if avail (producer_gate c) a then Inr (a, last_run (avail (producer_gate c)) a b)
        else if closing (producer_gate c) a then Inl ClaimShutdown else Inl ClaimEmpty)"
proof -
  let ?g = "producer_gate c" and ?a = "consumed c + 1"
    and ?b = "consumed c + min limit (buffer_size (cs_meta c))"
  have size: "1 \<le> buffer_size (cs_meta c)" "buffer_size (cs_meta c) \<le> 2 ^ 30"
    using assms(4) by (simp_all add: meta_ok_def)
  have ab: "?a \<le> ?b" using size assms(5) by simp
  have add: "seq_add (consumed c) 1 = ?a"
      "seq_add (consumed c) (min limit (buffer_size (cs_meta c))) = ?b"
    using assms size by (simp_all add: min_def)
  have seq: "ss_seq (max_published ?g ?a ?b) = last_run (avail ?g) ?a ?b"
    using assms by (intro published_run) simp_all
  have sd: "\<not> avail ?g ?a \<Longrightarrow> ss_shutdown (max_published ?g ?a ?b) = closing ?g ?a"
    using assms ab by (intro closing_first) simp_all
  have "last_run (avail ?g) ?a ?b \<le> consumed c \<longleftrightarrow> \<not> avail ?g ?a"
    using nothing_published [of ?g ?a ?b] assms ab seq by simp
  then show ?thesis using sd
    by (simp add: cs_try_claim_at_most_def cursor_load_def add seq Let_def)
qed

lemma claim_range:
  assumes "ok (producer_gate c)" "- 1 \<le> consumed c" "consumed c < 2 ^ 61"
    and "meta_ok (cs_meta c)" "1 \<le> limit"
    and "cs_try_claim_at_most max_published limit c = Inr (a, b)"
  shows "a = consumed c + 1" "a \<le> b" "b \<le> consumed c + limit"
    "b \<le> consumed c + buffer_size (cs_meta c)"
    "\<And>s. a \<le> s \<Longrightarrow> s \<le> b \<Longrightarrow> avail (producer_gate c) s"
proof -
  let ?g = "producer_gate c" and ?m = "consumed c + min limit (buffer_size (cs_meta c))"
  have out: "avail ?g (consumed c + 1)" "a = consumed c + 1" "b = last_run (avail ?g) a ?m"
    using assms(6) unfolding claim_outcome [OF assms(1-5)] by (auto simp: Let_def split: if_splits)
  have am: "a \<le> ?m" using assms(4,5) out(2) by (simp add: meta_ok_def)
  show "a = consumed c + 1" by fact
  show "a \<le> b"
    using out am last_run_bounds(1) [of "a + 1" "avail ?g" ?m] by (simp add: last_run_step)
  have "b \<le> ?m" using out(3) last_run_bounds(2) [OF am] by simp
  then show "b \<le> consumed c + limit" "b \<le> consumed c + buffer_size (cs_meta c)" by linarith+
  show "\<And>s. a \<le> s \<Longrightarrow> s \<le> b \<Longrightarrow> avail (producer_gate c) s"
    using out(3) last_run_all [of a _ "avail ?g" ?m] by blast
qed

end

end
