(* ===== verification/Guards.thy ===== *)
theory Guards
  imports Consumer
begin

text \<open>
  \<open>src/src/slot_recycler.rs\<close> and \<open>src/src/guards.rs\<close>: the write side of the API between a claim
  and its commit. A permit owns claimed sequence numbers; dropping it recycles what was not
  written and publishes. The drop of every guard is written out at the end of the method that
  consumes it, as the compiler inserts it.

  A closure that runs user code returns the value it leaves in the slot and whether it panicked:
  the source catches a panicking recycler and terminates the channel; a panic of the user's
  update function unwinds through the drop of the permit.
\<close>

section \<open>Recyclers\<close>

type_synonym 'a recycler = "'a \<Rightarrow> 'a \<times> bool"

definition recycle_closure :: "('a \<Rightarrow> 'a \<times> bool) \<Rightarrow> 'a recycler" where
  "recycle_closure f stale = f stale"

text \<open>\<open>None\<close> is a panic of the producing function, of \<open>T::default\<close> or of \<open>clone\<close>: the slot keeps
  its stale value.\<close>

definition reset_with :: "(unit \<Rightarrow> 'a option) \<Rightarrow> 'a recycler" where
  "reset_with f stale = (case f () of Some v \<Rightarrow> (v, False) | None \<Rightarrow> (stale, True))"

definition reset_with_default :: "'a option \<Rightarrow> 'a recycler" where
  "reset_with_default dflt stale = (case dflt of Some v \<Rightarrow> (v, False) | None \<Rightarrow> (stale, True))"

definition reset_with_cloneable :: "('a \<Rightarrow> 'a option) \<Rightarrow> 'a \<Rightarrow> 'a recycler" where
  "reset_with_cloneable clone v stale =
     (case clone v of Some w \<Rightarrow> (w, False) | None \<Rightarrow> (stale, True))"

section \<open>What permits refer to\<close>

text \<open>\<open>SenderImpl\<close> of \<open>sender.rs\<close>: the publisher's sequencer and the ring. Permits borrow both.\<close>

record ('g, 'a) sender_impl =
  sd_publisher :: "'g multi_publisher"
  sd_ring :: "'a ring_buffer"

definition sd_write_slot :: "sequence \<Rightarrow> 'a \<Rightarrow> ('g, 'a) sender_impl \<Rightarrow> ('g, 'a) sender_impl" where
  "sd_write_slot s v sd = sd\<lparr>sd_ring := modify_at (sd_ring sd) s (\<lambda>_. v)\<rparr>"

definition sd_commit ::
  "'g consumer_barrier \<Rightarrow> sequence \<Rightarrow> ('g, 'a) sender_impl \<Rightarrow> ('g, 'a) sender_impl" where
  "sd_commit B s sd = sd\<lparr>sd_publisher := mp_commit B s (sd_publisher sd)\<rparr>"

definition sd_commit_range ::
  "'g consumer_barrier \<Rightarrow> sequence \<Rightarrow> sequence \<Rightarrow> ('g, 'a) sender_impl \<Rightarrow> ('g, 'a) sender_impl" where
  "sd_commit_range B a b sd = sd\<lparr>sd_publisher := mp_commit_range B a b (sd_publisher sd)\<rparr>"

definition sd_terminate ::
  "'g consumer_barrier \<Rightarrow> ('g, 'a) sender_impl \<Rightarrow> ('g, 'a) sender_impl" where
  "sd_terminate B sd = sd\<lparr>sd_publisher := mp_terminate B (sd_publisher sd)\<rparr>"

section \<open>WritePermitImpl\<close>

record 'a write_permit =
  wp_sequence :: sequence
  wp_recycler :: "'a recycler"
  wp_wrote :: bool

definition write_permit_drop ::
  "'g consumer_barrier \<Rightarrow> 'a write_permit \<Rightarrow> ('g, 'a) sender_impl \<Rightarrow> ('g, 'a) sender_impl" where
  "write_permit_drop B p sd =
     (if wp_wrote p then sd_commit B (wp_sequence p) sd
      else
        case wp_recycler p (get_ref_at (sd_ring sd) (wp_sequence p)) of
          (v, panicked) \<Rightarrow>
            let sd' = sd_write_slot (wp_sequence p) v sd
            in if panicked then sd_terminate B sd' else sd_commit B (wp_sequence p) sd')"

definition write_permit_write ::
  "'g consumer_barrier \<Rightarrow> 'a \<Rightarrow> 'a write_permit \<Rightarrow> ('g, 'a) sender_impl \<Rightarrow> ('g, 'a) sender_impl" where
  "write_permit_write B item p sd =
     write_permit_drop B (p\<lparr>wp_wrote := True\<rparr>) (sd_write_slot (wp_sequence p) item sd)"

text \<open>The second component: whether the update function panicked. It then leaves \<open>wrote\<close> unset.\<close>

definition write_permit_update_in_place ::
  "'g consumer_barrier \<Rightarrow> ('a \<Rightarrow> 'a \<times> bool) \<Rightarrow> 'a write_permit \<Rightarrow> ('g, 'a) sender_impl \<Rightarrow>
     ('g, 'a) sender_impl \<times> bool" where
  "write_permit_update_in_place B f p sd =
     (case f (get_ref_at (sd_ring sd) (wp_sequence p)) of
        (v, panicked) \<Rightarrow>
          let sd' = sd_write_slot (wp_sequence p) v sd
          in (write_permit_drop B (p\<lparr>wp_wrote := \<not> panicked\<rparr>) sd', panicked))"

section \<open>WritePermitsImpl\<close>

record 'a write_permits =
  start_seq :: i64
  end_seq :: i64
  next_seq :: i64
  wps_recycler :: "'a recycler"

record batch_write_permit =
  bwp_sequence :: sequence
  bwp_wrote :: bool

definition permits_next :: "'a write_permits \<Rightarrow> batch_write_permit option \<times> 'a write_permits" where
  "permits_next ps =
     (if next_seq ps > end_seq ps then (None, ps)
      else (Some \<lparr>bwp_sequence = next_seq ps, bwp_wrote = False\<rparr>,
            ps\<lparr>next_seq := wrap64 (next_seq ps + 1)\<rparr>))"

definition permits_total_reserved :: "'a write_permits \<Rightarrow> usize" where
  "permits_total_reserved ps = i64_as_usize (wrap64 (wrap64 (end_seq ps - start_seq ps) + 1))"

text \<open>What a permit of a batch asks of its batch; the flag: \<open>f\<close> or the recycler panicked.\<close>

definition permits_write :: "sequence \<Rightarrow> 'a \<Rightarrow> ('g, 'a) sender_impl \<Rightarrow> ('g, 'a) sender_impl" where
  "permits_write s value sd = sd\<lparr>sd_ring := modify_at (sd_ring sd) s (\<lambda>_. value)\<rparr>"

definition permits_update_in_place ::
  "sequence \<Rightarrow> ('a \<Rightarrow> 'a \<times> bool) \<Rightarrow> ('g, 'a) sender_impl \<Rightarrow> ('g, 'a) sender_impl \<times> bool" where
  "permits_update_in_place s f sd =
     (case f (get_ref_at (sd_ring sd) s) of
        (v, panicked) \<Rightarrow> (sd\<lparr>sd_ring := modify_at (sd_ring sd) s (\<lambda>_. v)\<rparr>, panicked))"

definition permits_recycle ::
  "'a write_permits \<Rightarrow> sequence \<Rightarrow> ('g, 'a) sender_impl \<Rightarrow> ('g, 'a) sender_impl \<times> bool" where
  "permits_recycle ps s sd =
     (case wps_recycler ps (get_ref_at (sd_ring sd) s) of
        (v, panicked) \<Rightarrow> (sd\<lparr>sd_ring := modify_at (sd_ring sd) s (\<lambda>_. v)\<rparr>, panicked))"

definition batch_permit_drop ::
  "'g consumer_barrier \<Rightarrow> 'a write_permits \<Rightarrow> batch_write_permit \<Rightarrow> ('g, 'a) sender_impl \<Rightarrow>
     ('g, 'a) sender_impl" where
  "batch_permit_drop B ps p sd =
     (if bwp_wrote p then sd
      else
        case permits_recycle ps (bwp_sequence p) sd of
          (sd', panicked) \<Rightarrow> if panicked then sd_terminate B sd' else sd')"

definition batch_permit_write ::
  "'g consumer_barrier \<Rightarrow> 'a write_permits \<Rightarrow> 'a \<Rightarrow> batch_write_permit \<Rightarrow> ('g, 'a) sender_impl \<Rightarrow>
     ('g, 'a) sender_impl" where
  "batch_permit_write B ps item p sd =
     batch_permit_drop B ps (p\<lparr>bwp_wrote := True\<rparr>) (permits_write (bwp_sequence p) item sd)"

definition batch_permit_update_in_place ::
  "'g consumer_barrier \<Rightarrow> 'a write_permits \<Rightarrow> ('a \<Rightarrow> 'a \<times> bool) \<Rightarrow> batch_write_permit \<Rightarrow>
     ('g, 'a) sender_impl \<Rightarrow> ('g, 'a) sender_impl \<times> bool" where
  "batch_permit_update_in_place B ps f p sd =
     (case permits_update_in_place (bwp_sequence p) f sd of
        (sd', panicked) \<Rightarrow> (batch_permit_drop B ps (p\<lparr>bwp_wrote := \<not> panicked\<rparr>) sd', panicked))"

text \<open>The recycling loop of the batch's drop, over the sequence numbers from \<open>next_seq\<close> to
  \<open>end_seq\<close>; the flag says that a recycler panicked, where the loop stops.\<close>

fun recycle_loop ::
  "'a recycler \<Rightarrow> sequence list \<Rightarrow> ('g, 'a) sender_impl \<Rightarrow> ('g, 'a) sender_impl \<times> bool" where
  "recycle_loop recycle [] sd = (sd, False)"
| "recycle_loop recycle (s # ss) sd =
     (case recycle (get_ref_at (sd_ring sd) s) of
        (v, panicked) \<Rightarrow>
          let sd' = sd_write_slot s v sd
          in if panicked then (sd', True) else recycle_loop recycle ss sd')"

definition permits_drop ::
  "'g consumer_barrier \<Rightarrow> 'a write_permits \<Rightarrow> ('g, 'a) sender_impl \<Rightarrow> ('g, 'a) sender_impl" where
  "permits_drop B ps sd =
     (if end_seq ps = - 1 then sd
      else
        case recycle_loop (wps_recycler ps) [next_seq ps..end_seq ps] sd of
          (sd', panicked) \<Rightarrow>
            if panicked then sd_terminate B sd'
            else sd_commit_range B (start_seq ps) (end_seq ps) sd')"

definition permits_commit ::
  "'g consumer_barrier \<Rightarrow> 'a write_permits \<Rightarrow> ('g, 'a) sender_impl \<Rightarrow> ('g, 'a) sender_impl" where
  "permits_commit B ps sd = permits_drop B ps sd"

end
