(* ===== verification/Endpoints.thy ===== *)
theory Endpoints
  imports Guards
begin

text \<open>
  \<open>src/src/sender.rs\<close> and \<open>src/src/receiver.rs\<close>: what the two ends of a channel offer. The
  receiver works on its sequencer (a view of the shared memory: its cursor, the slot states and
  the waker) and on the ring.
\<close>

section \<open>SenderImpl\<close>

definition sd_try_send ::
  "'g consumer_barrier \<Rightarrow> 'a \<Rightarrow> ('g, 'a) sender_impl \<Rightarrow>
     ('a try_send_error + unit) \<times> ('g, 'a) sender_impl" where
  "sd_try_send B value sd =
     (case mp_try_claim B (sd_publisher sd) of
        (Inr s, p) \<Rightarrow> (Inr (), sd_commit B s (sd_write_slot s value (sd\<lparr>sd_publisher := p\<rparr>)))
      | (Inl ClaimEmpty, p) \<Rightarrow> (Inl (SendFull value), sd\<lparr>sd_publisher := p\<rparr>)
      | (Inl ClaimShutdown, p) \<Rightarrow> (Inl (SendDisconnected value), sd\<lparr>sd_publisher := p\<rparr>))"

definition sd_try_reserve ::
  "'g consumer_barrier \<Rightarrow> 'a recycler \<Rightarrow> ('g, 'a) sender_impl \<Rightarrow>
     (try_reserve_error + 'a write_permit) \<times> ('g, 'a) sender_impl" where
  "sd_try_reserve B recycler sd =
     (case mp_try_claim B (sd_publisher sd) of
        (r, p) \<Rightarrow>
          (map_error reserve_error_of
             (map_sum id (\<lambda>s. \<lparr>wp_sequence = s, wp_recycler = recycler, wp_wrote = False\<rparr>) r),
           sd\<lparr>sd_publisher := p\<rparr>))"

definition sd_try_send_at_most ::
  "'g consumer_barrier \<Rightarrow> usize \<Rightarrow> 'a recycler \<Rightarrow> ('g, 'a) sender_impl \<Rightarrow>
     (try_send_at_most_error + 'a write_permits) \<times> ('g, 'a) sender_impl" where
  "sd_try_send_at_most B limit recycler sd =
     (if limit = 0
      then (Inr \<lparr>start_seq = 0, end_seq = - 1, next_seq = 0, wps_recycler = recycler\<rparr>, sd)
      else
        case mp_try_claim_at_most B (usize_as_i64 limit) (sd_publisher sd) of
          (r, p) \<Rightarrow>
            (map_error at_most_error_of
               (map_sum id (\<lambda>(a, b). \<lparr>start_seq = a, end_seq = b, next_seq = a,
                                      wps_recycler = recycler\<rparr>) r),
             sd\<lparr>sd_publisher := p\<rparr>))"

section \<open>ReceiverImpl\<close>

text \<open>A guard keeps the sequence number to commit and, for a single item, the sequence number of
  the slot it refers to: dereferencing reads the ring at that time.\<close>

record read_ref =
  rr_seq :: sequence
  rr_slot :: sequence

record read_refs =
  rrs_start_seq :: sequence
  rrs_end_seq :: sequence

type_synonym 'w receiver_view = "(multi_pub_gate, 'w) consumer_sequencer"

definition rv_try_recv :: "'w receiver_view \<Rightarrow> try_recv_error + read_ref" where
  "rv_try_recv c =
     map_error recv_error_of
       (map_sum id (\<lambda>s. \<lparr>rr_seq = s, rr_slot = s\<rparr>) (cs_try_claim max_published c))"

definition empty_read_refs :: read_refs where
  "empty_read_refs = \<lparr>rrs_start_seq = 0, rrs_end_seq = INIT\<rparr>"

definition rv_try_recv_at_most :: "usize \<Rightarrow> 'w receiver_view \<Rightarrow> try_recv_error + read_refs" where
  "rv_try_recv_at_most limit c =
     (if limit = 0 then Inr empty_read_refs
      else map_error recv_error_of
        (map_sum id (\<lambda>(a, b). \<lparr>rrs_start_seq = a, rrs_end_seq = b\<rparr>)
          (cs_try_claim_at_most max_published (usize_as_i64 limit) c)))"

text \<open>One poll of each async method; \<open>Ready None\<close> is the end of the stream.\<close>

fun poll_result :: "('b \<Rightarrow> 'c) \<Rightarrow> (try_claim_error + 'b) poll \<Rightarrow> 'c option poll" where
  "poll_result f Pending = Pending"
| "poll_result f (Ready (Inr x)) = Ready (Some (f x))"
| "poll_result f (Ready (Inl e)) = Ready None"

definition rv_recv_async where
  "rv_recv_async register before after ctx (c :: 'w receiver_view) =
     (case claim_at_most_async max_published register before after 1 ctx c of
        (r, c') \<Rightarrow> (poll_result (\<lambda>(a, b). \<lparr>rr_seq = a, rr_slot = b\<rparr>) r, c'))"

definition rv_recv_at_most_async where
  "rv_recv_at_most_async register before after limit ctx (c :: 'w receiver_view) =
     (if limit = (0 :: usize) then (Ready (Some empty_read_refs), c)
      else
        case claim_at_most_async max_published register before after (usize_as_i64 limit) ctx c of
          (r, c') \<Rightarrow> (poll_result (\<lambda>(a, b). \<lparr>rrs_start_seq = a, rrs_end_seq = b\<rparr>) r, c'))"

section \<open>Read guards\<close>

definition read_ref_deref :: "'a ring_buffer \<Rightarrow> read_ref \<Rightarrow> 'a" where
  "read_ref_deref rb r = get_ref_at rb (rr_slot r)"

definition read_ref_drop :: "read_ref \<Rightarrow> 'w receiver_view \<Rightarrow> 'w receiver_view" where
  "read_ref_drop r c = cs_commit (rr_seq r) c"

definition read_ref_finish :: "read_ref \<Rightarrow> 'w receiver_view \<Rightarrow> 'w receiver_view" where
  "read_ref_finish r c = read_ref_drop r c"

definition read_refs_drop :: "read_refs \<Rightarrow> 'w receiver_view \<Rightarrow> 'w receiver_view" where
  "read_refs_drop r c =
     (if rrs_end_seq r = INIT then c
      else cs_commit_range (rrs_start_seq r) (rrs_end_seq r) c)"

definition read_refs_finish :: "read_refs \<Rightarrow> 'w receiver_view \<Rightarrow> 'w receiver_view" where
  "read_refs_finish r c = read_refs_drop r c"

record read_batch_iter =
  current_seq :: sequence
  it_end_seq :: sequence

definition read_refs_iter :: "read_refs \<Rightarrow> read_batch_iter" where
  "read_refs_iter r = \<lparr>current_seq = rrs_start_seq r, it_end_seq = rrs_end_seq r\<rparr>"

definition iter_next :: "'a ring_buffer \<Rightarrow> read_batch_iter \<Rightarrow> 'a option \<times> read_batch_iter" where
  "iter_next rb it =
     (if current_seq it > it_end_seq it then (None, it)
      else (Some (get_ref_at rb (current_seq it)), it\<lparr>current_seq := seq_add_assign (current_seq it) 1\<rparr>))"

end
