(* ===== verification/Channels.thy ===== *)
theory Channels
  imports Endpoints
begin

text \<open>
  \<open>src/src/mpsc.rs\<close> and \<open>src/src/fanout.rs\<close>: the two channels. A channel is the memory its ends
  share (the publisher's state and the ring) with the number of \<open>Sender\<close> clones alive, which
  decides when \<open>SharedState\<close> is dropped. Receiver \<open>i\<close> shares the cursor and the waker \<open>i\<close> of the
  consumers' gate and the slot states: \<open>view\<close> is its sequencer on the current memory, and
  \<open>store_view\<close> writes its cursor and waker back. Everything between construction and the ends is
  common to the two topologies; \<open>topology\<close> collects what differs (the gate's methods and its
  cells).
\<close>

section \<open>The shared memory of a channel\<close>

record ('g, 'a) channel =
  sender :: "('g, 'a) sender_impl"
  sender_count :: nat

record ('g, 'w) topology =
  barrier :: "'g consumer_barrier"
  cursor_at :: "'g \<Rightarrow> nat \<Rightarrow> cursor"
  set_cursor :: "nat \<Rightarrow> cursor \<Rightarrow> 'g \<Rightarrow> 'g"
  waker_at :: "'g \<Rightarrow> nat \<Rightarrow> 'w"
  set_waker :: "nat \<Rightarrow> 'w \<Rightarrow> 'g \<Rightarrow> 'g"

definition gate_of :: "('g, 'a) channel \<Rightarrow> 'g" where
  "gate_of ch = consumer_gate (shared (sd_publisher (sender ch)))"

definition set_gate :: "'g \<Rightarrow> ('g, 'a) channel \<Rightarrow> ('g, 'a) channel" where
  "set_gate g ch = ch\<lparr>sender := (sender ch)\<lparr>sd_publisher := (sd_publisher (sender ch))
     \<lparr>shared := (shared (sd_publisher (sender ch)))\<lparr>consumer_gate := g\<rparr>\<rparr>\<rparr>\<rparr>"

definition view :: "('g, 'w) topology \<Rightarrow> nat \<Rightarrow> ('g, 'a) channel \<Rightarrow> 'w receiver_view" where
  "view T i ch = cs_new (publisher_gate (sd_publisher (sender ch))) (cursor_at T (gate_of ch) i)
     (mp_meta (sd_publisher (sender ch))) (waker_at T (gate_of ch) i)"

definition store_view ::
  "('g, 'w) topology \<Rightarrow> nat \<Rightarrow> 'w receiver_view \<Rightarrow> ('g, 'a) channel \<Rightarrow> ('g, 'a) channel" where
  "store_view T i c ch =
     set_gate (set_waker T i (cs_waker c) (set_cursor T i (consumed c) (gate_of ch))) ch"

section \<open>mpsc\<close>

definition mpsc :: "('w \<Rightarrow> 'w) \<Rightarrow> ('w exclusive_gate, 'w) topology" where
  "mpsc wake = \<lparr>barrier = ex_barrier wake,
     cursor_at = (\<lambda>g _. ex_consumed g), set_cursor = (\<lambda>_ c g. g\<lparr>ex_consumed := c\<rparr>),
     waker_at = (\<lambda>g _. ex_waker g), set_waker = (\<lambda>_ w g. g\<lparr>ex_waker := w\<rparr>)\<rparr>"

text \<open>\<open>None\<close> is a panic of \<open>RingBufferMeta::new\<close>; \<open>w\<close> is a fresh waker.\<close>

definition mpsc_channel_with_ring ::
  "'w \<Rightarrow> 'a ring_buffer \<Rightarrow> ('w exclusive_gate, 'a) channel option" where
  "mpsc_channel_with_ring w rb =
     (let capacity = i64_as_usize (rb_capacity rb);
          gate = ex_new w
      in case meta_new capacity of
           None \<Rightarrow> None
         | Some m \<Rightarrow> Some \<lparr>sender = \<lparr>sd_publisher = mp_new gate m, sd_ring = rb\<rparr>, sender_count = 1\<rparr>)"

definition mpsc_channel_with ::
  "'w \<Rightarrow> usize \<Rightarrow> (nat \<Rightarrow> 'a) \<Rightarrow> invalid_channel_size + ('w exclusive_gate, 'a) channel option" where
  "mpsc_channel_with w capacity initializer =
     (case validate capacity of
        Inl e \<Rightarrow> Inl e
      | Inr _ \<Rightarrow> Inr (Option.bind (init_with capacity initializer) (mpsc_channel_with_ring w)))"

definition mpsc_channel ::
  "'w \<Rightarrow> 'a \<Rightarrow> usize \<Rightarrow> invalid_channel_size + ('w exclusive_gate, 'a) channel option" where
  "mpsc_channel w dflt capacity =
     (case validate capacity of
        Inl e \<Rightarrow> Inl e
      | Inr _ \<Rightarrow> Inr (Option.bind (init_with capacity (\<lambda>_. dflt)) (mpsc_channel_with_ring w)))"

section \<open>fanout\<close>

definition fanout :: "('w \<Rightarrow> 'w) \<Rightarrow> ('w fanout_gate, 'w) topology" where
  "fanout wake = \<lparr>barrier = fan_barrier wake,
     cursor_at = (\<lambda>g i. fan_consumed g ! i),
     set_cursor = (\<lambda>i c g. g\<lparr>fan_consumed := (fan_consumed g)[i := c]\<rparr>),
     waker_at = (\<lambda>g i. fan_wakers g ! i),
     set_waker = (\<lambda>i w g. g\<lparr>fan_wakers := (fan_wakers g)[i := w]\<rparr>)\<rparr>"

definition fanout_channel_with_ring ::
  "nat \<Rightarrow> 'w \<Rightarrow> 'a ring_buffer \<Rightarrow> ('w fanout_gate, 'a) channel" where
  "fanout_channel_with_ring n w rb =
     \<lparr>sender = \<lparr>sd_publisher = mp_new (fan_new n w) (rb_meta rb), sd_ring = rb\<rparr>, sender_count = 1\<rparr>"

definition fanout_channel_with ::
  "nat \<Rightarrow> 'w \<Rightarrow> usize \<Rightarrow> (nat \<Rightarrow> 'a) \<Rightarrow> invalid_channel_size + ('w fanout_gate, 'a) channel option" where
  "fanout_channel_with n w capacity initializer =
     (case validate capacity of
        Inl e \<Rightarrow> Inl e
      | Inr _ \<Rightarrow> Inr (map_option (fanout_channel_with_ring n w) (init_with capacity initializer)))"

definition fanout_channel ::
  "nat \<Rightarrow> 'w \<Rightarrow> 'a \<Rightarrow> usize \<Rightarrow> invalid_channel_size + ('w fanout_gate, 'a) channel option" where
  "fanout_channel n w dflt capacity =
     (case validate capacity of
        Inl e \<Rightarrow> Inl e
      | Inr _ \<Rightarrow> Inr (map_option (fanout_channel_with_ring n w) (init_with capacity (\<lambda>_. dflt))))"

section \<open>The ends\<close>

text \<open>The public methods forward to \<open>SenderImpl\<close> and \<open>ReceiverImpl\<close>, and their guards to the inner
  guards.\<close>

definition on_sender :: "(('g, 'a) sender_impl \<Rightarrow> 'r \<times> ('g, 'a) sender_impl) \<Rightarrow> ('g, 'a) channel \<Rightarrow>
    'r \<times> ('g, 'a) channel" where
  "on_sender f ch = (case f (sender ch) of (r, sd) \<Rightarrow> (r, ch\<lparr>sender := sd\<rparr>))"

definition try_send where
  "try_send (T :: ('g, 'w) topology) v (ch :: ('g, 'a) channel) =
     on_sender (sd_try_send (barrier T) v) ch"

definition try_reserve where
  "try_reserve (T :: ('g, 'w) topology) recycler (ch :: ('g, 'a) channel) =
     on_sender (sd_try_reserve (barrier T) recycler) ch"

definition try_send_at_most where
  "try_send_at_most (T :: ('g, 'w) topology) limit recycler (ch :: ('g, 'a) channel) =
     on_sender (sd_try_send_at_most (barrier T) limit recycler) ch"

definition permit_write where
  "permit_write (T :: ('g, 'w) topology) item p (ch :: ('g, 'a) channel) =
     ch\<lparr>sender := write_permit_write (barrier T) item p (sender ch)\<rparr>"

definition permit_update_in_place where
  "permit_update_in_place (T :: ('g, 'w) topology) f p (ch :: ('g, 'a) channel) =
     on_sender (\<lambda>sd. prod.swap (write_permit_update_in_place (barrier T) f p sd)) ch"

definition permit_drop where
  "permit_drop (T :: ('g, 'w) topology) p (ch :: ('g, 'a) channel) =
     ch\<lparr>sender := write_permit_drop (barrier T) p (sender ch)\<rparr>"

definition batch_write where
  "batch_write (T :: ('g, 'w) topology) ps item p (ch :: ('g, 'a) channel) =
     ch\<lparr>sender := batch_permit_write (barrier T) ps item p (sender ch)\<rparr>"

definition batch_drop where
  "batch_drop (T :: ('g, 'w) topology) ps p (ch :: ('g, 'a) channel) =
     ch\<lparr>sender := batch_permit_drop (barrier T) ps p (sender ch)\<rparr>"

definition batch_commit where
  "batch_commit (T :: ('g, 'w) topology) ps (ch :: ('g, 'a) channel) =
     ch\<lparr>sender := permits_commit (barrier T) ps (sender ch)\<rparr>"

definition try_recv where
  "try_recv (T :: ('g, 'w) topology) i (ch :: ('g, 'a) channel) = rv_try_recv (view T i ch)"

definition try_recv_at_most where
  "try_recv_at_most (T :: ('g, 'w) topology) i limit (ch :: ('g, 'a) channel) =
     rv_try_recv_at_most limit (view T i ch)"

definition ref_deref :: "read_ref \<Rightarrow> ('g, 'a) channel \<Rightarrow> 'a" where
  "ref_deref r ch = read_ref_deref (sd_ring (sender ch)) r"

definition ref_finish where
  "ref_finish (T :: ('g, 'w) topology) i r (ch :: ('g, 'a) channel) =
     store_view T i (read_ref_finish r (view T i ch)) ch"

definition refs_iter_next :: "read_batch_iter \<Rightarrow> ('g, 'a) channel \<Rightarrow> 'a option \<times> read_batch_iter" where
  "refs_iter_next it ch = iter_next (sd_ring (sender ch)) it"

definition refs_finish where
  "refs_finish (T :: ('g, 'w) topology) i r (ch :: ('g, 'a) channel) =
     store_view T i (read_refs_finish r (view T i ch)) ch"

text \<open>Cloning and dropping the ends. The last \<open>Sender\<close> dropped drops \<open>SharedState\<close>; a receiver
  dropped drops its sequencer.\<close>

definition sender_clone :: "('g, 'a) channel \<Rightarrow> ('g, 'a) channel" where
  "sender_clone ch = ch\<lparr>sender_count := sender_count ch + 1\<rparr>"

definition sender_drop where
  "sender_drop (T :: ('g, 'w) topology) (ch :: ('g, 'a) channel) =
     (let ch' = ch\<lparr>sender_count := sender_count ch - 1\<rparr>
      in if sender_count ch' = 0
         then ch'\<lparr>sender := (sender ch')\<lparr>sd_publisher := (sd_publisher (sender ch'))
           \<lparr>shared := shared_drop (barrier T) (shared (sd_publisher (sender ch')))\<rparr>\<rparr>\<rparr>
         else ch')"

definition receiver_drop where
  "receiver_drop (T :: ('g, 'w) topology) i (ch :: ('g, 'a) channel) =
     store_view T i (cs_drop (view T i ch)) ch"

end
