(* ===== verification/SenderCorrect.thy ===== *)
theory SenderCorrect
  imports Channels
begin

text \<open>
  What the sending side does to the shared memory, stated on the invariant of \<open>Invariants\<close>: each
  operation of \<open>MultiPublisherSequencer\<close>, of the permits and of \<open>SenderImpl\<close> takes a memory with
  \<open>t\<close> claimed, \<open>P\<close> pending and the values \<open>h\<close> to the next such triple. The lemmas are proved once
  for every gate that meets its contract, in the locale \<open>consumer_gate_contract\<close>.
\<close>

section \<open>The invariant of the shared memory\<close>

definition pub_inv :: "cursor list \<Rightarrow> 'g multi_publisher \<Rightarrow> int \<Rightarrow> int set \<Rightarrow> bool" where
  "pub_inv cs p t P \<longleftrightarrow>
     flags_inv (slot_states (shared p)) t P \<and> claimed_inv (claimed (shared p)) t \<and>
     cursors_inv (buffer_size (mp_meta p)) t P cs \<and>
     st_meta (slot_states (shared p)) = mp_meta p \<and> ss_buffer_size (shared p) = buffer_size (mp_meta p)"

definition mem_inv :: "('g \<Rightarrow> cursor list) \<Rightarrow> ('g, 'a) sender_impl \<Rightarrow> int \<Rightarrow> int set \<Rightarrow> (int \<Rightarrow> 'a) \<Rightarrow> bool" where
  "mem_inv cursors sd t P h \<longleftrightarrow>
     pub_inv (cursors (consumer_gate (shared (sd_publisher sd)))) (sd_publisher sd) t P \<and>
     data_inv (sd_ring sd) t P h \<and> rb_meta (sd_ring sd) = mp_meta (sd_publisher sd)"

lemma pub_invD:
  assumes "pub_inv cs p t P"
  shows "flags_inv (slot_states (shared p)) t P" "claimed_inv (claimed (shared p)) t"
    "cursors_inv (buffer_size (mp_meta p)) t P cs" "st_meta (slot_states (shared p)) = mp_meta p"
    "ss_buffer_size (shared p) = buffer_size (mp_meta p)" "meta_ok (mp_meta p)"
    "1 \<le> buffer_size (mp_meta p)" "buffer_size (mp_meta p) \<le> 2 ^ 30" "- 1 \<le> t" "t < 2 ^ 61"
    "slots_ok (slot_states (shared p))" "cursors_ok cs"
  using assms flags_invD [of "slot_states (shared p)" t P] cursors_inv_ok
  by (auto simp: pub_inv_def)

text \<open>An open publisher's cursor is \<open>t\<close> itself.\<close>

lemma claimed_open: "claimed_inv raw t \<Longrightarrow> \<not> has_shutdown raw \<Longrightarrow> raw = t"
  by (auto simp: claimed_inv_def)

lemma not_shutdown_ge: "- 1 \<le> t \<Longrightarrow> \<not> has_shutdown t"
  by (simp add: has_shutdown_def)

section \<open>Claiming\<close>

lemma claim_target_eq:
  assumes "meta_ok m" "- 1 \<le> l" "l < 2 ^ 61" "- 1 \<le> mc" "mc < 2 ^ 61" "- (2 ^ 61) \<le> n"
  shows "claim_target m n l \<lparr>ss_seq = mc, ss_shutdown = False\<rparr> =
    (let room = mc - l + buffer_size m
     in if room < 1 then Inl ClaimEmpty else Inr (l + 1, l + min room n))"
proof -
  have size: "1 \<le> buffer_size m" "buffer_size m \<le> 2 ^ 30" using assms(1) by (simp_all add: meta_ok_def)
  have room: "available_slots m l mc = mc - l + buffer_size m"
    using assms by (intro available_slots_eq) simp_all
  have add: "seq_add l 1 = l + 1" "seq_add l (mc - l + buffer_size m) = mc + buffer_size m"
    "wrap64 (mc + buffer_size m - l) = mc - l + buffer_size m"
    using assms size by simp_all
  have high: "seq_add l (min (mc - l + buffer_size m) n) = l + min (mc - l + buffer_size m) n"
    using assms size by (intro seq_add_id) (simp_all add: min_def)
  show ?thesis
    by (auto simp: claim_target_def Let_def room add high)
qed

context consumer_gate_contract
begin

lemma claim_loop_at_claimed:
  "claim_loop B n (claimed (shared p)) p =
     (if has_shutdown (claimed (shared p)) then (Inl ClaimShutdown, p)
      else
        case claim_target (mp_meta p) n (claimed (shared p)) (max_consumed B (consumer_gate (shared p))) of
          Inl e \<Rightarrow> (Inl e, p)
        | Inr (a, b) \<Rightarrow> (Inr (a, b), p\<lparr>shared := (shared p)\<lparr>claimed := b\<rparr>\<rparr>))"
  by (subst claim_loop.simps) (auto split: sum.splits)

text \<open>Every outcome of a claim: \<open>limit\<close> below zero is the cast of a \<open>usize\<close> of at least \<open>2^63\<close>.\<close>

lemma claim_outcome:
  fixes p :: "'g multi_publisher"
  defines "g \<equiv> consumer_gate (shared p)"
  assumes inv: "pub_inv (cursors g) p t P" and "- (2 ^ 61) \<le> limit"
  shows "mp_try_claim_at_most B limit p =
    (if has_shutdown (claimed (shared p)) \<or> (\<forall>c \<in> set (cursors g). c = SHUTDOWN_OPEN)
     then (Inl ClaimShutdown, p)
     else
       let room = ss_seq (max_consumed B g) - t + buffer_size (mp_meta p)
       in if room < 1 then (Inl ClaimEmpty, p)
          else (Inr (t + 1, t + min room limit),
                p\<lparr>shared := (shared p)\<lparr>claimed := t + min room limit\<rparr>\<rparr>))"
proof -
  note D = pub_invD [OF inv]
  let ?n = "min limit (buffer_size (mp_meta p))" and ?s = "max_consumed B g"
  show ?thesis
  proof (cases "has_shutdown (claimed (shared p))")
    case True
    then show ?thesis
      by (simp add: mp_try_claim_at_most_def cursor_load_def claim_loop_at_claimed)
  next
    case open': False
    then have cl: "claimed (shared p) = t" using D(2) by (rule claimed_open [rotated])
    show ?thesis
    proof (cases "\<forall>c \<in> set (cursors g). c = SHUTDOWN_OPEN")
      case True
      then have "ss_shutdown ?s" using all_left D(12) by simp
      then show ?thesis using open' True
        by (simp add: mp_try_claim_at_most_def cursor_load_def claim_loop_at_claimed claim_target_def
            flip: g_def)
    next
      case False
      then have sd: "\<not> ss_shutdown ?s" using all_left D(12) by blast
      then have "ss_seq ?s \<in> set (cursors g)" using D(12) attained by blast
      moreover have "ss_seq ?s < SHUTDOWN_OPEN" using D(12) sd by (intro live_consumer)
      ultimately have mc: "- 1 \<le> ss_seq ?s" "ss_seq ?s \<le> t"
        using D(3) by (auto simp: cursors_inv_def live_cursor_def)
      have "?s = \<lparr>ss_seq = ss_seq ?s, ss_shutdown = False\<rparr>" using sd by simp
      then have "claim_target (mp_meta p) ?n t ?s =
          (let room = ss_seq ?s - t + buffer_size (mp_meta p)
           in if room < 1 then Inl ClaimEmpty else Inr (t + 1, t + min room ?n))"
        using claim_target_eq [OF D(6,9,10), of "ss_seq ?s" ?n] mc D assms(3) by simp
      moreover have "min room ?n = min room limit"
        if "room = ss_seq ?s - t + buffer_size (mp_meta p)" for room
        using that mc by simp
      moreover have "claim_loop B ?n t p =
          (case claim_target (mp_meta p) ?n t ?s of
             Inl e \<Rightarrow> (Inl e, p)
           | Inr (a, b) \<Rightarrow> (Inr (a, b), p\<lparr>shared := (shared p)\<lparr>claimed := b\<rparr>\<rparr>))"
        using claim_loop_at_claimed [of ?n p] open' by (simp add: cl flip: g_def)
      ultimately show ?thesis using open' False
        by (auto simp: mp_try_claim_at_most_def cursor_load_def cl Let_def)
    qed
  qed
qed

lemma claim_keeps_inv:
  fixes p :: "'g multi_publisher"
  defines "g \<equiv> consumer_gate (shared p)"
  assumes inv: "pub_inv (cursors g) p t P" and t: "t < 2 ^ 60" and limit: "1 \<le> limit"
    and claim: "mp_try_claim_at_most B limit p = (Inr (a, b), p')"
  shows "a = t + 1" "a \<le> b" "b \<le> t + limit" "b \<le> t + buffer_size (mp_meta p)"
    "\<not> has_shutdown (claimed (shared p))" "p' = p\<lparr>shared := (shared p)\<lparr>claimed := b\<rparr>\<rparr>"
    "pub_inv (cursors g) p' b (P \<union> {a..b})"
proof -
  note D = pub_invD [OF inv]
  define room where "room = ss_seq (max_consumed B g) - t + buffer_size (mp_meta p)"
  have lim: "- (2 ^ 61) \<le> limit" using limit by simp
  note out = claim [unfolded claim_outcome [OF inv [unfolded g_def] lim], folded g_def, folded room_def]
  have open': "\<not> has_shutdown (claimed (shared p))" and left: "\<not> (\<forall>c \<in> set (cursors g). c = SHUTDOWN_OPEN)"
    and room: "1 \<le> room" and ab: "a = t + 1" "b = t + min room limit"
    and p': "p' = p\<lparr>shared := (shared p)\<lparr>claimed := b\<rparr>\<rparr>"
    using out by (auto simp: Let_def room_def [symmetric] split: if_splits)
  have sd: "\<not> ss_shutdown (max_consumed B g)" using left all_left D(12) by blast
  have att: "ss_seq (max_consumed B g) \<in> set (cursors g)" using attained D(12) sd by blast
  moreover have "ss_seq (max_consumed B g) \<noteq> SHUTDOWN_OPEN" using live_consumer(2) D(12) sd by fastforce
  ultimately have slow: "live_cursor (buffer_size (mp_meta p)) t P (ss_seq (max_consumed B g))"
    using D(3) by (auto simp: cursors_inv_def)
  have b_le: "b \<le> ss_seq (max_consumed B g) + buffer_size (mp_meta p)" using ab by (simp add: room_def min_def)
  have b: "t < b" "b \<le> t + buffer_size (mp_meta p)" "b < 2 ^ 61"
    using ab room limit slow t D(8) b_le by (auto simp: live_cursor_def)
  have flags: "flags_inv (slot_states (shared p)) b (P \<union> {t + 1..b})"
    using D(1,4) b slow b_le by (intro flags_inv_claim) (auto simp: live_cursor_def)
  have "\<forall>c \<in> set (cursors g). c = SHUTDOWN_OPEN \<or> b - buffer_size (mp_meta p) \<le> c"
    using slowest [OF D(12)] b_le by force
  then have curs: "cursors_inv (buffer_size (mp_meta p)) b (P \<union> {t + 1..b}) (cursors g)"
    using D(3) b by (intro cursors_inv_claim) simp_all
  show "a = t + 1" "a \<le> b" "b \<le> t + limit" "b \<le> t + buffer_size (mp_meta p)"
    using ab b room by (simp_all add: min_def)
  show "\<not> has_shutdown (claimed (shared p))" "p' = p\<lparr>shared := (shared p)\<lparr>claimed := b\<rparr>\<rparr>" by fact+
  show "pub_inv (cursors g) p' b (P \<union> {a..b})"
    using flags curs D(4,5) ab(1) by (simp add: pub_inv_def p' claimed_inv_def)
qed

lemma claim_error_keeps:
  assumes "pub_inv (cursors (consumer_gate (shared p))) p t P" "- (2 ^ 61) \<le> limit"
    and "mp_try_claim_at_most B limit p = (Inl e, p')"
  shows "p' = p"
  using assms(3) unfolding claim_outcome [OF assms(1,2)] by (auto simp: Let_def split: if_splits)

section \<open>Committing and closing\<close>

lemma commit_keeps_inv:
  assumes "pub_inv cs p t P" "s \<in> P"
  shows "pub_inv cs (mp_commit B s p) t (P - {s})"
  using assms by (auto simp: pub_inv_def mp_commit_def notify_gate_def
      intro: flags_inv_publish cursors_inv_shrink)

lemma commit_range_keeps_inv:
  assumes "pub_inv cs p t P" "{a..b} \<subseteq> P"
  shows "pub_inv cs (mp_commit_range B a b p) t (P - {a..b})"
  using assms by (auto simp: pub_inv_def mp_commit_range_def notify_gate_def
      intro: flags_inv_publish_range cursors_inv_shrink)

lemma close_keeps_inv:
  assumes "pub_inv cs p t P" "0 \<le> t"
  shows "pub_inv cs (p\<lparr>shared := close B (shared p)\<rparr>) t P"
  using pub_invD [OF assms(1)] assms(2) claimed_inv_close [of "claimed (shared p)" t]
  by (auto simp: pub_inv_def close_def notify_gate_def Let_def cursor_load_def cursor_store_def
      intro: flags_inv_mark_shutdown)

end

text \<open>
  Where \<open>close\<close> puts the marker: behind the frontier. This needs the cursor to stand for \<open>t\<close> exactly,
  as it does unless a close raced with a claim.
\<close>

definition claimed_tight :: "cursor \<Rightarrow> int \<Rightarrow> bool" where
  "claimed_tight raw t \<longleftrightarrow> raw = t \<or> 0 \<le> t \<and> raw = t - 2 ^ 63"

lemma close_boundary_eq:
  assumes inv: "pub_inv cs p t P" and tight: "claimed_tight (claimed (shared p)) t"
  shows "close_boundary (shared p) = frontier t P + 1"
proof -
  note D = pub_invD [OF inv] and F = frontier_props [OF pub_invD(1) [OF inv]]
  let ?raw = "claimed (shared p)" and ?st = "slot_states (shared p)" and ?size = "buffer_size (mp_meta p)"
  have strip: "(if has_shutdown ?raw then ?raw AND VALUE_MASK else ?raw) = t"
  proof (cases "?raw = t")
    case True
    then show ?thesis using D(9) by (simp add: not_shutdown_ge)
  next
    case False
    then have "?raw = t - 2 ^ 63" "0 \<le> t" using tight by (auto simp: claimed_tight_def)
    moreover have "(t - 2 ^ 63) mod 2 ^ 63 = t"
      using mod_pos_pos_trivial [of t "2 ^ 63"] calculation(2) D(10) by simp
    ultimately show ?thesis using D(10) by (simp add: has_shutdown_def and_VALUE_MASK)
  qed
  have next': "seq_add (frontier t P) 1 = frontier t P + 1" using F(1,3) D(10) by simp
  show ?thesis
  proof (cases "t < 0")
    case True
    then have "t = - 1" using D(9) by simp
    moreover have "P = {}" using flags_invD(4) [OF D(1)] True by force
    ultimately show ?thesis using strip next'
      by (simp add: close_boundary_def cursor_load_def Let_def)
  next
    case False
    define w where "w = max (t - (?size - 1)) 0"
    have w: "max (wrap64 (t - wrap64 (ss_buffer_size (shared p) - 1))) 0 = w"
      using D False by (simp add: w_def)
    have pub: "published ?st q \<longleftrightarrow> q \<notin> P" if "w \<le> q" "q \<le> t" for q
      using published_window [OF D(1), of q] that D(4) by (simp add: w_def)
    have wf: "w - 1 \<le> frontier t P" using F(3,5) D(4) by (simp add: w_def)
    have "last_run (published ?st) w t = frontier t P"
    proof (rule last_run_eqI)
      show "published ?st q" if "w \<le> q" "q \<le> frontier t P" for q
        using pub [of q] that F(1,2) by force
      show "\<not> published ?st (frontier t P + 1)" if "frontier t P < t"
        using pub [of "frontier t P + 1"] that wf F(4) by simp
    qed (use wf F(1) in simp_all)
    moreover have "scan_last_available ?st w t = last_run (published ?st) w t"
      using D(7-10) by (intro scan_last_available_eq) (simp_all add: w_def)
    ultimately show ?thesis using strip next' False w
      by (simp add: close_boundary_def cursor_load_def Let_def)
  qed
qed

text \<open>A quiet memory carries no shutdown marker; it stays quiet until \<open>close\<close>.\<close>

definition quiet :: "'g multi_publisher \<Rightarrow> bool" where
  "quiet p \<longleftrightarrow> (\<forall>s. \<not> marked (slot_states (shared p)) s)"

lemma quiet_publish: "slots_ok st \<Longrightarrow> \<forall>s. \<not> marked st s \<Longrightarrow> \<not> marked (publish st a) s"
  by (simp add: marked_publish)

lemma quiet_publish_range:
  "slots_ok st \<Longrightarrow> \<forall>s. \<not> marked st s \<Longrightarrow> \<not> marked (publish_range st a b) s"
proof -
  have "slots_ok st \<Longrightarrow> \<forall>s. \<not> marked st s \<Longrightarrow> \<forall>s. \<not> marked (foldl publish st ss) s" for ss
    by (induction ss arbitrary: st) (simp_all add: marked_publish)
  then show "slots_ok st \<Longrightarrow> \<forall>s. \<not> marked st s \<Longrightarrow> \<not> marked (publish_range st a b) s"
    by (simp add: publish_range_def)
qed

lemma quiet_commit: "slots_ok (slot_states (shared p)) \<Longrightarrow> quiet p \<Longrightarrow> quiet (mp_commit B s p)"
  by (simp add: quiet_def mp_commit_def notify_gate_def quiet_publish)

lemma quiet_commit_range:
  "slots_ok (slot_states (shared p)) \<Longrightarrow> quiet p \<Longrightarrow> quiet (mp_commit_range B a b p)"
  by (simp add: quiet_def mp_commit_range_def notify_gate_def quiet_publish_range)

section \<open>Slots\<close>

lemma frame_write_slot [frame_simps, simp]:
  "sd_publisher (sd_write_slot s v sd) = sd_publisher sd"
  "rb_meta (sd_ring (sd_write_slot s v sd)) = rb_meta (sd_ring sd)"
  by (simp_all add: sd_write_slot_def)

lemma mem_invD:
  assumes "mem_inv cursors sd t P h"
  shows "pub_inv (cursors (consumer_gate (shared (sd_publisher sd)))) (sd_publisher sd) t P"
    "data_inv (sd_ring sd) t P h" "rb_meta (sd_ring sd) = mp_meta (sd_publisher sd)"
    "\<And>q. q \<in> P \<Longrightarrow> t - buffer_size (rb_meta (sd_ring sd)) < q \<and> q \<le> t \<and> 0 \<le> q"
    "ring_ok (sd_ring sd)" "finite P"
proof -
  show inv: "pub_inv (cursors (consumer_gate (shared (sd_publisher sd)))) (sd_publisher sd) t P"
    "data_inv (sd_ring sd) t P h" "rb_meta (sd_ring sd) = mp_meta (sd_publisher sd)"
    using assms by (simp_all add: mem_inv_def)
  show "t - buffer_size (rb_meta (sd_ring sd)) < q \<and> q \<le> t \<and> 0 \<le> q" if "q \<in> P" for q
    using flags_invD(4) [OF pub_invD(1) [OF inv(1)] that] inv(3) pub_invD(4) [OF inv(1)] by simp
  show "ring_ok (sd_ring sd)" using inv(2) by (simp add: data_inv_def)
  show "finite P" using pending_finite [OF pub_invD(1) [OF inv(1)]] .
qed

lemma mem_inv_write:
  assumes inv: "mem_inv cursors sd t P h" and s: "s \<in> P"
  shows "mem_inv cursors (sd_write_slot s v sd) t P h"
proof -
  have "data_inv (sd_ring (sd_write_slot s v sd)) t P h"
    using data_inv_write [OF mem_invD(2) [OF inv] s] mem_invD(4) [OF inv s]
    by (simp add: sd_write_slot_def)
  then show ?thesis using mem_invD(1,3) [OF inv] by (simp add: mem_inv_def)
qed

lemma get_write_slot:
  assumes inv: "mem_inv cursors sd t P h" and s: "s \<in> P"
    and q: "t - buffer_size (rb_meta (sd_ring sd)) < q" "q \<le> t"
  shows "get_ref_at (sd_ring (sd_write_slot s v sd)) q =
    (if q = s then v else get_ref_at (sd_ring sd) q)"
proof -
  have "\<bar>s - q\<bar> < buffer_size (rb_meta (sd_ring sd))" using mem_invD(4) [OF inv s] q by linarith
  then show ?thesis using mem_invD(5) [OF inv] by (simp add: sd_write_slot_def get_modify)
qed

section \<open>The recycling loop\<close>

text \<open>Without a panic the loop recycles each of its slots once and touches no other.\<close>

lemma recycle_loop_props:
  assumes "mem_inv cursors sd t P h" "set ss \<subseteq> P" "distinct ss"
    and "recycle_loop rec ss sd = (sd', panicked)"
  shows "mem_inv cursors sd' t P h" "sd_publisher sd' = sd_publisher sd"
    "rb_meta (sd_ring sd') = rb_meta (sd_ring sd)"
    "panicked \<longleftrightarrow> (\<exists>s \<in> set ss. snd (rec (get_ref_at (sd_ring sd) s)))"
    "\<And>q. q \<in> P \<Longrightarrow> \<not> panicked \<Longrightarrow> get_ref_at (sd_ring sd') q =
      (if q \<in> set ss then fst (rec (get_ref_at (sd_ring sd) q)) else get_ref_at (sd_ring sd) q)"
proof -
  have "mem_inv cursors sd' t P h \<and> sd_publisher sd' = sd_publisher sd \<and>
    rb_meta (sd_ring sd') = rb_meta (sd_ring sd) \<and>
    (panicked \<longleftrightarrow> (\<exists>s \<in> set ss. snd (rec (get_ref_at (sd_ring sd) s)))) \<and>
    (\<not> panicked \<longrightarrow> (\<forall>q \<in> P. get_ref_at (sd_ring sd') q =
      (if q \<in> set ss then fst (rec (get_ref_at (sd_ring sd) q)) else get_ref_at (sd_ring sd) q)))"
    using assms
  proof (induction ss arbitrary: sd)
    case (Cons s ss)
    obtain v pan where v: "rec (get_ref_at (sd_ring sd) s) = (v, pan)" by fastforce
    let ?sd = "sd_write_slot s v sd"
    have s: "s \<in> P" "s \<notin> set ss" "set ss \<subseteq> P" "distinct ss" using Cons.prems(2,3) by auto
    have inv: "mem_inv cursors ?sd t P h" using Cons.prems(1) s(1) by (rule mem_inv_write)
    have get: "get_ref_at (sd_ring ?sd) q = (if q = s then v else get_ref_at (sd_ring sd) q)"
      if "q \<in> P" for q
      using get_write_slot [OF Cons.prems(1) s(1)] mem_invD(4) [OF Cons.prems(1) that] by blast
    show ?case
    proof (cases pan)
      case True
      then show ?thesis using Cons.prems(4) v inv by (auto simp: Let_def)
    next
      case False
      then have "recycle_loop rec ss ?sd = (sd', panicked)"
        using Cons.prems(4) v by (simp add: Let_def)
      note IH = Cons.IH [OF inv s(3,4) this]
      have "(\<exists>q \<in> set ss. snd (rec (get_ref_at (sd_ring ?sd) q))) \<longleftrightarrow>
          (\<exists>q \<in> set (s # ss). snd (rec (get_ref_at (sd_ring sd) q)))"
      proof -
        have "get_ref_at (sd_ring ?sd) q = get_ref_at (sd_ring sd) q" if "q \<in> set ss" for q
          using get [of q] s(2,3) that by auto
        then have "(\<exists>q \<in> set ss. snd (rec (get_ref_at (sd_ring ?sd) q))) \<longleftrightarrow>
            (\<exists>q \<in> set ss. snd (rec (get_ref_at (sd_ring sd) q)))"
          by simp
        then show ?thesis using v False by simp
      qed
      then show ?thesis using IH get s(2) v by auto
    qed
  qed simp
  then show "mem_inv cursors sd' t P h" "sd_publisher sd' = sd_publisher sd"
    "rb_meta (sd_ring sd') = rb_meta (sd_ring sd)"
    "panicked \<longleftrightarrow> (\<exists>s \<in> set ss. snd (rec (get_ref_at (sd_ring sd) s)))"
    "\<And>q. q \<in> P \<Longrightarrow> \<not> panicked \<Longrightarrow> get_ref_at (sd_ring sd') q =
      (if q \<in> set ss then fst (rec (get_ref_at (sd_ring sd) q)) else get_ref_at (sd_ring sd) q)"
    by blast+
qed

section \<open>Permits and sends\<close>

text \<open>Publishing the sequence numbers \<open>S\<close> fixes their values to what the ring holds.\<close>

definition publish_values :: "int set \<Rightarrow> 'a ring_buffer \<Rightarrow> (int \<Rightarrow> 'a) \<Rightarrow> int \<Rightarrow> 'a" where
  "publish_values S rb h = (\<lambda>q. if q \<in> S then get_ref_at rb q else h q)"

context consumer_gate_contract
begin

lemma sd_commit_range_keeps:
  assumes inv: "mem_inv cursors sd t P h" and ab: "{a..b} \<subseteq> P"
  shows "mem_inv cursors (sd_commit_range B a b sd) t (P - {a..b}) (publish_values {a..b} (sd_ring sd) h)"
proof -
  note D = mem_invD [OF inv]
  have "data_inv (sd_ring sd) t (P - {a..b}) (publish_values {a..b} (sd_ring sd) h)"
    using D(2) by (rule data_inv_publish) (auto simp: publish_values_def)
  moreover have "cursors (consumer_gate (shared (mp_commit_range B a b (sd_publisher sd)))) =
      cursors (consumer_gate (shared (sd_publisher sd)))"
    "mp_meta (mp_commit_range B a b (sd_publisher sd)) = mp_meta (sd_publisher sd)"
    by (simp_all add: mp_commit_range_def notify_gate_def notify_cursors)
  ultimately show ?thesis
    using commit_range_keeps_inv [OF D(1) ab] D(3) by (simp add: mem_inv_def sd_commit_range_def)
qed

lemma mp_commit_eq_range: "mp_commit B s p = mp_commit_range B s s p"
  by (simp add: mp_commit_def mp_commit_range_def publish_range_def)

lemma sd_commit_keeps:
  assumes "mem_inv cursors sd t P h" "s \<in> P"
  shows "mem_inv cursors (sd_commit B s sd) t (P - {s}) (publish_values {s} (sd_ring sd) h)"
  using sd_commit_range_keeps [of sd t P h s s] assms
  by (simp add: sd_commit_def sd_commit_range_def mp_commit_eq_range)

lemma sd_terminate_keeps:
  assumes inv: "mem_inv cursors sd t P h" and t: "0 \<le> t"
  shows "mem_inv cursors (sd_terminate B sd) t P h"
    "has_shutdown (claimed (shared (sd_publisher (sd_terminate B sd))))"
proof -
  note D = mem_invD [OF inv] and PD = pub_invD [OF mem_invD(1) [OF inv]]
  have "cursors (consumer_gate (close B (shared (sd_publisher sd)))) =
      cursors (consumer_gate (shared (sd_publisher sd)))"
    by (simp add: close_def notify_gate_def Let_def notify_cursors)
  then show "mem_inv cursors (sd_terminate B sd) t P h"
    using close_keeps_inv [OF D(1) t] D(2,3)
    by (simp add: mem_inv_def sd_terminate_def mp_terminate_def)
  show "has_shutdown (claimed (shared (sd_publisher (sd_terminate B sd))))"
    using claimed_inv_close(1) [OF PD(2) t PD(10)]
    by (simp add: sd_terminate_def mp_terminate_def close_def notify_gate_def Let_def cursor_load_def
        cursor_store_def)
qed

text \<open>Dropping a batch: the slots not handed out are recycled and everything is published.\<close>

lemma permits_drop_keeps:
  assumes inv: "mem_inv cursors sd t P h" and ab: "{start_seq ps..end_seq ps} \<subseteq> P"
    and ord: "start_seq ps \<le> end_seq ps" "start_seq ps \<le> next_seq ps"
    and calm: "\<And>q. next_seq ps \<le> q \<Longrightarrow> q \<le> end_seq ps \<Longrightarrow>
      \<not> snd (wps_recycler ps (get_ref_at (sd_ring sd) q))"
  shows "mem_inv cursors (permits_drop B ps sd) t (P - {start_seq ps..end_seq ps})
    (\<lambda>q. if start_seq ps \<le> q \<and> q < next_seq ps \<and> q \<le> end_seq ps then get_ref_at (sd_ring sd) q
         else if next_seq ps \<le> q \<and> q \<le> end_seq ps
         then fst (wps_recycler ps (get_ref_at (sd_ring sd) q)) else h q)"
proof -
  let ?ss = "[next_seq ps..end_seq ps]" and ?S = "{start_seq ps..end_seq ps}"
  have ss: "set ?ss \<subseteq> P" using ab ord by auto
  have "end_seq ps \<noteq> - 1" using ab ord(1) mem_invD(4) [OF inv, of "end_seq ps"] by auto
  obtain sd' pan where loop: "recycle_loop (wps_recycler ps) ?ss sd = (sd', pan)" by fastforce
  note L = recycle_loop_props [OF inv ss distinct_upto loop]
  have pan: "\<not> pan" using L(4) calm by auto
  have "permits_drop B ps sd = sd_commit_range B (start_seq ps) (end_seq ps) sd'"
    using loop pan \<open>end_seq ps \<noteq> - 1\<close> by (simp add: permits_drop_def)
  moreover have "publish_values ?S (sd_ring sd') h =
      (\<lambda>q. if start_seq ps \<le> q \<and> q < next_seq ps \<and> q \<le> end_seq ps then get_ref_at (sd_ring sd) q
         else if next_seq ps \<le> q \<and> q \<le> end_seq ps
         then fst (wps_recycler ps (get_ref_at (sd_ring sd) q)) else h q)"
  proof
    fix q
    have "q \<in> ?S \<Longrightarrow> q \<in> P" using ab by blast
    then show "publish_values ?S (sd_ring sd') h q =
      (if start_seq ps \<le> q \<and> q < next_seq ps \<and> q \<le> end_seq ps then get_ref_at (sd_ring sd) q
         else if next_seq ps \<le> q \<and> q \<le> end_seq ps
         then fst (wps_recycler ps (get_ref_at (sd_ring sd) q)) else h q)"
      using L(5) [of q] pan ord by (auto simp: publish_values_def)
  qed
  ultimately show ?thesis using sd_commit_range_keeps [OF L(1) ab] by simp
qed

lemma permits_drop_panic:
  assumes inv: "mem_inv cursors sd t P h" and ab: "{start_seq ps..end_seq ps} \<subseteq> P"
    and ord: "start_seq ps \<le> end_seq ps" "start_seq ps \<le> next_seq ps"
    and panic: "\<exists>q. next_seq ps \<le> q \<and> q \<le> end_seq ps \<and> snd (wps_recycler ps (get_ref_at (sd_ring sd) q))"
  shows "mem_inv cursors (permits_drop B ps sd) t P h"
    "has_shutdown (claimed (shared (sd_publisher (permits_drop B ps sd))))"
proof -
  let ?ss = "[next_seq ps..end_seq ps]"
  have ss: "set ?ss \<subseteq> P" using ab ord by auto
  have e: "0 \<le> end_seq ps" "end_seq ps \<le> t" using ab ord(1) mem_invD(4) [OF inv, of "end_seq ps"] by auto
  obtain sd' pan where loop: "recycle_loop (wps_recycler ps) ?ss sd = (sd', pan)" by fastforce
  note L = recycle_loop_props [OF inv ss distinct_upto loop]
  have "pan" using L(4) panic by auto
  then have "permits_drop B ps sd = sd_terminate B sd'"
    using loop e by (simp add: permits_drop_def)
  then show "mem_inv cursors (permits_drop B ps sd) t P h"
    "has_shutdown (claimed (shared (sd_publisher (permits_drop B ps sd))))"
    using sd_terminate_keeps [OF L(1)] e by simp_all
qed

lemma permits_drop_publisher:
  assumes inv: "mem_inv cursors sd t P h" and ab: "{start_seq ps..end_seq ps} \<subseteq> P"
    and ord: "start_seq ps \<le> end_seq ps" "start_seq ps \<le> next_seq ps"
  shows "sd_publisher (permits_drop B ps sd) =
    (if \<exists>q. next_seq ps \<le> q \<and> q \<le> end_seq ps \<and> snd (wps_recycler ps (get_ref_at (sd_ring sd) q))
     then mp_terminate B (sd_publisher sd)
     else mp_commit_range B (start_seq ps) (end_seq ps) (sd_publisher sd))"
proof -
  let ?ss = "[next_seq ps..end_seq ps]"
  have ss: "set ?ss \<subseteq> P" using ab ord by auto
  have "end_seq ps \<noteq> - 1" using ab ord(1) mem_invD(4) [OF inv, of "end_seq ps"] by auto
  obtain sd' pan where loop: "recycle_loop (wps_recycler ps) ?ss sd = (sd', pan)" by fastforce
  note L = recycle_loop_props [OF inv ss distinct_upto loop]
  have "pan \<longleftrightarrow> (\<exists>q. next_seq ps \<le> q \<and> q \<le> end_seq ps \<and>
      snd (wps_recycler ps (get_ref_at (sd_ring sd) q)))"
    using L(4) by auto
  then show ?thesis
    using loop L(2) \<open>end_seq ps \<noteq> - 1\<close>
    by (auto simp: permits_drop_def sd_terminate_def sd_commit_range_def)
qed

text \<open>A successful claim as the sender sees it.\<close>

lemma sd_claim_keeps:
  assumes inv: "mem_inv cursors sd t P h" and t: "t < 2 ^ 60" and limit: "1 \<le> limit"
    and claim: "mp_try_claim_at_most B limit (sd_publisher sd) = (Inr (a, b), p')"
  shows "a = t + 1" "a \<le> b" "b \<le> t + limit" "b \<le> t + buffer_size (mp_meta (sd_publisher sd))"
    "mem_inv cursors (sd\<lparr>sd_publisher := p'\<rparr>) b (P \<union> {a..b}) h"
proof -
  note D = mem_invD [OF inv] and C = claim_keeps_inv [OF mem_invD(1) [OF inv] t limit claim]
  show "a = t + 1" "a \<le> b" "b \<le> t + limit" "b \<le> t + buffer_size (mp_meta (sd_publisher sd))"
    using C by blast+
  have "data_inv (sd_ring sd) b (P \<union> {t + 1..b}) h" using D(2) C(1,2) by (intro data_inv_claim) simp_all
  then show "mem_inv cursors (sd\<lparr>sd_publisher := p'\<rparr>) b (P \<union> {a..b}) h"
    using C(1,6,7) D(3) by (simp add: mem_inv_def)
qed

text \<open>\<open>try_send\<close> in each of its outcomes.\<close>

lemma sd_try_send_outcome:
  fixes sd :: "('g, 'a) sender_impl"
  assumes inv: "mem_inv cursors sd t P h" and t: "t < 2 ^ 60"
  shows "fst (sd_try_send B v sd) =
    (if has_shutdown (claimed (shared (sd_publisher sd))) \<or>
        (\<forall>c \<in> set (cursors (consumer_gate (shared (sd_publisher sd)))). c = SHUTDOWN_OPEN)
     then Inl (SendDisconnected v)
     else if ss_seq (max_consumed B (consumer_gate (shared (sd_publisher sd)))) +
        buffer_size (mp_meta (sd_publisher sd)) \<le> t
     then Inl (SendFull v)
     else Inr ())"
    and "fst (sd_try_send B v sd) \<noteq> Inr () \<Longrightarrow> snd (sd_try_send B v sd) = sd"
    and "fst (sd_try_send B v sd) = Inr () \<Longrightarrow>
      mem_inv cursors (snd (sd_try_send B v sd)) (t + 1) P (h(t + 1 := v))"
proof -
  note D = mem_invD [OF inv]
  have eq: "sd_try_send B v sd =
    (if has_shutdown (claimed (shared (sd_publisher sd))) \<or>
        (\<forall>c \<in> set (cursors (consumer_gate (shared (sd_publisher sd)))). c = SHUTDOWN_OPEN)
     then (Inl (SendDisconnected v), sd)
     else if ss_seq (max_consumed B (consumer_gate (shared (sd_publisher sd)))) +
        buffer_size (mp_meta (sd_publisher sd)) \<le> t
     then (Inl (SendFull v), sd)
     else (Inr (), snd (sd_try_send B v sd)))"
    unfolding sd_try_send_def mp_try_claim_def claim_outcome [OF D(1), of 1, simplified]
    by (auto simp: Let_def)
  then show fst_eq: "fst (sd_try_send B v sd) =
    (if has_shutdown (claimed (shared (sd_publisher sd))) \<or>
        (\<forall>c \<in> set (cursors (consumer_gate (shared (sd_publisher sd)))). c = SHUTDOWN_OPEN)
     then Inl (SendDisconnected v)
     else if ss_seq (max_consumed B (consumer_gate (shared (sd_publisher sd)))) +
        buffer_size (mp_meta (sd_publisher sd)) \<le> t
     then Inl (SendFull v)
     else Inr ())"
    by (metis fst_conv)
  show "fst (sd_try_send B v sd) \<noteq> Inr () \<Longrightarrow> snd (sd_try_send B v sd) = sd"
    using eq fst_eq by (metis snd_conv)
  assume ok: "fst (sd_try_send B v sd) = Inr ()"
  obtain r p' where claim: "mp_try_claim_at_most B 1 (sd_publisher sd) = (r, p')" by fastforce
  then obtain a b where r: "r = Inr (a, b)"
    using ok by (cases r) (auto simp: sd_try_send_def mp_try_claim_def split: try_claim_error.splits)
  note C = sd_claim_keeps [OF inv t _ claim [unfolded r], simplified]
  let ?sd = "sd\<lparr>sd_publisher := p'\<rparr>"
  have b: "b = t + 1" "a = b" using C(1-3) by simp_all
  have inv1: "mem_inv cursors ?sd b (P \<union> {b}) h" using C(5) b by simp
  have new: "b \<notin> P" using D(4) [of b] b by auto
  have inv2: "mem_inv cursors (sd_write_slot b v ?sd) b (P \<union> {b}) h"
    using inv1 by (rule mem_inv_write) simp
  have get: "get_ref_at (sd_ring (sd_write_slot b v ?sd)) b = v"
    using get_write_slot [OF inv1, of b b v] mem_invD(4) [OF inv1, of b] by simp
  have "snd (sd_try_send B v sd) = sd_commit B b (sd_write_slot b v ?sd)"
    using claim r b by (simp add: sd_try_send_def mp_try_claim_def)
  moreover have "publish_values {b} (sd_ring (sd_write_slot b v ?sd)) h = h(b := v)"
    using get by (auto simp: publish_values_def)
  moreover have "P \<union> {b} - {b} = P" using new by auto
  ultimately show "mem_inv cursors (snd (sd_try_send B v sd)) (t + 1) P (h(t + 1 := v))"
    using sd_commit_keeps [OF inv2, of b] b(1) by simp
qed

end

end
