(* ===== verification/ReceiverCorrect.thy ===== *)
theory ReceiverCorrect
  imports SenderCorrect
begin

text \<open>
  What the receiving side does to the shared memory. A receiver's topology gives it a cursor of
  the gate; the locale \<open>topology_contract\<close> states that wiring, for both channels, and the lemmas
  in it describe a receive, the values read through its guard and the drop of the guard.
\<close>

section \<open>The wiring of receivers\<close>

locale topology_contract = consumer_gate_contract "barrier T" cursors
  for T :: "('g, 'w) topology" and cursors :: "'g \<Rightarrow> cursor list" +
  assumes cursor_at_nth: "i < length (cursors g) \<Longrightarrow> cursor_at T g i = cursors g ! i"
    and cursors_set_cursor: "i < length (cursors g) \<Longrightarrow> cursors (set_cursor T i c g) = (cursors g)[i := c]"
    and cursors_set_waker: "cursors (set_waker T i w g) = cursors g"

interpretation mpsc_wiring: topology_contract "mpsc wake" "\<lambda>g. [ex_consumed g]" for wake
proof (unfold_locales)
qed (auto simp: mpsc_def ex_barrier_def ex_max_consumed_def ex_notify_def cursor_load_def
    is_shutdown_open_def Let_def)

interpretation fan_wiring: topology_contract "fanout wake" fan_consumed for wake
proof (rule topology_contract.intro)
  show "consumer_gate_contract (barrier (fanout wake)) fan_consumed"
    using fan_gate.consumer_gate_contract_axioms by (simp add: fanout_def)
  show "topology_contract_axioms (fanout wake) fan_consumed"
    by unfold_locales (simp_all add: fanout_def)
qed

section \<open>Storing a receiver's view\<close>

lemma gate_of_set_gate [simp]: "gate_of (set_gate g ch) = g"
  by (simp add: gate_of_def set_gate_def)

lemma frame_set_gate [simp]:
  "slot_states (shared (sd_publisher (sender (set_gate g ch)))) =
     slot_states (shared (sd_publisher (sender ch)))"
  "claimed (shared (sd_publisher (sender (set_gate g ch)))) = claimed (shared (sd_publisher (sender ch)))"
  "ss_buffer_size (shared (sd_publisher (sender (set_gate g ch)))) =
     ss_buffer_size (shared (sd_publisher (sender ch)))"
  "consumer_gate (shared (sd_publisher (sender (set_gate g ch)))) = g"
  "mp_meta (sd_publisher (sender (set_gate g ch))) = mp_meta (sd_publisher (sender ch))"
  "sd_ring (sender (set_gate g ch)) = sd_ring (sender ch)"
  "sender_count (set_gate g ch) = sender_count ch"
  by (simp_all add: set_gate_def)

text \<open>Moving cursors keeps the invariant as long as the new cursors are sound.\<close>

lemma mem_inv_set_gate:
  assumes "mem_inv cursors (sender ch) t P h"
    and "cursors_inv (buffer_size (mp_meta (sd_publisher (sender ch)))) t P (cursors g)"
  shows "mem_inv cursors (sender (set_gate g ch)) t P h"
  using assms by (simp add: mem_inv_def pub_inv_def)

context topology_contract
begin

text \<open>What receiver \<open>i\<close>'s sequencer is made of.\<close>

lemma view_parts:
  "i < length (cursors (gate_of ch)) \<Longrightarrow> consumed (view T i ch) = cursors (gate_of ch) ! i"
  "gate_states (producer_gate (view T i ch)) = slot_states (shared (sd_publisher (sender ch)))"
  "cs_meta (view T i ch) = mp_meta (sd_publisher (sender ch))"
  by (simp_all add: view_def cs_new_def publisher_gate_def cursor_at_nth)

lemma mem_cursor:
  assumes "mem_inv cursors (sender ch) t P h" "i < length (cursors (gate_of ch))"
    and "cursors (gate_of ch) ! i \<noteq> SHUTDOWN_OPEN"
  shows "live_cursor (buffer_size (mp_meta (sd_publisher (sender ch)))) t P (cursors (gate_of ch) ! i)"
  using pub_invD(3) [OF mem_invD(1) [OF assms(1)]] assms(2,3)
  by (auto simp: cursors_inv_def gate_of_def)

text \<open>A receive in each of its outcomes. \<open>c\<close> is the receiver's position.\<close>

lemma recv_outcome:
  fixes ch :: "('g, 'a) channel" and i :: nat
  defines "c \<equiv> cursors (gate_of ch) ! i" and "st \<equiv> slot_states (shared (sd_publisher (sender ch)))"
  assumes inv: "mem_inv cursors (sender ch) t P h"
    and i: "i < length (cursors (gate_of ch))" "c \<noteq> SHUTDOWN_OPEN" and limit: "1 \<le> limit"
  shows "cs_try_claim_at_most max_published limit (view T i ch) =
    (if c < frontier t P
     then Inr (c + 1, min (frontier t P) (c + min limit (ring_size st)))
     else if marked st (c + 1) then Inl ClaimShutdown else Inl ClaimEmpty)"
proof -
  note D = pub_invD [OF mem_invD(1) [OF inv]] and V = view_parts(1) [OF i(1)] view_parts(2,3) [of i ch]
  note F = flags_invD [OF D(1)]
  have live: "live_cursor (ring_size st) t P c"
    using mem_cursor [OF inv i(1)] i(2) D(4) by (simp add: c_def st_def)
  have c: "c \<le> frontier t P" "t - ring_size st \<le> c" "- 1 \<le> c" "c < 2 ^ 61"
    using live live_cursor_frontier [OF D(1), of "ring_size st" c] F(3)
    by (auto simp: live_cursor_def)
  let ?n = "min limit (ring_size st)"
  have n: "1 \<le> ?n" "?n \<le> ring_size st" using limit F(6) by (auto simp: st_def)
  note R = last_run_frontier [OF D(1), folded st_def, OF c(2,1) n]
  have "cs_try_claim_at_most max_published limit (view T i ch) =
    (if published st (c + 1) then Inr (c + 1, last_run (published st) (c + 1) (c + ?n))
     else if marked st (c + 1) then Inl ClaimShutdown else Inl ClaimEmpty)"
    using c D limit V
    by (subst pub_gate.claim_outcome) (simp_all add: c_def st_def Let_def)
  then show ?thesis using R by simp
qed

text \<open>The values a guard gives access to.\<close>

lemma recv_value:
  assumes inv: "mem_inv cursors (sender ch) t P h"
    and i: "i < length (cursors (gate_of ch))" "cursors (gate_of ch) ! i \<noteq> SHUTDOWN_OPEN"
    and q: "cursors (gate_of ch) ! i < q" "q \<le> frontier t P"
  shows "get_ref_at (sd_ring (sender ch)) q = h q"
proof -
  note D = mem_invD [OF inv] and F = frontier_props [OF pub_invD(1) [OF mem_invD(1) [OF inv]]]
  have "q \<notin> P" using F(2) q(2) by force
  moreover have "t - buffer_size (rb_meta (sd_ring (sender ch))) < q" "0 \<le> q" "q \<le> t"
    using mem_cursor [OF inv i] q F(1) D(3) by (auto simp: live_cursor_def)
  ultimately show ?thesis using D(2) by (simp add: data_inv_def)
qed

text \<open>Releasing what was received moves the receiver's cursor and nothing else; so does the drop
  of the receiver.\<close>

lemma store_view_cursors:
  "i < length (cursors (gate_of ch)) \<Longrightarrow>
     cursors (gate_of (store_view T i c ch)) = (cursors (gate_of ch))[i := consumed c]"
  by (simp add: store_view_def cursors_set_waker cursors_set_cursor)

lemma store_view_keeps:
  assumes inv: "mem_inv cursors (sender ch) t P h" and i: "i < length (cursors (gate_of ch))"
    and c: "consumed c = SHUTDOWN_OPEN \<or>
      live_cursor (buffer_size (mp_meta (sd_publisher (sender ch)))) t P (consumed c)"
  shows "mem_inv cursors (sender (store_view T i c ch)) t P h"
  unfolding store_view_def
proof (rule mem_inv_set_gate [OF inv])
  have "cursors_inv (buffer_size (mp_meta (sd_publisher (sender ch)))) t P (cursors (gate_of ch))"
    using pub_invD(3) [OF mem_invD(1) [OF inv]] by (simp add: gate_of_def)
  then show "cursors_inv (buffer_size (mp_meta (sd_publisher (sender ch)))) t P
      (cursors (set_waker T i (cs_waker c) (set_cursor T i (consumed c) (gate_of ch))))"
    using i c by (simp add: cursors_set_waker cursors_set_cursor cursors_inv_update)
qed

lemma commit_position_live:
  assumes inv: "mem_inv cursors (sender ch) t P h" and i: "i < length (cursors (gate_of ch))"
    "cursors (gate_of ch) ! i \<noteq> SHUTDOWN_OPEN"
    and s: "cursors (gate_of ch) ! i \<le> s" "s \<le> frontier t P"
  shows "live_cursor (buffer_size (mp_meta (sd_publisher (sender ch)))) t P s"
  using mem_cursor [OF inv i] s pub_invD(1) [OF mem_invD(1) [OF inv]]
  by (intro live_cursorI) (auto simp: live_cursor_def)

end

end
