(* ===== verification/Queues.thy ===== *)
theory Queues
  imports Errors
begin

text \<open>
  The abstract specification of a channel, for callers that use it one call at a time: every
  receiver has a queue, a send appends to the queues of all receivers still there, and a receive
  takes from the front of one. No ring, sequence numbers, flags or cursors appear in it. The theory
  \<open>Refinement\<close> proves that both channels implement it; the lemmas here are about the specification:
  what a receiver gets is, in order and without gaps, what the senders published.
\<close>

section \<open>Calls and answers\<close>

text \<open>
  \<open>Reserve d item\<close> reserves a slot, whose recycler is \<open>reset_with\<close> of a function that returns
  \<open>d\<close> (\<open>None\<close>: it panics), and writes \<open>item\<close> or drops the permit; \<open>SendMany limit d vs\<close> reserves a
  batch, writes \<open>vs\<close> as far as it goes and commits. A receive copies the items out of the guard
  and drops it.
\<close>

datatype 'a call =
    Send 'a
  | Reserve "'a option" "'a option"
  | SendMany usize "'a option" "'a list"
  | Recv nat
  | RecvMany nat usize
  | CloneSender
  | DropSender
  | DropReceiver nat

datatype 'a answer =
    Sent "'a try_send_error + unit"
  | Reserved "try_reserve_error + unit"
  | SentMany "try_send_at_most_error + usize"
  | Received "try_recv_error + 'a"
  | ReceivedMany "try_recv_error + 'a list"
  | Done

section \<open>The specification\<close>

record 'a spec =
  capacity :: nat
  queues :: "'a list option list"
  senders :: nat
  closed :: bool

definition spec_new :: "nat \<Rightarrow> nat \<Rightarrow> 'a spec" where
  "spec_new receivers cap =
     \<lparr>capacity = cap, queues = replicate receivers (Some []), senders = 1, closed = False\<rparr>"

text \<open>The longest queue of a receiver still there.\<close>

fun lag :: "'a list option list \<Rightarrow> nat" where
  "lag [] = 0"
| "lag (None # qs) = lag qs"
| "lag (Some xs # qs) = max (length xs) (lag qs)"

definition append_all :: "'a list \<Rightarrow> 'a spec \<Rightarrow> 'a spec" where
  "append_all vs s = s\<lparr>queues := map (map_option (\<lambda>q. q @ vs)) (queues s)\<rparr>"

definition spec_claim :: "nat \<Rightarrow> 'a spec \<Rightarrow> try_claim_error + nat" where
  "spec_claim limit s =
     (if closed s \<or> (\<forall>q \<in> set (queues s). q = None) then Inl ClaimShutdown
      else if capacity s \<le> lag (queues s) then Inl ClaimEmpty
      else Inr (min (capacity s - lag (queues s)) limit))"

text \<open>Filling \<open>n\<close> reserved slots: with \<open>vs\<close>, and the recycler's value behind them. A recycler
  that panics closes the channel and the batch is lost.\<close>

definition batch_items :: "'a option \<Rightarrow> 'a list \<Rightarrow> nat \<Rightarrow> 'a list option" where
  "batch_items d vs n =
     (if n \<le> length vs then Some (take n vs)
      else map_option (\<lambda>w. vs @ replicate (n - length vs) w) d)"

definition publish_items :: "'a list option \<Rightarrow> 'a spec \<Rightarrow> 'a spec" where
  "publish_items items s =
     (case items of Some vs \<Rightarrow> append_all vs s | None \<Rightarrow> s\<lparr>closed := True\<rparr>)"

definition empty_error :: "'a spec \<Rightarrow> try_recv_error" where
  "empty_error s = (if closed s then RecvDisconnected else RecvEmpty)"

fun spec_perform :: "'a call \<Rightarrow> 'a spec \<Rightarrow> 'a answer \<times> 'a spec" where
  "spec_perform (Send v) s =
     (case spec_claim 1 s of
        Inl ClaimShutdown \<Rightarrow> (Sent (Inl (SendDisconnected v)), s)
      | Inl ClaimEmpty \<Rightarrow> (Sent (Inl (SendFull v)), s)
      | Inr _ \<Rightarrow> (Sent (Inr ()), append_all [v] s))"
| "spec_perform (Reserve d item) s =
     (case spec_claim 1 s of
        Inl e \<Rightarrow> (Reserved (Inl (reserve_error_of e)), s)
      | Inr _ \<Rightarrow> (Reserved (Inr ()), publish_items (batch_items d (case item of None \<Rightarrow> [] | Some v \<Rightarrow> [v]) 1) s))"
| "spec_perform (SendMany limit d vs) s =
     (if limit = 0 then (SentMany (Inr 0), s)
      else
        case spec_claim limit s of
          Inl e \<Rightarrow> (SentMany (Inl (at_most_error_of e)), s)
        | Inr n \<Rightarrow> (SentMany (Inr n), publish_items (batch_items d vs n) s))"
| "spec_perform (Recv i) s =
     (case queues s ! i of
        Some (x # xs) \<Rightarrow> (Received (Inr x), s\<lparr>queues := (queues s)[i := Some xs]\<rparr>)
      | _ \<Rightarrow> (Received (Inl (empty_error s)), s))"
| "spec_perform (RecvMany i limit) s =
     (if limit = 0 then (ReceivedMany (Inr []), s)
      else
        case queues s ! i of
          Some (x # xs) \<Rightarrow>
            (ReceivedMany (Inr (take limit (x # xs))),
             s\<lparr>queues := (queues s)[i := Some (drop limit (x # xs))]\<rparr>)
        | _ \<Rightarrow> (ReceivedMany (Inl (empty_error s)), s))"
| "spec_perform CloneSender s = (Done, s\<lparr>senders := senders s + 1\<rparr>)"
| "spec_perform DropSender s =
     (Done, s\<lparr>senders := senders s - 1, closed := closed s \<or> senders s - 1 = 0\<rparr>)"
| "spec_perform (DropReceiver i) s = (Done, s\<lparr>queues := (queues s)[i := None]\<rparr>)"

text \<open>
  Which calls a program can make: a sender's need a \<open>Sender\<close> that was not dropped, a receiver's
  the \<open>Receiver\<close>. The limits are those the cast to \<open>i64\<close> keeps positive.
\<close>

definition receiver_there :: "nat \<Rightarrow> 'a spec \<Rightarrow> bool" where
  "receiver_there i s \<longleftrightarrow> i < length (queues s) \<and> queues s ! i \<noteq> None"

fun call_ok :: "'a call \<Rightarrow> 'a spec \<Rightarrow> bool" where
  "call_ok (Send v) s \<longleftrightarrow> 0 < senders s"
| "call_ok (Reserve d item) s \<longleftrightarrow> 0 < senders s"
| "call_ok (SendMany limit d vs) s \<longleftrightarrow> 0 < senders s \<and> int limit < 2 ^ 63"
| "call_ok (Recv i) s \<longleftrightarrow> receiver_there i s"
| "call_ok (RecvMany i limit) s \<longleftrightarrow> receiver_there i s \<and> int limit < 2 ^ 63"
| "call_ok CloneSender s \<longleftrightarrow> 0 < senders s"
| "call_ok DropSender s \<longleftrightarrow> 0 < senders s"
| "call_ok (DropReceiver i) s \<longleftrightarrow> receiver_there i s"

text \<open>A sequence of calls with its answers, newest last.\<close>

fun spec_run :: "'a call list \<Rightarrow> 'a spec \<Rightarrow> 'a answer list \<times> 'a spec" where
  "spec_run [] s = ([], s)"
| "spec_run (call # calls) s =
     (let (a, s1) = spec_perform call s; (as, s2) = spec_run calls s1 in (a # as, s2))"

fun calls_ok :: "'a call list \<Rightarrow> 'a spec \<Rightarrow> bool" where
  "calls_ok [] s \<longleftrightarrow> True"
| "calls_ok (call # calls) s \<longleftrightarrow> call_ok call s \<and> calls_ok calls (snd (spec_perform call s))"

section \<open>First in, first out\<close>

text \<open>What a call with its answer published, and what it delivered to receiver \<open>i\<close>.\<close>

fun accepted :: "'a call \<Rightarrow> 'a answer \<Rightarrow> 'a list" where
  "accepted (Send v) (Sent (Inr u)) = [v]"
| "accepted (Reserve d item) (Reserved (Inr u)) =
     (case batch_items d (case item of None \<Rightarrow> [] | Some v \<Rightarrow> [v]) 1 of None \<Rightarrow> [] | Some vs \<Rightarrow> vs)"
| "accepted (SendMany limit d vs) (SentMany (Inr n)) =
     (case batch_items d vs n of None \<Rightarrow> [] | Some ws \<Rightarrow> ws)"
| "accepted _ _ = []"

fun delivered :: "nat \<Rightarrow> 'a call \<Rightarrow> 'a answer \<Rightarrow> 'a list" where
  "delivered i (Recv j) (Received (Inr x)) = (if i = j then [x] else [])"
| "delivered i (RecvMany j limit) (ReceivedMany (Inr xs)) = (if i = j then xs else [])"
| "delivered i _ _ = []"

definition all_accepted :: "'a call list \<Rightarrow> 'a answer list \<Rightarrow> 'a list" where
  "all_accepted calls as = concat (map2 accepted calls as)"

definition all_delivered :: "nat \<Rightarrow> 'a call list \<Rightarrow> 'a answer list \<Rightarrow> 'a list" where
  "all_delivered i calls as = concat (map2 (delivered i) calls as)"

lemma nth_append_all:
  "i < length (queues s) \<Longrightarrow> queues (append_all vs s) ! i = map_option (\<lambda>q. q @ vs) (queues s ! i)"
  by (simp add: append_all_def)

lemma queues_publish_items:
  "queues (publish_items items s) = queues (append_all (case items of None \<Rightarrow> [] | Some vs \<Rightarrow> vs) s)"
  by (auto simp: publish_items_def append_all_def map_idI option.map_ident split: option.split)

lemma length_queues_publish_items [simp]:
  "length (queues (publish_items items s)) = length (queues s)"
  by (simp add: queues_publish_items append_all_def)

lemma length_queues_perform:
  "length (queues (snd (spec_perform call s))) = length (queues s)"
  by (cases call) (auto simp: append_all_def split: sum.splits try_claim_error.splits option.splits list.splits)

text \<open>One call: what it delivers to receiver \<open>i\<close>, with what is left in the queue, is the queue
  before it with what was published.\<close>

lemma spec_perform_fifo:
  assumes "call_ok call s" "i < length (queues s)" "queues s ! i = Some q"
    and "spec_perform call s = (a, s')"
  shows "queues s' ! i = None \<and> call = DropReceiver i \<or>
    (\<exists>q'. queues s' ! i = Some q' \<and> delivered i call a @ q' = q @ accepted call a)"
proof (cases call)
  case (Recv j)
  then show ?thesis using assms by (auto simp: nth_list_update split: option.splits list.splits)
next
  case (RecvMany j limit)
  then show ?thesis using assms
    by (auto simp: nth_list_update batch_items_def split: option.splits list.splits if_splits
        intro: append_take_drop_id)
next
  case (DropReceiver j)
  then show ?thesis using assms by (cases "j = i") auto
next
  case (SendMany limit d vs)
  then show ?thesis using assms
    by (auto simp: queues_publish_items nth_append_all batch_items_def split: sum.splits if_splits)
qed (use assms in \<open>auto simp: queues_publish_items nth_append_all nth_list_update
    split: sum.splits try_claim_error.splits\<close>)

lemma spec_run_fifo:
  assumes "calls_ok calls s" "i < length (queues s)" "queues s ! i = Some q"
    and "DropReceiver i \<notin> set calls" "spec_run calls s = (as, s')"
  shows "\<exists>q'. queues s' ! i = Some q' \<and> all_delivered i calls as @ q' = q @ all_accepted calls as"
  using assms
proof (induction calls arbitrary: s q as)
  case (Cons call calls)
  obtain a s1 where step: "spec_perform call s = (a, s1)" by fastforce
  obtain bs where run: "spec_run calls s1 = (bs, s')" "as = a # bs"
    using Cons.prems(5) step by (auto split: prod.splits)
  have len: "length (queues s1) = length (queues s)"
    using length_queues_perform [of call s] step by simp
  obtain q1 where q1: "queues s1 ! i = Some q1" "delivered i call a @ q1 = q @ accepted call a"
    using spec_perform_fifo [of call s i q a s1] Cons.prems step by auto
  obtain q' where q': "queues s' ! i = Some q'" "all_delivered i calls bs @ q' = q1 @ all_accepted calls bs"
    using Cons.IH [of s1 q1 bs] Cons.prems step run q1(1) len by auto
  have "delivered i call a @ all_delivered i calls bs @ q' = q @ accepted call a @ all_accepted calls bs"
    using q1(2) q'(2) by (metis append.assoc)
  then show ?case using q'(1) run(2) by (simp add: all_delivered_def all_accepted_def)
qed (simp add: all_delivered_def all_accepted_def)

text \<open>The queues never exceed the capacity.\<close>

lemma lag_le: "Some xs \<in> set qs \<Longrightarrow> length xs \<le> lag qs"
  by (induction qs rule: lag.induct) auto

lemma lag_eqI:
  "Some xs \<in> set qs \<Longrightarrow> (\<And>ys. Some ys \<in> set qs \<Longrightarrow> length ys \<le> length xs) \<Longrightarrow> lag qs = length xs"
proof -
  assume xs: "Some xs \<in> set qs" and le: "\<And>ys. Some ys \<in> set qs \<Longrightarrow> length ys \<le> length xs"
  have "lag qs \<le> n" if "\<And>ys. Some ys \<in> set qs \<Longrightarrow> length ys \<le> n" for n
    using that by (induction qs rule: lag.induct) auto
  from this [OF le] lag_le [OF xs] show ?thesis by simp
qed

end
