(* ===== verification/Refinement.thy ===== *)
theory Refinement
  imports ReceiverCorrect Queues
begin

text \<open>
  The channels implement the specification of \<open>Queues\<close>. \<open>abs_channel\<close> reads the specification's
  state off a channel's memory: the queue of a receiver is what the ring holds between its cursor
  and the end of what is published, and the channel is closed when the slot behind that end
  carries the shutdown marker. The theorems say that a call on the memory and the call on the
  specification commute with it; they are proved once, for every topology that meets its
  contract.
\<close>

section \<open>Calls on a channel\<close>

text \<open>A client's use of the operations of \<open>Channels\<close>: each is a call of \<open>Queues\<close>.\<close>

fun write_all where
  "write_all T ps [] ch = (ps, ch)"
| "write_all T ps (v # vs) ch =
     (case permits_next ps of
        (None, ps') \<Rightarrow> (ps', ch)
      | (Some p, ps') \<Rightarrow> write_all T ps' vs (batch_write T ps' v p ch))"

fun read_all :: "nat \<Rightarrow> read_batch_iter \<Rightarrow> ('g, 'a) channel \<Rightarrow> 'a list option" where
  "read_all 0 it ch = None"
| "read_all (Suc fuel) it ch =
     (case refs_iter_next it ch of
        (None, it') \<Rightarrow> Some []
      | (Some x, it') \<Rightarrow> map_option ((#) x) (read_all fuel it' ch))"

definition reset_to :: "'a option \<Rightarrow> 'a recycler" where
  "reset_to d = reset_with (\<lambda>_. d)"

fun perform :: "('g, 'w) topology \<Rightarrow> 'a call \<Rightarrow> ('g, 'a) channel \<Rightarrow> 'a answer \<times> ('g, 'a) channel" where
  "perform T (Send v) ch = (case try_send T v ch of (r, ch') \<Rightarrow> (Sent r, ch'))"
| "perform T (Reserve d item) ch =
     (case try_reserve T (reset_to d) ch of
        (Inl e, ch') \<Rightarrow> (Reserved (Inl e), ch')
      | (Inr p, ch') \<Rightarrow>
          (Reserved (Inr ()),
           case item of Some v \<Rightarrow> permit_write T v p ch' | None \<Rightarrow> permit_drop T p ch'))"
| "perform T (SendMany limit d vs) ch =
     (case try_send_at_most T limit (reset_to d) ch of
        (Inl e, ch') \<Rightarrow> (SentMany (Inl e), ch')
      | (Inr ps, ch') \<Rightarrow>
          (SentMany (Inr (permits_total_reserved ps)),
           case write_all T ps vs ch' of (ps', ch'') \<Rightarrow> batch_commit T ps' ch''))"
| "perform T (Recv i) ch =
     (case try_recv T i ch of
        Inl e \<Rightarrow> (Received (Inl e), ch)
      | Inr r \<Rightarrow> (Received (Inr (ref_deref r ch)), ref_finish T i r ch))"
| "perform T (RecvMany i limit) ch =
     (case try_recv_at_most T i limit ch of
        Inl e \<Rightarrow> (ReceivedMany (Inl e), ch)
      | Inr r \<Rightarrow>
          (case read_all (nat (rrs_end_seq r - rrs_start_seq r + 2)) (read_refs_iter r) ch of
             None \<Rightarrow> (Done, ch)
           | Some xs \<Rightarrow> (ReceivedMany (Inr xs), refs_finish T i r ch)))"
| "perform T CloneSender ch = (Done, sender_clone ch)"
| "perform T DropSender ch = (Done, sender_drop T ch)"
| "perform T (DropReceiver i) ch = (Done, receiver_drop T i ch)"

fun run :: "('g, 'w) topology \<Rightarrow> 'a call list \<Rightarrow> ('g, 'a) channel \<Rightarrow> 'a answer list \<times> ('g, 'a) channel" where
  "run T [] ch = ([], ch)"
| "run T (call # calls) ch =
     (let (a, ch1) = perform T call ch; (as, ch2) = run T calls ch1 in (a # as, ch2))"

section \<open>The abstraction\<close>

abbreviation states_of :: "('g, 'a) channel \<Rightarrow> u32_slot_states" where
  "states_of ch \<equiv> slot_states (shared (sd_publisher (sender ch)))"

abbreviation claimed_of :: "('g, 'a) channel \<Rightarrow> cursor" where
  "claimed_of ch \<equiv> claimed (shared (sd_publisher (sender ch)))"

definition top_of :: "('g, 'a) channel \<Rightarrow> sequence" where
  "top_of ch = close_boundary (shared (sd_publisher (sender ch))) - 1"

definition abs_queue :: "'a ring_buffer \<Rightarrow> sequence \<Rightarrow> cursor \<Rightarrow> 'a list option" where
  "abs_queue rb stop c =
     (if is_shutdown_open c then None else Some (map (get_ref_at rb) [c + 1..stop]))"

definition abs_channel :: "('g \<Rightarrow> cursor list) \<Rightarrow> ('g, 'a) channel \<Rightarrow> 'a spec" where
  "abs_channel cursors ch =
     \<lparr>capacity = nat (buffer_size (mp_meta (sd_publisher (sender ch)))),
      queues = map (abs_queue (sd_ring (sender ch)) (top_of ch)) (cursors (gate_of ch)),
      senders = sender_count ch, closed = marked (states_of ch) (top_of ch + 1)\<rparr>"

text \<open>The memory between calls: \<open>t\<close> is claimed, and \<open>P\<close> was given up by a recycler that
  panicked. An open channel has nothing pending.\<close>

definition open_at :: "('g, 'a) channel \<Rightarrow> int \<Rightarrow> int set \<Rightarrow> bool" where
  "open_at ch t P \<longleftrightarrow> P = {} \<and> quiet (sd_publisher (sender ch)) \<and> claimed_of ch = t \<and> 0 < sender_count ch"

definition closed_at :: "('g, 'a) channel \<Rightarrow> int \<Rightarrow> int set \<Rightarrow> bool" where
  "closed_at ch t P \<longleftrightarrow> marked (states_of ch) (frontier t P + 1) \<and> claimed_tight (claimed_of ch) t \<and>
     (if 0 \<le> t then has_shutdown (claimed_of ch) else sender_count ch = 0)"

definition chan_inv :: "('g \<Rightarrow> cursor list) \<Rightarrow> ('g, 'a) channel \<Rightarrow> int \<Rightarrow> int set \<Rightarrow> bool" where
  "chan_inv cursors ch t P \<longleftrightarrow>
     mem_inv cursors (sender ch) t P (get_ref_at (sd_ring (sender ch))) \<and> (open_at ch t P \<or> closed_at ch t P)"

lemma chan_inv_tight: "chan_inv cursors ch t P \<Longrightarrow> claimed_tight (claimed_of ch) t"
  by (auto simp: chan_inv_def open_at_def closed_at_def claimed_tight_def)

lemma chan_invD:
  assumes "chan_inv cursors ch t P"
  shows "mem_inv cursors (sender ch) t P (get_ref_at (sd_ring (sender ch)))"
    "pub_inv (cursors (gate_of ch)) (sd_publisher (sender ch)) t P"
    "top_of ch = frontier t P" "closed (abs_channel cursors ch) \<longleftrightarrow> closed_at ch t P"
    "\<not> closed_at ch t P \<Longrightarrow> open_at ch t P"
proof -
  show m: "mem_inv cursors (sender ch) t P (get_ref_at (sd_ring (sender ch)))"
    using assms by (simp add: chan_inv_def)
  show p: "pub_inv (cursors (gate_of ch)) (sd_publisher (sender ch)) t P"
    using mem_invD(1) [OF m] by (simp add: gate_of_def)
  show stop: "top_of ch = frontier t P"
    using close_boundary_eq [OF p chan_inv_tight [OF assms]] by (simp add: top_of_def)
  show "closed (abs_channel cursors ch) \<longleftrightarrow> closed_at ch t P"
    using assms by (auto simp: abs_channel_def stop chan_inv_def open_at_def quiet_def closed_at_def)
  show "\<not> closed_at ch t P \<Longrightarrow> open_at ch t P"
    using assms by (simp add: chan_inv_def)
qed

lemma mem_inv_own:
  "mem_inv cursors sd t P h \<Longrightarrow> mem_inv cursors sd t P (get_ref_at (sd_ring sd))"
  by (simp add: mem_inv_def data_inv_def)

text \<open>The queue of a receiver, by the values published.\<close>

lemma abs_queue_eq:
  assumes inv: "mem_inv cursors sd t P h"
    and c: "c = SHUTDOWN_OPEN \<or> live_cursor (buffer_size (mp_meta (sd_publisher sd))) t P c"
  shows "abs_queue (sd_ring sd) (frontier t P) c =
    (if c = SHUTDOWN_OPEN then None else Some (map h [c + 1..frontier t P]))"
proof -
  note D = mem_invD [OF inv] and F = frontier_props [OF pub_invD(1) [OF mem_invD(1) [OF inv]]]
  have "get_ref_at (sd_ring sd) q = h q" if "live_cursor (buffer_size (mp_meta (sd_publisher sd))) t P c"
    "c + 1 \<le> q" "q \<le> frontier t P" for q
  proof -
    have "q \<notin> P" using F(2) that(3) by force
    moreover have "t - buffer_size (rb_meta (sd_ring sd)) < q" "0 \<le> q" "q \<le> t"
      using that F(1) D(3) by (auto simp: live_cursor_def)
    ultimately show ?thesis using D(2) by (simp add: data_inv_def)
  qed
  then show ?thesis using c by (auto simp: abs_queue_def is_shutdown_open_def)
qed

section \<open>Receivers\<close>

lemma upto_take: "take n' [a..b] = [a..min b (a + int n' - 1)]"
proof (induction n' arbitrary: a)
  case (Suc k)
  then show ?case by (cases "a \<le> b") (simp_all add: upto_step algebra_simps)
qed simp

lemma upto_drop: "drop n [a..b] = [a + int n..b]"
proof (induction n arbitrary: a)
  case (Suc k)
  then show ?case by (cases "a \<le> b") (simp_all add: upto_step algebra_simps)
qed simp

lemma store_view_parts [simp]:
  "claimed_of (store_view T i c ch) = claimed_of ch" "states_of (store_view T i c ch) = states_of ch"
  "mp_meta (sd_publisher (sender (store_view T i c ch))) = mp_meta (sd_publisher (sender ch))"
  "sd_ring (sender (store_view T i c ch)) = sd_ring (sender ch)"
  "sender_count (store_view T i c ch) = sender_count ch"
  by (simp_all add: store_view_def)

context topology_contract
begin

lemma store_view_refines:
  assumes inv: "chan_inv cursors ch t P" and i: "i < length (cursors (gate_of ch))"
    and c: "consumed c = SHUTDOWN_OPEN \<or>
      live_cursor (buffer_size (mp_meta (sd_publisher (sender ch)))) t P (consumed c)"
  shows "chan_inv cursors (store_view T i c ch) t P"
    "abs_channel cursors (store_view T i c ch) =
      (abs_channel cursors ch)\<lparr>queues := (queues (abs_channel cursors ch))
        [i := abs_queue (sd_ring (sender ch)) (frontier t P) (consumed c)]\<rparr>"
proof -
  have "open_at (store_view T i c ch) t P = open_at ch t P" "closed_at (store_view T i c ch) t P = closed_at ch t P"
    by (simp_all add: open_at_def closed_at_def quiet_def)
  then show inv': "chan_inv cursors (store_view T i c ch) t P"
    using store_view_keeps [OF chan_invD(1) [OF inv] i c] inv by (simp add: chan_inv_def)
  show "abs_channel cursors (store_view T i c ch) =
      (abs_channel cursors ch)\<lparr>queues := (queues (abs_channel cursors ch))
        [i := abs_queue (sd_ring (sender ch)) (frontier t P) (consumed c)]\<rparr>"
    by (simp add: abs_channel_def chan_invD(3) [OF inv] chan_invD(3) [OF inv'] store_view_cursors [OF i]
        map_update)
qed

lemma abs_receiver:
  assumes "chan_inv cursors ch t P" "receiver_there i (abs_channel cursors ch)"
  shows "i < length (cursors (gate_of ch))" "cursors (gate_of ch) ! i \<noteq> SHUTDOWN_OPEN"
    "queues (abs_channel cursors ch) ! i =
      Some (map (get_ref_at (sd_ring (sender ch))) [cursors (gate_of ch) ! i + 1..frontier t P])"
  using assms chan_invD(3) [OF assms(1)]
  by (auto simp: receiver_there_def abs_channel_def abs_queue_def is_shutdown_open_def split: if_splits)

text \<open>A claim of the receiver, by its queue.\<close>

lemma recv_claim_refines:
  assumes inv: "chan_inv cursors ch t P" and i: "receiver_there i (abs_channel cursors ch)"
    and limit: "1 \<le> limit" and c: "c = cursors (gate_of ch) ! i"
  shows "cs_try_claim_at_most max_published limit (view T i ch) =
    (if frontier t P \<le> c then Inl (if closed (abs_channel cursors ch) then ClaimShutdown else ClaimEmpty)
     else Inr (c + 1, min (frontier t P) (c + min limit (buffer_size (mp_meta (sd_publisher (sender ch)))))))"
proof -
  note R = abs_receiver [OF inv i] and D = pub_invD [OF chan_invD(2) [OF inv]]
  have "c \<le> frontier t P"
    using mem_cursor [OF chan_invD(1) [OF inv] R(1,2)] live_cursor_frontier [OF D(1)] c by auto
  then show ?thesis
    using recv_outcome [OF chan_invD(1) [OF inv] R(1,2) limit] D(4) c
    by (auto simp: abs_channel_def chan_invD(3) [OF inv])
qed

lemma perform_recv:
  assumes inv: "chan_inv cursors ch t P" and i: "receiver_there i (abs_channel cursors ch)"
    and step: "perform T (Recv i) ch = (a, ch')"
  shows "chan_inv cursors ch' t P \<and> spec_perform (Recv i) (abs_channel cursors ch) = (a, abs_channel cursors ch')"
proof -
  note R = abs_receiver [OF inv i] and D = pub_invD [OF chan_invD(2) [OF inv]]
  define c f where "c = cursors (gate_of ch) ! i" and "f = frontier t P"
  have size: "min 1 (buffer_size (mp_meta (sd_publisher (sender ch)))) = 1" using D(7) by simp
  note claim = recv_claim_refines [OF inv i _ c_def, of 1, folded f_def, unfolded size]
  show ?thesis
  proof (cases "f \<le> c")
    case True
    then have "queues (abs_channel cursors ch) ! i = Some []" using R(3) by (simp flip: c_def f_def)
    then show ?thesis using inv step claim True
      by (auto simp: try_recv_def rv_try_recv_def cs_try_claim_def empty_error_def map_error_def)
  next
    case False
    define d where "d = c + 1"
    have d: "c + 1 = d" "d \<le> f" using False by (simp_all add: d_def)
    let ?r = "\<lparr>rr_seq = d, rr_slot = d\<rparr>" and ?get = "get_ref_at (sd_ring (sender ch))"
    let ?v = "read_ref_finish ?r (view T i ch)"
    have v: "consumed ?v = d"
      by (simp add: read_ref_finish_def read_ref_drop_def cs_commit_def cursor_store_def)
    have "try_recv T i ch = Inr ?r"
      using False claim d
      by (simp add: try_recv_def rv_try_recv_def cs_try_claim_def map_error_def min_absorb2)
    then have a: "a = Received (Inr (?get d))" "ch' = store_view T i ?v ch"
      using step by (auto simp: ref_finish_def ref_deref_def read_ref_deref_def)
    have live: "live_cursor (buffer_size (mp_meta (sd_publisher (sender ch)))) t P d"
      using commit_position_live [OF chan_invD(1) [OF inv] R(1,2), of d] d
      by (simp flip: c_def f_def)
    then have "d \<noteq> SHUTDOWN_OPEN" using live_cursor_lt_open [OF live D(10)] by simp
    then have "abs_queue (sd_ring (sender ch)) f d = Some (map ?get [d + 1..f])"
      by (simp add: abs_queue_def is_shutdown_open_def)
    moreover have "queues (abs_channel cursors ch) ! i = Some (?get d # map ?get [d + 1..f])"
      using R(3) d by (simp add: upto_step flip: c_def f_def)
    ultimately show ?thesis
      using store_view_refines [OF inv R(1), of ?v] live v a by (simp flip: f_def)
  qed
qed

lemma read_all_items:
  assumes "- (2 ^ 62) \<le> s" "b < 2 ^ 62" "s \<le> b + 1"
  shows "read_all (Suc (nat (b - s + 1))) \<lparr>current_seq = s, it_end_seq = b\<rparr> ch =
    Some (map (get_ref_at (sd_ring (sender ch))) [s..b])"
  using assms
proof (induction "nat (b - s + 1)" arbitrary: s)
  case 0
  then show ?case by (simp add: refs_iter_next_def iter_next_def)
next
  case (Suc n)
  then have sb: "s \<le> b" and n: "n = nat (b - (s + 1) + 1)" "nat (b - s + 1) = Suc n" by linarith+
  have "read_all (Suc (nat (b - (s + 1) + 1))) \<lparr>current_seq = s + 1, it_end_seq = b\<rparr> ch =
      Some (map (get_ref_at (sd_ring (sender ch))) [s + 1..b])"
    using Suc.prems sb n(1) by (intro Suc.hyps) simp_all
  then show ?case using sb Suc.prems n
    by (simp add: refs_iter_next_def iter_next_def upto_step)
qed

lemma split_at_limit:
  fixes get :: "int \<Rightarrow> 'x"
  assumes "b = min f (c + int limit)" "\<not> f \<le> c"
  shows "take limit (map get [c + 1..f]) = map get [c + 1..b]" "drop limit (map get [c + 1..f]) = map get [b + 1..f]"
    "map get [c + 1..f] = get (c + 1) # map get [c + 1 + 1..f]"
proof -
  show "take limit (map get [c + 1..f]) = map get [c + 1..b]"
    by (simp add: take_map upto_take assms(1))
  show "drop limit (map get [c + 1..f]) = map get [b + 1..f]"
    by (auto simp: drop_map upto_drop assms(1) min_def add.assoc add.commute [of 1])
  show "map get [c + 1..f] = get (c + 1) # map get [c + 1 + 1..f]" using assms(2) by (simp add: upto_step)
qed

text \<open>What releasing the items up to \<open>b\<close> does.\<close>

lemma release_refines:
  assumes inv: "chan_inv cursors ch t P" and i: "receiver_there i (abs_channel cursors ch)"
    and v: "consumed v = b" and b: "cursors (gate_of ch) ! i \<le> b" "b \<le> frontier t P"
  shows "chan_inv cursors (store_view T i v ch) t P \<and>
    abs_channel cursors (store_view T i v ch) = (abs_channel cursors ch)
      \<lparr>queues := (queues (abs_channel cursors ch))
        [i := Some (map (get_ref_at (sd_ring (sender ch))) [b + 1..frontier t P])]\<rparr>"
proof -
  note R = abs_receiver [OF inv i] and D = pub_invD [OF chan_invD(2) [OF inv]]
  have live: "live_cursor (buffer_size (mp_meta (sd_publisher (sender ch)))) t P b"
    using commit_position_live [OF chan_invD(1) [OF inv] R(1,2) b] .
  then have "abs_queue (sd_ring (sender ch)) (frontier t P) b =
      Some (map (get_ref_at (sd_ring (sender ch))) [b + 1..frontier t P])"
    using live_cursor_lt_open [OF live D(10)] by (simp add: abs_queue_def is_shutdown_open_def)
  then show ?thesis using store_view_refines [OF inv R(1), of v] live v by simp
qed

text \<open>A batch receive of nothing, and of what is there up to the limit.\<close>

lemma receive_none:
  assumes "perform T (RecvMany i 0) ch = (a, ch')"
  shows "a = ReceivedMany (Inr []) \<and> ch' = store_view T i (view T i ch) ch"
proof -
  have "read_all 1 \<lparr>current_seq = 0, it_end_seq = - 1\<rparr> ch = Some []"
    by (simp add: refs_iter_next_def iter_next_def)
  then show ?thesis using assms
    by (auto simp: try_recv_at_most_def rv_try_recv_at_most_def empty_read_refs_def INIT_def
        read_refs_iter_def refs_finish_def read_refs_finish_def read_refs_drop_def)
qed

lemma receive_some:
  assumes step: "perform T (RecvMany i limit) ch = (a, ch')"
    and r: "try_recv_at_most T i limit ch = Inr \<lparr>rrs_start_seq = c + 1, rrs_end_seq = b\<rparr>"
    and c: "- 1 \<le> c" "c < b" "b < 2 ^ 61"
  shows "a = ReceivedMany (Inr (map (get_ref_at (sd_ring (sender ch))) [c + 1..b])) \<and>
    (\<exists>v. consumed v = b \<and> ch' = store_view T i v ch)"
proof -
  let ?r = "\<lparr>rrs_start_seq = c + 1, rrs_end_seq = b\<rparr>"
  have "consumed (read_refs_finish ?r (view T i ch)) = b" using c
    by (simp add: read_refs_finish_def read_refs_drop_def cs_commit_range_def cursor_store_def INIT_def)
  moreover have "read_all (Suc (nat (b - (c + 1) + 1))) \<lparr>current_seq = c + 1, it_end_seq = b\<rparr> ch =
      Some (map (get_ref_at (sd_ring (sender ch))) [c + 1..b])"
    using c by (intro read_all_items) simp_all
  moreover have "nat (b - (c + 1) + 2) = Suc (nat (b - (c + 1) + 1))" using c by simp
  ultimately show ?thesis using step r by (auto simp: refs_finish_def read_refs_iter_def)
qed

lemma perform_recv_many:
  assumes inv: "chan_inv cursors ch t P" and i: "receiver_there i (abs_channel cursors ch)"
    and limit: "int limit < 2 ^ 63" and step: "perform T (RecvMany i limit) ch = (a, ch')"
  shows "chan_inv cursors ch' t P \<and>
    spec_perform (RecvMany i limit) (abs_channel cursors ch) = (a, abs_channel cursors ch')"
proof -
  note R = abs_receiver [OF inv i] and D = pub_invD [OF chan_invD(2) [OF inv]]
  define c f where "c = cursors (gate_of ch) ! i" and "f = frontier t P"
  let ?get = "get_ref_at (sd_ring (sender ch))" and ?size = "buffer_size (mp_meta (sd_publisher (sender ch)))"
  have live_c: "live_cursor ?size t P c" using mem_cursor [OF chan_invD(1) [OF inv] R(1,2)] by (simp add: c_def)
  have c: "- 1 \<le> c" "f < 2 ^ 61" "f \<le> c + ?size" "c \<le> f"
    using live_c frontier_props(1) [OF D(1)] D(10) live_cursor_frontier [OF D(1) live_c]
    by (auto simp: live_cursor_def f_def)
  note release = release_refines [OF inv i, folded c_def f_def]
  have q: "queues (abs_channel cursors ch) ! i = Some (map ?get [c + 1..f])" using R(3) by (simp add: c_def f_def)
  show ?thesis
  proof (cases "limit = 0")
    case True
    have "(queues (abs_channel cursors ch))[i := Some (map ?get [c + 1..f])] = queues (abs_channel cursors ch)"
      by (metis q list_update_id)
    then show ?thesis
      using receive_none [of i ch a ch'] step release [of "view T i ch" c] c(4) view_parts(1) [OF R(1)] True
      by (simp add: c_def)
  next
    case False
    have "int limit < 2 ^ 63" "1 \<le> int limit" using limit False by simp_all
    then have lim: "usize_as_i64 limit = int limit" "1 \<le> int limit" by (simp_all add: usize_as_i64_id)
    note claim = recv_claim_refines [OF inv i lim(2) c_def, folded f_def]
    show ?thesis
    proof (cases "f \<le> c")
      case True
      then show ?thesis using inv step claim False q lim
        by (auto simp: try_recv_at_most_def rv_try_recv_at_most_def empty_error_def map_error_def)
    next
      case less: False
      define b where "b = min f (c + int limit)"
      have b: "min f (c + min (int limit) ?size) = b" "c < b" "b \<le> f"
        using c less lim(2) by (auto simp: b_def)
      have "try_recv_at_most T i limit ch = Inr \<lparr>rrs_start_seq = c + 1, rrs_end_seq = b\<rparr>"
        using less claim False lim b(1)
        by (simp add: try_recv_at_most_def rv_try_recv_at_most_def map_error_def)
      from receive_some [OF step this c(1) b(2)] b(3) c(2) obtain v where
        a: "a = ReceivedMany (Inr (map ?get [c + 1..b]))" "consumed v = b" "ch' = store_view T i v ch"
        by auto
      have "spec_perform (RecvMany i limit) (abs_channel cursors ch) =
          (ReceivedMany (Inr (map ?get [c + 1..b])), (abs_channel cursors ch)
            \<lparr>queues := (queues (abs_channel cursors ch))[i := Some (map ?get [b + 1..f])]\<rparr>)"
        using q False less split_at_limit [OF b_def less, of ?get] by simp
      then show ?thesis using release [OF a(2) less_imp_le [OF b(2)] b(3)] a by simp
    qed
  qed
qed

end

section \<open>Senders\<close>

text \<open>The memory right after a successful claim.\<close>

definition claim_to :: "('g, 'a) channel \<Rightarrow> sequence \<Rightarrow> ('g, 'a) sender_impl" where
  "claim_to ch b = (sender ch)\<lparr>sd_publisher := (sd_publisher (sender ch))
     \<lparr>shared := (shared (sd_publisher (sender ch)))\<lparr>claimed := b\<rparr>\<rparr>\<rparr>"

text \<open>Every step of the simulation moves \<open>t\<close> by at most one ring length.\<close>

definition simulated :: "('g \<Rightarrow> cursor list) \<Rightarrow> 'a call \<Rightarrow> ('g, 'a) channel \<Rightarrow> int \<Rightarrow> 'a answer \<Rightarrow> ('g, 'a) channel \<Rightarrow> bool" where
  "simulated cursors call ch t a ch' \<longleftrightarrow> (\<exists>t' P'. chan_inv cursors ch' t' P' \<and> t' \<le> t + 2 ^ 30 \<and>
     spec_perform call (abs_channel cursors ch) = (a, abs_channel cursors ch'))"

lemma all_left_abs:
  "(\<forall>q \<in> set (queues (abs_channel cursors ch)). q = None) \<longleftrightarrow>
     (\<forall>c \<in> set (cursors (gate_of ch)). c = SHUTDOWN_OPEN)"
  by (auto simp: abs_channel_def abs_queue_def is_shutdown_open_def)

context topology_contract
begin

text \<open>The free room of an open channel, by its queues.\<close>

lemma lag_abs:
  assumes inv: "chan_inv cursors ch t P" and op: "open_at ch t P"
    and left: "\<not> (\<forall>c \<in> set (cursors (gate_of ch)). c = SHUTDOWN_OPEN)"
  shows "int (lag (queues (abs_channel cursors ch))) =
      t - ss_seq (max_consumed (barrier T) (gate_of ch))"
    "ss_seq (max_consumed (barrier T) (gate_of ch)) \<le> t"
proof -
  note D = pub_invD [OF chan_invD(2) [OF inv]]
  let ?s = "max_consumed (barrier T) (gate_of ch)" and ?get = "get_ref_at (sd_ring (sender ch))"
  have t: "frontier t P = t" using op by (simp add: open_at_def)
  have sd: "\<not> ss_shutdown ?s" using left all_left D(12) by blast
  then have att: "ss_seq ?s \<in> set (cursors (gate_of ch))" using attained D(12) by blast
  have lt: "ss_seq ?s < SHUTDOWN_OPEN" using live_consumer(2) D(12) sd by blast
  have "live_cursor (buffer_size (mp_meta (sd_publisher (sender ch)))) t P (ss_seq ?s)"
    using D(3) att lt by (auto simp: cursors_inv_def)
  then show le: "ss_seq ?s \<le> t" by (simp add: live_cursor_def)
  have "lag (queues (abs_channel cursors ch)) = length (map ?get [ss_seq ?s + 1..t])"
  proof (rule lag_eqI)
    have "abs_queue (sd_ring (sender ch)) t (ss_seq ?s) = Some (map ?get [ss_seq ?s + 1..t])"
      using lt by (simp add: abs_queue_def is_shutdown_open_def)
    then show "Some (map ?get [ss_seq ?s + 1..t]) \<in> set (queues (abs_channel cursors ch))"
      using att by (force simp: abs_channel_def chan_invD(3) [OF inv] t)
  next
    fix ys assume "Some ys \<in> set (queues (abs_channel cursors ch))"
    then obtain c where "c \<in> set (cursors (gate_of ch))" "ys = map ?get [c + 1..t]"
      by (auto simp: abs_channel_def chan_invD(3) [OF inv] t abs_queue_def split: if_splits)
    then show "length ys \<le> length (map ?get [ss_seq ?s + 1..t])"
      using slowest [OF D(12)] by fastforce
  qed
  then show "int (lag (queues (abs_channel cursors ch))) = t - ss_seq ?s" using le by simp
qed

lemma claim_refines:
  fixes ch :: "('g, 'a) channel"
  defines "p \<equiv> sd_publisher (sender ch)"
  assumes inv: "chan_inv cursors ch t P" and senders: "0 < sender_count ch" and limit: "1 \<le> limit"
  shows "mp_try_claim_at_most (barrier T) (int limit) p =
    (case spec_claim limit (abs_channel cursors ch) of
       Inl e \<Rightarrow> (Inl e, p)
     | Inr n \<Rightarrow> (Inr (t + 1, t + int n), p\<lparr>shared := (shared p)\<lparr>claimed := t + int n\<rparr>\<rparr>))"
    "spec_claim limit (abs_channel cursors ch) = Inr n \<Longrightarrow> open_at ch t P \<and> 1 \<le> n \<and> n \<le> limit"
proof -
  note D = pub_invD [OF chan_invD(2) [OF inv]]
  let ?room = "ss_seq (max_consumed (barrier T) (gate_of ch)) - t + buffer_size (mp_meta p)"
  have out: "mp_try_claim_at_most (barrier T) (int limit) p =
    (if has_shutdown (claimed (shared p)) \<or> (\<forall>c \<in> set (cursors (gate_of ch)). c = SHUTDOWN_OPEN)
     then (Inl ClaimShutdown, p)
     else if ?room < 1 then (Inl ClaimEmpty, p)
     else (Inr (t + 1, t + min ?room (int limit)),
           p\<lparr>shared := (shared p)\<lparr>claimed := t + min ?room (int limit)\<rparr>\<rparr>))"
    using claim_outcome [of p t P "int limit"] chan_invD(2) [OF inv] by (simp add: p_def gate_of_def Let_def)
  have spec: "spec_claim limit (abs_channel cursors ch) =
    (if has_shutdown (claimed (shared p)) \<or> (\<forall>c \<in> set (cursors (gate_of ch)). c = SHUTDOWN_OPEN)
     then Inl ClaimShutdown
     else if ?room < 1 then Inl ClaimEmpty
     else Inr (nat (min ?room (int limit))))" (is "?spec = ?rhs")
  proof (cases "closed_at ch t P")
    case True
    then have "has_shutdown (claimed (shared p))" using senders by (auto simp: closed_at_def p_def split: if_splits)
    then show ?thesis using True chan_invD(4) [OF inv] by (simp add: spec_claim_def)
  next
    case False
    then have op: "open_at ch t P" using chan_invD(5) [OF inv] by blast
    then have sd: "\<not> has_shutdown (claimed (shared p))"
      using D(9) by (simp add: open_at_def p_def not_shutdown_ge)
    show ?thesis
    proof (cases "\<forall>c \<in> set (cursors (gate_of ch)). c = SHUTDOWN_OPEN")
      case True
      then have "\<forall>q \<in> set (queues (abs_channel cursors ch)). q = None" using all_left_abs by blast
      then show ?thesis using True by (simp add: spec_claim_def)
    next
      case left: False
      then have "\<not> (\<forall>q \<in> set (queues (abs_channel cursors ch)). q = None)" using all_left_abs by blast
      moreover have "capacity (abs_channel cursors ch) = nat (buffer_size (mp_meta p))"
        by (simp add: abs_channel_def p_def)
      ultimately show ?thesis
        using lag_abs [OF inv op left] left sd D(7) False chan_invD(4) [OF inv]
        by (auto simp: spec_claim_def p_def)
    qed
  qed
  show "mp_try_claim_at_most (barrier T) (int limit) p =
    (case spec_claim limit (abs_channel cursors ch) of
       Inl e \<Rightarrow> (Inl e, p)
     | Inr n \<Rightarrow> (Inr (t + 1, t + int n), p\<lparr>shared := (shared p)\<lparr>claimed := t + int n\<rparr>\<rparr>))"
    unfolding out spec by auto
  show "spec_claim limit (abs_channel cursors ch) = Inr n \<Longrightarrow> open_at ch t P \<and> 1 \<le> n \<and> n \<le> limit"
  proof -
    assume n: "spec_claim limit (abs_channel cursors ch) = Inr n"
    then have "\<not> closed_at ch t P" using chan_invD(4) [OF inv] by (auto simp: spec_claim_def)
    then show ?thesis using n limit chan_invD(5) [OF inv] by (auto simp: spec split: if_splits)
  qed
qed

text \<open>Publishing everything claimed appends it to the queues; terminating instead closes the
  channel and leaves the queues alone. \<open>p'\<close> is the publisher after the claim.\<close>

lemma publish_refines:
  fixes ch :: "('g, 'a) channel"
  assumes inv: "chan_inv cursors ch t P" and op: "open_at ch t P"
    and p': "p' = (sd_publisher (sender ch))\<lparr>shared := (shared (sd_publisher (sender ch)))\<lparr>claimed := b\<rparr>\<rparr>"
    and m: "mem_inv cursors sd' b {} h'" and pub: "sd_publisher sd' = mp_commit_range (barrier T) (t + 1) b p'"
    and b: "t \<le> b" and h': "\<And>q. q \<le> t \<Longrightarrow> h' q = get_ref_at (sd_ring (sender ch)) q"
  shows "chan_inv cursors (ch\<lparr>sender := sd'\<rparr>) b {}"
    "abs_channel cursors (ch\<lparr>sender := sd'\<rparr>) = append_all (map h' [t + 1..b]) (abs_channel cursors ch)"
proof -
  note D = pub_invD [OF chan_invD(2) [OF inv]]
  let ?ch = "ch\<lparr>sender := sd'\<rparr>"
  have t: "frontier t P = t" "quiet (sd_publisher (sender ch))" "0 < sender_count ch"
    using op by (simp_all add: open_at_def)
  have same: "cursors (gate_of ?ch) = cursors (gate_of ch)"
    "mp_meta (sd_publisher sd') = mp_meta (sd_publisher (sender ch))"
    by (simp_all add: gate_of_def pub p' mp_commit_range_def notify_gate_def notify_cursors)
  have "quiet p'" using t(2) by (simp add: quiet_def p')
  then have "quiet (sd_publisher sd')"
    unfolding pub using D(11) by (intro quiet_commit_range) (simp_all add: p')
  moreover have "claimed (shared (sd_publisher sd')) = b"
    by (simp add: pub p' mp_commit_range_def notify_gate_def)
  ultimately have op': "open_at ?ch b {}" using t(3) by (simp add: open_at_def)
  then show inv': "chan_inv cursors ?ch b {}" using mem_inv_own [OF m] by (simp add: chan_inv_def)
  have "abs_queue (sd_ring sd') b c = map_option (\<lambda>q. q @ map h' [t + 1..b]) (abs_queue (sd_ring (sender ch)) t c)"
    if c: "c \<in> set (cursors (gate_of ch))" for c
  proof -
    have live: "c = SHUTDOWN_OPEN \<or> live_cursor (buffer_size (mp_meta (sd_publisher (sender ch)))) t P c"
      using D(3) c by (auto simp: cursors_inv_def)
    have live': "c = SHUTDOWN_OPEN \<or> live_cursor (buffer_size (mp_meta (sd_publisher sd'))) b {} c"
      using pub_invD(3) [OF mem_invD(1) [OF m]] c same by (auto simp: cursors_inv_def gate_of_def)
    have "[c + 1..b] = [c + 1..t] @ [t + 1..b]" if "c \<le> t"
      using that b upto_split2 [of "c + 1" t b] by (cases "c = t") simp_all
    moreover have "map h' [c + 1..t] = map (get_ref_at (sd_ring (sender ch))) [c + 1..t]"
      using h' by auto
    ultimately have "c \<le> t \<Longrightarrow> map h' [c + 1..b] =
        map (get_ref_at (sd_ring (sender ch))) [c + 1..t] @ map h' [t + 1..b]"
      by simp
    then show ?thesis
      using abs_queue_eq [OF m live'] live by (auto simp: abs_queue_def is_shutdown_open_def live_cursor_def)
  qed
  moreover have "closed (abs_channel cursors ?ch) = closed (abs_channel cursors ch)"
    using chan_invD(4) [OF inv] chan_invD(4) [OF inv'] op op'
    by (auto simp: open_at_def closed_at_def quiet_def)
  ultimately show "abs_channel cursors ?ch = append_all (map h' [t + 1..b]) (abs_channel cursors ch)"
    by (simp add: abs_channel_def append_all_def same chan_invD(3) [OF inv] t(1)
        chan_invD(3) [OF inv', simplified])
qed

lemma terminate_refines:
  fixes ch :: "('g, 'a) channel"
  assumes inv: "chan_inv cursors ch t P" and op: "open_at ch t P"
    and p': "p' = (sd_publisher (sender ch))\<lparr>shared := (shared (sd_publisher (sender ch)))\<lparr>claimed := b\<rparr>\<rparr>"
    and pinv: "pub_inv (cursors (gate_of ch)) p' b {t + 1..b}"
    and m: "mem_inv cursors sd' b {t + 1..b} h'" and pub: "sd_publisher sd' = mp_terminate (barrier T) p'"
    and b: "t < b" and h': "\<And>q. q \<le> t \<Longrightarrow> h' q = get_ref_at (sd_ring (sender ch)) q"
  shows "chan_inv cursors (ch\<lparr>sender := sd'\<rparr>) b {t + 1..b}"
    "abs_channel cursors (ch\<lparr>sender := sd'\<rparr>) = (abs_channel cursors ch)\<lparr>closed := True\<rparr>"
proof -
  note D = pub_invD [OF chan_invD(2) [OF inv]] and D' = pub_invD [OF pinv]
  let ?ch = "ch\<lparr>sender := sd'\<rparr>" and ?P = "{t + 1..b}"
  have t: "frontier t P = t" "0 < sender_count ch" using op by (simp_all add: open_at_def)
  have "Min ?P = t + 1" using b by (intro Min_eqI) auto
  then have fr: "frontier b ?P = t" using b by (simp add: frontier_def)
  have bound: "close_boundary (shared p') = t + 1"
    using close_boundary_eq [OF pinv] fr by (simp add: claimed_tight_def p')
  have same: "cursors (gate_of ?ch) = cursors (gate_of ch)"
    "mp_meta (sd_publisher sd') = mp_meta (sd_publisher (sender ch))"
    by (simp_all add: gate_of_def pub p' mp_terminate_def close_def notify_gate_def notify_cursors Let_def)
  have "marked (slot_states (shared (sd_publisher sd'))) (t + 1)"
    using D(11) bound
    by (simp add: pub mp_terminate_def close_def notify_gate_def Let_def marked_mark_shutdown)
      (simp add: p' marked_mark_shutdown)
  moreover have "0 \<le> b" using b D(9) by simp
  then have "claimed (shared (sd_publisher sd')) = b - 2 ^ 63"
    using shutdown_flag_set(1) [of b] D'(10)
    by (simp add: pub mp_terminate_def close_def notify_gate_def Let_def cursor_load_def cursor_store_def p')
  ultimately have cl: "closed_at ?ch b ?P"
    using fr \<open>0 \<le> b\<close> D'(10) by (simp add: closed_at_def claimed_tight_def has_shutdown_def)
  then show inv': "chan_inv cursors ?ch b ?P" using mem_inv_own [OF m] by (simp add: chan_inv_def)
  have "abs_queue (sd_ring sd') t c = abs_queue (sd_ring (sender ch)) t c"
    if c: "c \<in> set (cursors (gate_of ch))" for c
  proof -
    have "c = SHUTDOWN_OPEN \<or> live_cursor (buffer_size (mp_meta (sd_publisher sd'))) b ?P c"
      using pub_invD(3) [OF mem_invD(1) [OF m]] c same by (auto simp: cursors_inv_def gate_of_def)
    then show ?thesis
      using abs_queue_eq [OF m, unfolded fr] h' by (auto simp: abs_queue_def is_shutdown_open_def)
  qed
  moreover have "closed (abs_channel cursors ?ch)" using cl chan_invD(4) [OF inv'] by blast
  ultimately show "abs_channel cursors ?ch = (abs_channel cursors ch)\<lparr>closed := True\<rparr>"
    by (simp add: abs_channel_def same chan_invD(3) [OF inv] t(1) chan_invD(3) [OF inv', simplified] fr)
qed

lemma after_claim:
  assumes inv: "chan_inv cursors ch t P" and senders: "0 < sender_count ch" and limit: "1 \<le> limit"
    and t: "t < 2 ^ 60" and n: "spec_claim limit (abs_channel cursors ch) = Inr n"
  shows "mem_inv cursors (claim_to ch (t + int n)) (t + int n) {t + 1..t + int n}
      (get_ref_at (sd_ring (sender ch)))"
    "pub_inv (cursors (gate_of ch)) (sd_publisher (claim_to ch (t + int n))) (t + int n) {t + 1..t + int n}"
    "1 \<le> n" "n \<le> limit" "open_at ch t P" "t + int n \<le> t + 2 ^ 30"
proof -
  note C = claim_refines [OF inv senders limit]
  show op: "open_at ch t P" and n1: "1 \<le> n" "n \<le> limit" using C(2) [OF n] by blast+
  have "mp_try_claim_at_most (barrier T) (int limit) (sd_publisher (sender ch)) =
      (Inr (t + 1, t + int n), sd_publisher (claim_to ch (t + int n)))"
    using C(1) n by (simp add: claim_to_def)
  note K = sd_claim_keeps [OF chan_invD(1) [OF inv] t _ this]
  have P: "P = {}" using op by (simp add: open_at_def)
  have "1 \<le> int limit" using limit by simp
  then show m: "mem_inv cursors (claim_to ch (t + int n)) (t + int n) {t + 1..t + int n}
      (get_ref_at (sd_ring (sender ch)))"
    using K(5) P by (simp add: claim_to_def)
  show "t + int n \<le> t + 2 ^ 30"
    using K(4) \<open>1 \<le> int limit\<close> pub_invD(8) [OF chan_invD(2) [OF inv]] by linarith
  show "pub_inv (cursors (gate_of ch)) (sd_publisher (claim_to ch (t + int n))) (t + int n) {t + 1..t + int n}"
    using mem_invD(1) [OF m] by (simp add: claim_to_def gate_of_def)
qed

text \<open>One slot: written and published, or terminated.\<close>

lemma fill_one:
  assumes inv: "chan_inv cursors ch t P" and senders: "0 < sender_count ch"
    and t: "t < 2 ^ 60" and n: "spec_claim 1 (abs_channel cursors ch) = Inr n"
  shows "chan_inv cursors (ch\<lparr>sender := sd_commit (barrier T) (t + 1) (sd_write_slot (t + 1) v (claim_to ch (t + 1)))\<rparr>) (t + 1) {}"
    "abs_channel cursors (ch\<lparr>sender := sd_commit (barrier T) (t + 1) (sd_write_slot (t + 1) v (claim_to ch (t + 1)))\<rparr>) =
      append_all [v] (abs_channel cursors ch)"
    "chan_inv cursors (ch\<lparr>sender := sd_terminate (barrier T) (sd_write_slot (t + 1) v (claim_to ch (t + 1)))\<rparr>) (t + 1) {t + 1}"
    "abs_channel cursors (ch\<lparr>sender := sd_terminate (barrier T) (sd_write_slot (t + 1) v (claim_to ch (t + 1)))\<rparr>) =
      (abs_channel cursors ch)\<lparr>closed := True\<rparr>"
proof -
  note A = after_claim [OF inv senders _ t n]
  have n1: "int n = 1" using A(3,4) by simp
  have op: "open_at ch t P" using A(5) by simp
  let ?h = "get_ref_at (sd_ring (sender ch))" and ?sd = "sd_write_slot (t + 1) v (claim_to ch (t + 1))"
  let ?p = "sd_publisher (claim_to ch (t + 1))"
  have p: "?p = (sd_publisher (sender ch))\<lparr>shared := (shared (sd_publisher (sender ch)))\<lparr>claimed := t + 1\<rparr>\<rparr>"
    by (simp add: claim_to_def)
  have m1: "mem_inv cursors (claim_to ch (t + 1)) (t + 1) {t + 1..t + 1} ?h"
    and pinv: "pub_inv (cursors (gate_of ch)) ?p (t + 1) {t + 1..t + 1}"
    using A(1,2) n1 by simp_all
  have m2: "mem_inv cursors ?sd (t + 1) {t + 1..t + 1} ?h" using m1 by (rule mem_inv_write) simp
  have get: "get_ref_at (sd_ring ?sd) (t + 1) = v"
    using get_write_slot [OF m1, of "t + 1" "t + 1" v] mem_invD(4) [OF m1, of "t + 1"] by simp
  have vals: "publish_values {t + 1} (sd_ring ?sd) ?h = ?h(t + 1 := v)"
    using get by (auto simp: publish_values_def)
  have m3: "mem_inv cursors (sd_commit (barrier T) (t + 1) ?sd) (t + 1) {} (?h(t + 1 := v))"
    using sd_commit_keeps [OF m2, of "t + 1"] by (simp add: vals)
  have pub: "sd_publisher (sd_commit (barrier T) (t + 1) ?sd) = mp_commit_range (barrier T) (t + 1) (t + 1) ?p"
    by (simp add: sd_commit_def mp_commit_eq_range)
  show "chan_inv cursors (ch\<lparr>sender := sd_commit (barrier T) (t + 1) ?sd\<rparr>) (t + 1) {}"
    "abs_channel cursors (ch\<lparr>sender := sd_commit (barrier T) (t + 1) ?sd\<rparr>) =
      append_all [v] (abs_channel cursors ch)"
    using publish_refines [OF inv op p m3 pub] by simp_all
  have t1: "0 \<le> t + 1" using pub_invD(9) [OF chan_invD(2) [OF inv]] by simp
  have m4: "mem_inv cursors (sd_terminate (barrier T) ?sd) (t + 1) {t + 1..t + 1} ?h"
    using sd_terminate_keeps(1) [OF m2 t1] .
  have "sd_publisher (sd_terminate (barrier T) ?sd) = mp_terminate (barrier T) ?p"
    by (simp add: sd_terminate_def)
  from terminate_refines [OF inv op p pinv m4 this]
  show "chan_inv cursors (ch\<lparr>sender := sd_terminate (barrier T) ?sd\<rparr>) (t + 1) {t + 1}"
    "abs_channel cursors (ch\<lparr>sender := sd_terminate (barrier T) ?sd\<rparr>) =
      (abs_channel cursors ch)\<lparr>closed := True\<rparr>"
    by simp_all
qed

lemma try_claim_refines:
  assumes "chan_inv cursors ch t P" "0 < sender_count ch"
  shows "mp_try_claim (barrier T) (sd_publisher (sender ch)) =
    (case spec_claim 1 (abs_channel cursors ch) of
       Inl e \<Rightarrow> (Inl e, sd_publisher (sender ch))
     | Inr n \<Rightarrow> (Inr (t + 1), sd_publisher (claim_to ch (t + 1))))"
proof -
  have "n = 1" if "spec_claim 1 (abs_channel cursors ch) = Inr n" for n
    using claim_refines(2) [OF assms _ that] by simp
  then show ?thesis
    using claim_refines(1) [OF assms, of 1]
    by (auto simp: mp_try_claim_def claim_to_def split: sum.splits)
qed

lemma simulatedI:
  "chan_inv cursors ch' t' P' \<Longrightarrow> t' \<le> t + 2 ^ 30 \<Longrightarrow>
     spec_perform call (abs_channel cursors ch) = (a, abs_channel cursors ch') \<Longrightarrow>
     simulated cursors call ch t a ch'"
  by (auto simp: simulated_def)

lemma perform_send:
  assumes inv: "chan_inv cursors ch t P" and senders: "0 < sender_count ch" and t: "t < 2 ^ 60"
    and step: "perform T (Send v) ch = (a, ch')"
  shows "simulated cursors (Send v) ch t a ch'"
proof (cases "spec_claim 1 (abs_channel cursors ch)")
  case (Inl e)
  then have "sd_try_send (barrier T) v (sender ch) =
      (Inl (case e of ClaimEmpty \<Rightarrow> SendFull v | ClaimShutdown \<Rightarrow> SendDisconnected v), sender ch)"
    using try_claim_refines [OF inv senders] by (simp add: sd_try_send_def split: try_claim_error.split)
  then show ?thesis
    using inv Inl step by (intro simulatedI) (auto simp: try_send_def on_sender_def split: try_claim_error.split)
next
  case (Inr n)
  note F = fill_one [OF inv senders t Inr]
  have "sd_try_send (barrier T) v (sender ch) =
      (Inr (), sd_commit (barrier T) (t + 1) (sd_write_slot (t + 1) v (claim_to ch (t + 1))))"
    using try_claim_refines [OF inv senders] Inr by (simp add: sd_try_send_def claim_to_def)
  then have "a = Sent (Inr ())" "ch' = ch\<lparr>sender :=
      sd_commit (barrier T) (t + 1) (sd_write_slot (t + 1) v (claim_to ch (t + 1)))\<rparr>"
    using step by (simp_all add: try_send_def on_sender_def)
  then show ?thesis using simulatedI [OF F(1), of t] F(2) Inr by simp
qed

lemma perform_reserve:
  assumes inv: "chan_inv cursors ch t P" and senders: "0 < sender_count ch" and t: "t < 2 ^ 60"
    and step: "perform T (Reserve d item) ch = (a, ch')"
  shows "simulated cursors (Reserve d item) ch t a ch'"
proof (cases "spec_claim 1 (abs_channel cursors ch)")
  case (Inl e)
  then have "sd_try_reserve (barrier T) (reset_to d) (sender ch) = (Inl (reserve_error_of e), sender ch)"
    using try_claim_refines [OF inv senders] by (simp add: sd_try_reserve_def map_error_def)
  then show ?thesis
    using inv Inl step by (intro simulatedI) (auto simp: try_reserve_def on_sender_def)
next
  case (Inr n)
  let ?p = "\<lparr>wp_sequence = t + 1, wp_recycler = reset_to d, wp_wrote = False\<rparr>"
  let ?sd = "claim_to ch (t + 1)"
  have "sd_try_reserve (barrier T) (reset_to d) (sender ch) = (Inr ?p, ?sd)"
    using try_claim_refines [OF inv senders] Inr by (simp add: sd_try_reserve_def claim_to_def map_error_def)
  then have a: "a = Reserved (Inr ())"
    and ch': "ch' = (case item of Some v \<Rightarrow> permit_write T v ?p (ch\<lparr>sender := ?sd\<rparr>)
        | None \<Rightarrow> permit_drop T ?p (ch\<lparr>sender := ?sd\<rparr>))"
    using step by (simp_all add: try_reserve_def on_sender_def)
  note F = fill_one [OF inv senders t Inr]
  show ?thesis
  proof (cases "batch_items d (case item of None \<Rightarrow> [] | Some v \<Rightarrow> [v]) 1")
    case None
    then have "item = None" "d = None" by (auto simp: batch_items_def split: option.splits if_splits)
    then have "ch' = ch\<lparr>sender := sd_terminate (barrier T)
        (sd_write_slot (t + 1) (get_ref_at (sd_ring ?sd) (t + 1)) ?sd)\<rparr>"
      by (simp add: ch' permit_drop_def write_permit_drop_def reset_to_def reset_with_def)
    then show ?thesis using simulatedI [OF F(3), of t] F(4) Inr None a by (simp add: publish_items_def)
  next
    case (Some vs)
    then obtain v where v: "vs = [v]" "item = Some v \<or> item = None \<and> d = Some v"
      by (auto simp: batch_items_def split: option.splits if_splits)
    then have "ch' = ch\<lparr>sender := sd_commit (barrier T) (t + 1) (sd_write_slot (t + 1) v ?sd)\<rparr>"
      by (auto simp: ch' permit_drop_def permit_write_def write_permit_drop_def write_permit_write_def
          reset_to_def reset_with_def)
    then show ?thesis using simulatedI [OF F(1), of t] F(2) Inr Some a v(1) by (simp add: publish_items_def)
  qed
qed

lemma batch_write_eq:
  "batch_write T ps v p ch = ch\<lparr>sender := sd_write_slot (bwp_sequence p) v (sender ch)\<rparr>"
  by (simp add: batch_write_def batch_permit_write_def batch_permit_drop_def permits_write_def sd_write_slot_def)

lemma write_all_props:
  assumes "mem_inv cursors (sender ch) b P h" "{next_seq ps..b} \<subseteq> P" "end_seq ps = b" "b < 2 ^ 61"
    and "next_seq ps \<le> b + 1" "- 1 \<le> next_seq ps" "write_all T ps vs ch = (ps', ch')"
  shows "\<exists>sd'. ch' = ch\<lparr>sender := sd'\<rparr> \<and> mem_inv cursors sd' b P h \<and>
    sd_publisher sd' = sd_publisher (sender ch) \<and>
    ps' = ps\<lparr>next_seq := min (next_seq ps + int (length vs)) (b + 1)\<rparr> \<and>
    (\<forall>q \<in> P. get_ref_at (sd_ring sd') q =
      (if next_seq ps \<le> q \<and> q < next_seq ps + int (length vs)
       then vs ! nat (q - next_seq ps) else get_ref_at (sd_ring (sender ch)) q))"
  using assms
proof (induction vs arbitrary: ps ch)
  case Nil
  then show ?case by (intro exI [of _ "sender ch"]) auto
next
  case (Cons v vs)
  show ?case
  proof (cases "next_seq ps \<le> b")
    case False
    then have "next_seq ps = b + 1" using Cons.prems(5) by simp
    moreover have "\<not> b + 1 \<le> q" if "q \<in> P" for q using mem_invD(4) [OF Cons.prems(1) that] by simp
    ultimately show ?thesis using Cons.prems
      by (intro exI [of _ "sender ch"]) (force simp: permits_next_def)
  next
    case True
    let ?s = "next_seq ps" and ?ch = "ch\<lparr>sender := sd_write_slot (next_seq ps) v (sender ch)\<rparr>"
    let ?ps = "ps\<lparr>next_seq := next_seq ps + 1\<rparr>"
    have s: "?s \<in> P" using Cons.prems(2) True by auto
    have inv: "mem_inv cursors (sender ?ch) b P h" using mem_inv_write [OF Cons.prems(1) s] by simp
    have step: "write_all T ?ps vs ?ch = (ps', ch')"
      using Cons.prems True by (simp add: permits_next_def batch_write_eq)
    have sub: "{next_seq ?ps..b} \<subseteq> P" using Cons.prems(2) by auto
    obtain sd' where sd': "ch' = ?ch\<lparr>sender := sd'\<rparr>" "mem_inv cursors sd' b P h"
      "sd_publisher sd' = sd_publisher (sender ?ch)"
      "ps' = ?ps\<lparr>next_seq := min (?s + 1 + int (length vs)) (b + 1)\<rparr>"
      "\<And>q. q \<in> P \<Longrightarrow> get_ref_at (sd_ring sd') q =
        (if ?s + 1 \<le> q \<and> q < ?s + 1 + int (length vs)
         then vs ! nat (q - (?s + 1)) else get_ref_at (sd_ring (sender ?ch)) q)"
      using Cons.IH [OF inv sub _ Cons.prems(4) _ _ step] Cons.prems(3,6) True by auto
    have "get_ref_at (sd_ring sd') q = (if ?s \<le> q \<and> q < ?s + int (length (v # vs))
        then (v # vs) ! nat (q - ?s) else get_ref_at (sd_ring (sender ch)) q)" if q: "q \<in> P" for q
    proof -
      have get: "get_ref_at (sd_ring (sender ?ch)) q = (if q = ?s then v else get_ref_at (sd_ring (sender ch)) q)"
        using get_write_slot [OF Cons.prems(1) s] mem_invD(4) [OF Cons.prems(1) q] by simp
      have "nat (q - ?s) = Suc (nat (q - (?s + 1)))" if "?s + 1 \<le> q" using that by simp
      then show ?thesis using sd'(5) [OF q] get by auto
    qed
    then show ?thesis using sd' by (intro exI [of _ sd']) (auto simp: algebra_simps)
  qed
qed

text \<open>A batch from its claim to the drop of its permits.\<close>

text \<open>What a committed batch holds: what was written, then what the recycler left.\<close>

lemma batch_itemsE:
  assumes "n \<le> length vs \<or> d \<noteq> None"
  obtains ws where "batch_items d vs n = Some ws" "length ws = n"
    "\<forall>k < n. if k < length vs then ws ! k = vs ! k else d = Some (ws ! k)"
  using assms by (cases "n \<le> length vs"; cases d) (auto simp: batch_items_def nth_append)

lemma committed_items:
  assumes ws: "length ws = n" "\<forall>k < n. if k < length vs then ws ! k = vs ! k else d = Some (ws ! k)"
    and written: "\<And>q. t < q \<Longrightarrow> q \<le> t + int n \<Longrightarrow> q < t + 1 + int (length vs) \<Longrightarrow> h q = vs ! nat (q - (t + 1))"
    and recycled: "\<And>q. t < q \<Longrightarrow> q \<le> t + int n \<Longrightarrow> t + 1 + int (length vs) \<le> q \<Longrightarrow> h q = fst (reset_to d (g q))"
  shows "map h [t + 1..t + int n] = ws"
proof (rule nth_equalityI)
  show "length (map h [t + 1..t + int n]) = length ws" using ws(1) by simp
next
  fix k assume "k < length (map h [t + 1..t + int n])"
  then have k: "k < n" by simp
  then have "map h [t + 1..t + int n] ! k = h (t + 1 + int k)" by (simp add: nth_upto)
  also have "\<dots> = ws ! k"
  proof (cases "k < length vs")
    case True
    then show ?thesis using k ws(2) written [of "t + 1 + int k"] by simp
  next
    case False
    then show ?thesis using k ws(2) recycled [of "t + 1 + int k"] by (simp add: reset_to_def reset_with_def)
  qed
  finally show "map h [t + 1..t + int n] ! k = ws ! k" .
qed

lemma fill_batch:
  assumes inv: "chan_inv cursors ch t P" and senders: "0 < sender_count ch" and limit: "1 \<le> limit"
    and t: "t < 2 ^ 60" and n: "spec_claim limit (abs_channel cursors ch) = Inr n"
    and fill: "write_all T \<lparr>start_seq = t + 1, end_seq = t + int n, next_seq = t + 1, wps_recycler = reset_to d\<rparr>
      vs (ch\<lparr>sender := claim_to ch (t + int n)\<rparr>) = (ps', ch'')"
  shows "\<exists>P'. chan_inv cursors (batch_commit T ps' ch'') (t + int n) P' \<and>
    abs_channel cursors (batch_commit T ps' ch'') = publish_items (batch_items d vs n) (abs_channel cursors ch)"
proof -
  note A = after_claim [OF inv senders limit t n]
  define b where "b = t + int n"
  let ?h = "get_ref_at (sd_ring (sender ch))" and ?p = "sd_publisher (claim_to ch b)"
  let ?S = "{t + 1..b}" and ?k = "t + 1 + int (length vs)"
  have tb: "t < b" "- 1 \<le> t" "b < 2 ^ 61"
    using A(3,6) t pub_invD(9) [OF chan_invD(2) [OF inv]] by (simp_all add: b_def)
  have p: "?p = (sd_publisher (sender ch))\<lparr>shared := (shared (sd_publisher (sender ch)))\<lparr>claimed := b\<rparr>\<rparr>"
    by (simp add: claim_to_def)
  obtain sd2 where sd2: "ch'' = ch\<lparr>sender := sd2\<rparr>" "mem_inv cursors sd2 b ?S ?h" "sd_publisher sd2 = ?p"
    "ps' = \<lparr>start_seq = t + 1, end_seq = b, next_seq = min ?k (b + 1), wps_recycler = reset_to d\<rparr>"
    "\<And>q. q \<in> ?S \<Longrightarrow> q < ?k \<Longrightarrow> get_ref_at (sd_ring sd2) q = vs ! nat (q - (t + 1))"
    using write_all_props [OF _ _ _ _ _ _ fill, of b ?S ?h] A(1) tb by (auto simp: b_def)
  have commit: "batch_commit T ps' ch'' = ch\<lparr>sender := permits_drop (barrier T) ps' sd2\<rparr>"
    by (simp add: batch_commit_def permits_commit_def sd2(1))
  have ab: "{start_seq ps'..end_seq ps'} \<subseteq> ?S" "start_seq ps' \<le> end_seq ps'" "start_seq ps' \<le> next_seq ps'"
    using tb by (simp_all add: sd2(4))
  have bounds: "start_seq ps' = t + 1" "end_seq ps' = b" by (simp_all add: sd2(4))
  note pub = permits_drop_publisher [OF sd2(2) ab]
  have panic: "(\<exists>q. next_seq ps' \<le> q \<and> q \<le> end_seq ps' \<and> snd (wps_recycler ps' (get_ref_at (sd_ring sd2) q)))
      \<longleftrightarrow> ?k \<le> b \<and> d = None"
    using tb by (auto simp: sd2(4) reset_to_def reset_with_def split: option.splits)
  show ?thesis
  proof (cases "?k \<le> b \<and> d = None")
    case True
    have m: "mem_inv cursors (permits_drop (barrier T) ps' sd2) b ?S ?h"
      using permits_drop_panic(1) [OF sd2(2) ab] panic True by blast
    have pub': "sd_publisher (permits_drop (barrier T) ps' sd2) = mp_terminate (barrier T) ?p"
      unfolding pub panic using True sd2(3) by simp
    note R = terminate_refines [OF inv A(5) p A(2) [folded b_def] m pub' tb(1)]
    moreover have "batch_items d vs n = None" using True by (simp add: batch_items_def b_def)
    ultimately show ?thesis by (intro exI [of _ ?S]) (simp add: commit publish_items_def flip: b_def)
  next
    case False
    have calm: "\<not> snd (wps_recycler ps' (get_ref_at (sd_ring sd2) q))" if "next_seq ps' \<le> q" "q \<le> end_seq ps'" for q
      using panic False that by blast
    define h' where "h' = (\<lambda>q. if start_seq ps' \<le> q \<and> q < next_seq ps' \<and> q \<le> end_seq ps' then get_ref_at (sd_ring sd2) q
         else if next_seq ps' \<le> q \<and> q \<le> end_seq ps'
         then fst (wps_recycler ps' (get_ref_at (sd_ring sd2) q)) else ?h q)"
    have m: "mem_inv cursors (permits_drop (barrier T) ps' sd2) b {} h'"
    proof -
      have "mem_inv cursors (permits_drop (barrier T) ps' sd2) b (?S - {start_seq ps'..end_seq ps'}) h'"
        unfolding h'_def using sd2(2) ab calm by (rule permits_drop_keeps)
      moreover have "?S - {start_seq ps'..end_seq ps'} = {}" by (simp add: sd2(4))
      ultimately show ?thesis by (simp only:)
    qed
    have pub': "sd_publisher (permits_drop (barrier T) ps' sd2) = mp_commit_range (barrier T) (t + 1) b ?p"
      unfolding pub panic using False sd2(3) bounds by auto
    have old: "h' q = ?h q" if "q \<le> t" for q
      using that tb by (auto simp: h'_def sd2(4))
    note R = publish_refines [OF inv A(5) p m pub' less_imp_le [OF tb(1)] old]
    have "n \<le> length vs \<or> d \<noteq> None" using False by (auto simp: b_def)
    then obtain ws where ws: "batch_items d vs n = Some ws" "length ws = n"
      "\<forall>k < n. if k < length vs then ws ! k = vs ! k else d = Some (ws ! k)"
      by (rule batch_itemsE)
    have "map h' [t + 1..t + int n] = ws"
      by (rule committed_items [OF ws(2,3), where g = "get_ref_at (sd_ring sd2)"])
        (use sd2(5) in \<open>auto simp: h'_def sd2(4) b_def\<close>)
    then show ?thesis using R ws(1) by (intro exI [of _ "{}"]) (simp add: commit publish_items_def flip: b_def)
  qed
qed

lemma perform_send_many:
  assumes inv: "chan_inv cursors ch t P" and senders: "0 < sender_count ch" and t: "t < 2 ^ 60"
    and limit: "int limit < 2 ^ 63" and step: "perform T (SendMany limit d vs) ch = (a, ch')"
  shows "simulated cursors (SendMany limit d vs) ch t a ch'"
proof (cases "limit = 0")
  case True
  let ?ps = "\<lparr>start_seq = 0, end_seq = - 1, next_seq = 0, wps_recycler = reset_to d\<rparr>"
  have "sd_try_send_at_most (barrier T) limit (reset_to d) (sender ch) = (Inr ?ps, sender ch)"
    using True by (simp add: sd_try_send_at_most_def)
  moreover have "write_all T ?ps vs ch = (?ps, ch)" by (cases vs) (simp_all add: permits_next_def)
  moreover have "batch_commit T ?ps ch = ch" by (simp add: batch_commit_def permits_commit_def permits_drop_def)
  moreover have "permits_total_reserved ?ps = 0" by (simp add: permits_total_reserved_def i64_as_usize_def)
  ultimately have "a = SentMany (Inr 0)" "ch' = ch"
    using step by (simp_all add: try_send_at_most_def on_sender_def)
  then show ?thesis using simulatedI [OF inv, of t] True by simp
next
  case False
  then have lim: "1 \<le> limit" "usize_as_i64 limit = int limit" using limit by (simp_all add: usize_as_i64_id)
  note C = claim_refines(1) [OF inv senders lim(1)]
  show ?thesis
  proof (cases "spec_claim limit (abs_channel cursors ch)")
    case (Inl e)
    then have "sd_try_send_at_most (barrier T) limit (reset_to d) (sender ch) =
        (Inl (at_most_error_of e), sender ch)"
      using C False lim(2) by (simp add: sd_try_send_at_most_def map_error_def)
    then show ?thesis using step simulatedI [OF inv, of t] Inl False
      by (simp add: try_send_at_most_def on_sender_def)
  next
    case (Inr n)
    note A = after_claim [OF inv senders lim(1) t Inr]
    let ?ps = "\<lparr>start_seq = t + 1, end_seq = t + int n, next_seq = t + 1, wps_recycler = reset_to d\<rparr>"
    have "sd_try_send_at_most (barrier T) limit (reset_to d) (sender ch) = (Inr ?ps, claim_to ch (t + int n))"
      using C Inr False lim(2) by (simp add: sd_try_send_at_most_def map_error_def claim_to_def)
    then have send: "try_send_at_most T limit (reset_to d) ch = (Inr ?ps, ch\<lparr>sender := claim_to ch (t + int n)\<rparr>)"
      by (simp add: try_send_at_most_def on_sender_def)
    obtain ps' ch'' where fill: "write_all T ?ps vs (ch\<lparr>sender := claim_to ch (t + int n)\<rparr>) = (ps', ch'')"
      by fastforce
    have "- 1 \<le> t" using pub_invD(9) [OF chan_invD(2) [OF inv]] .
    then have "permits_total_reserved ?ps = n"
      using A(6) by (simp add: permits_total_reserved_def i64_as_usize_id)
    then have "a = SentMany (Inr n)" "ch' = batch_commit T ps' ch''"
      using step send fill by simp_all
    moreover obtain P' where "chan_inv cursors (batch_commit T ps' ch'') (t + int n) P'"
      "abs_channel cursors (batch_commit T ps' ch'') = publish_items (batch_items d vs n) (abs_channel cursors ch)"
      using fill_batch [OF inv senders lim(1) t Inr fill] by blast
    ultimately show ?thesis using simulatedI [of ch' "t + int n" P' t] A(6) Inr False by simp
  qed
qed

end

section \<open>Closing, cloning, dropping\<close>

lemma claimed_tight_close:
  assumes "claimed_tight raw t" "- 1 \<le> t" "t < 2 ^ 61"
  shows "claimed_tight (raw OR SHUTDOWN_MASK) t" "claimed_inv (raw OR SHUTDOWN_MASK) t"
    "0 \<le> t \<Longrightarrow> has_shutdown (raw OR SHUTDOWN_MASK)"
proof -
  consider "t = - 1" "raw = - 1" | "0 \<le> t" "raw = t" | "0 \<le> t" "raw = t - 2 ^ 63"
    using assms by (force simp: claimed_tight_def)
  then show "claimed_tight (raw OR SHUTDOWN_MASK) t" "claimed_inv (raw OR SHUTDOWN_MASK) t"
    "0 \<le> t \<Longrightarrow> has_shutdown (raw OR SHUTDOWN_MASK)"
    using assms(3) shutdown_flag_set [of raw]
    by (cases; simp add: claimed_tight_def claimed_inv_def has_shutdown_def)+
qed

context topology_contract
begin

lemma close_refines:
  fixes ch :: "('g, 'a) channel"
  defines "ch' \<equiv> ch\<lparr>sender_count := 0, sender := (sender ch)\<lparr>sd_publisher := (sd_publisher (sender ch))
     \<lparr>shared := close (barrier T) (shared (sd_publisher (sender ch)))\<rparr>\<rparr>\<rparr>"
  assumes inv: "chan_inv cursors ch t P"
  shows "chan_inv cursors ch' t P"
    "abs_channel cursors ch' = (abs_channel cursors ch)\<lparr>senders := 0, closed := True\<rparr>"
proof -
  note D = pub_invD [OF chan_invD(2) [OF inv]] and M = mem_invD [OF chan_invD(1) [OF inv]]
  note C = claimed_tight_close [OF chan_inv_tight [OF inv] D(9,10)]
  let ?p = "sd_publisher (sender ch')"
  have bound: "close_boundary (shared (sd_publisher (sender ch))) = frontier t P + 1"
    using chan_invD(3) [OF inv] by (simp add: top_of_def)
  have st: "states_of ch' = mark_shutdown (states_of ch) (frontier t P + 1)"
    and cl: "claimed_of ch' = claimed_of ch OR SHUTDOWN_MASK"
    and same: "cursors (gate_of ch') = cursors (gate_of ch)" "mp_meta ?p = mp_meta (sd_publisher (sender ch))"
      "sd_ring (sender ch') = sd_ring (sender ch)" "sender_count ch' = 0"
      "ss_buffer_size (shared ?p) = ss_buffer_size (shared (sd_publisher (sender ch)))"
    using bound by (simp_all add: ch'_def close_def notify_gate_def Let_def cursor_load_def cursor_store_def
        gate_of_def notify_cursors)
  have "pub_inv (cursors (gate_of ch')) ?p t P"
    using D(1-5) C(2) st cl same by (simp add: pub_inv_def flags_inv_mark_shutdown)
  then have m: "mem_inv cursors (sender ch') t P (get_ref_at (sd_ring (sender ch')))"
    using M(2,3) same by (simp add: mem_inv_def gate_of_def)
  have "marked (states_of ch') (frontier t P + 1)" using D(11) st by (simp add: marked_mark_shutdown)
  then have closed': "closed_at ch' t P" using C(1,3) cl same(4) by (simp add: closed_at_def)
  then show inv': "chan_inv cursors ch' t P" using m by (simp add: chan_inv_def)
  show "abs_channel cursors ch' = (abs_channel cursors ch)\<lparr>senders := 0, closed := True\<rparr>"
    using chan_invD(4) [OF inv'] closed' same
    by (simp add: abs_channel_def chan_invD(3) [OF inv] chan_invD(3) [OF inv'])
qed

lemma sender_count_refines:
  assumes inv: "chan_inv cursors ch t P" and n: "0 < sender_count ch" "0 < n"
  shows "chan_inv cursors (ch\<lparr>sender_count := n\<rparr>) t P"
    "abs_channel cursors (ch\<lparr>sender_count := n\<rparr>) = (abs_channel cursors ch)\<lparr>senders := n\<rparr>"
proof -
  show "chan_inv cursors (ch\<lparr>sender_count := n\<rparr>) t P"
    using inv n by (auto simp: chan_inv_def open_at_def closed_at_def)
  show "abs_channel cursors (ch\<lparr>sender_count := n\<rparr>) = (abs_channel cursors ch)\<lparr>senders := n\<rparr>"
    by (simp add: abs_channel_def top_of_def gate_of_def)
qed

lemma perform_drop_sender:
  assumes inv: "chan_inv cursors ch t P" and senders: "0 < sender_count ch"
    and step: "perform T DropSender ch = (a, ch')"
  shows "simulated cursors DropSender ch t a ch'"
proof (cases "sender_count ch = 1")
  case True
  then have "ch' = ch\<lparr>sender_count := 0, sender := (sender ch)\<lparr>sd_publisher := (sd_publisher (sender ch))
     \<lparr>shared := close (barrier T) (shared (sd_publisher (sender ch)))\<rparr>\<rparr>\<rparr>" "a = Done"
    using step by (simp_all add: sender_drop_def shared_drop_def)
  moreover have "senders (abs_channel cursors ch) = 1" using True by (simp add: abs_channel_def)
  ultimately show ?thesis
    using close_refines [OF inv] simulatedI [of ch' t P t] by simp
next
  case False
  then have "0 < sender_count ch - 1" using senders by simp
  note R = sender_count_refines [OF inv senders this]
  have "ch' = ch\<lparr>sender_count := sender_count ch - 1\<rparr>" "a = Done"
    using step False senders by (simp_all add: sender_drop_def Let_def)
  moreover have "senders (abs_channel cursors ch) = sender_count ch" by (simp add: abs_channel_def)
  ultimately show ?thesis
    using R simulatedI [of ch' t P t] False senders by simp
qed

lemma perform_drop_receiver:
  assumes inv: "chan_inv cursors ch t P" and i: "receiver_there i (abs_channel cursors ch)"
    and step: "perform T (DropReceiver i) ch = (a, ch')"
  shows "simulated cursors (DropReceiver i) ch t a ch'"
proof -
  let ?v = "cs_drop (view T i ch)"
  have v: "consumed ?v = SHUTDOWN_OPEN" by (simp add: cs_drop_def cursor_store_def)
  have "a = Done" "ch' = store_view T i ?v ch" using step by (simp_all add: receiver_drop_def)
  then show ?thesis
    using store_view_refines [OF inv abs_receiver(1) [OF inv i], of ?v] v simulatedI [of ch' t P t]
    by (simp add: abs_queue_def is_shutdown_open_def)
qed

section \<open>Every call, and every run\<close>

theorem perform_simulates:
  assumes inv: "chan_inv cursors ch t P" and t: "t < 2 ^ 60"
    and ok: "call_ok call (abs_channel cursors ch)" and step: "perform T call ch = (a, ch')"
  shows "simulated cursors call ch t a ch'"
proof -
  have senders: "senders (abs_channel cursors ch) = sender_count ch" by (simp add: abs_channel_def)
  show ?thesis
  proof (cases call)
    case (Recv i)
    then show ?thesis using perform_recv [OF inv, of i a ch'] ok step by (auto intro: simulatedI)
  next
    case (RecvMany i limit)
    then show ?thesis using perform_recv_many [OF inv, of i limit a ch'] ok step by (auto intro: simulatedI)
  next
    case CloneSender
    then have "ch' = ch\<lparr>sender_count := sender_count ch + 1\<rparr>" "a = Done"
      using step by (simp_all add: sender_clone_def)
    then show ?thesis
      using sender_count_refines [OF inv, of "sender_count ch + 1"] CloneSender ok senders
        simulatedI [of ch' t P t]
      by simp
  next
    case (Send v)
    then show ?thesis using perform_send [OF inv _ t, of v a ch'] ok step senders by simp
  next
    case (Reserve d item)
    then show ?thesis using perform_reserve [OF inv _ t, of d item a ch'] ok step senders by simp
  next
    case (SendMany limit d vs)
    then show ?thesis using perform_send_many [OF inv _ t, of limit d vs a ch'] ok step senders by simp
  next
    case DropSender
    then show ?thesis using perform_drop_sender [OF inv, of a ch'] ok step senders by simp
  next
    case (DropReceiver i)
    then show ?thesis using perform_drop_receiver [OF inv, of i a ch'] ok step by simp
  qed
qed

theorem run_simulates:
  assumes "chan_inv cursors ch t P" "calls_ok calls (abs_channel cursors ch)"
    and "t + int (length calls) * 2 ^ 30 < 2 ^ 60 + 2 ^ 30"
  shows "spec_run calls (abs_channel cursors ch) =
      (fst (run T calls ch), abs_channel cursors (snd (run T calls ch)))"
  using assms
proof (induction calls arbitrary: ch t P)
  case (Cons call calls)
  obtain a ch1 where step: "perform T call ch = (a, ch1)" by fastforce
  have "t < 2 ^ 60" using Cons.prems(3) by simp
  then have "simulated cursors call ch t a ch1"
    using perform_simulates [OF Cons.prems(1) _ _ step] Cons.prems(2) by simp
  then obtain t1 P1 where s: "chan_inv cursors ch1 t1 P1" "t1 \<le> t + 2 ^ 30"
    "spec_perform call (abs_channel cursors ch) = (a, abs_channel cursors ch1)"
    by (auto simp: simulated_def)
  have "t1 + int (length calls) * 2 ^ 30 < 2 ^ 60 + 2 ^ 30"
    using s(2) Cons.prems(3) by (simp add: algebra_simps)
  then have "spec_run calls (abs_channel cursors ch1) =
      (fst (run T calls ch1), abs_channel cursors (snd (run T calls ch1)))"
    using Cons.IH [OF s(1)] s(3) Cons.prems(2) by simp
  then show ?case using step s(3) by (simp split: prod.split)
qed simp

end

section \<open>Construction\<close>

lemma new_channel_refines:
  assumes rb: "ring_ok rb" and g: "cursors gate = replicate n INIT"
  defines "ch \<equiv> \<lparr>sender = \<lparr>sd_publisher = mp_new gate (rb_meta rb), sd_ring = rb\<rparr>, sender_count = 1\<rparr>"
  shows "chan_inv cursors ch (- 1) {}"
    "abs_channel cursors ch = spec_new n (nat (buffer_size (rb_meta rb)))"
proof -
  have m: "meta_ok (rb_meta rb)" using rb by (simp add: ring_ok_def)
  have parts: "states_of ch = new_all_empty (rb_meta rb)" "claimed_of ch = - 1" "gate_of ch = gate"
    "mp_meta (sd_publisher (sender ch)) = rb_meta rb"
    by (simp_all add: ch_def mp_new_def shared_new_def cursor_default_def cursor_new_def INIT_def gate_of_def)
  have "st_meta (new_all_empty (rb_meta rb)) = rb_meta rb" by (simp add: new_all_empty_def Let_def)
  then have "pub_inv (replicate n INIT) (sd_publisher (sender ch)) (- 1) {}"
    using m parts flags_inv_new [OF m] buffer_size_pos [OF m]
    by (simp add: pub_inv_def claimed_inv_def cursors_inv_def live_cursor_def INIT_def)
      (simp add: ch_def mp_new_def shared_new_def)
  then have "mem_inv cursors (sender ch) (- 1) {} (get_ref_at rb)"
    using rb g parts(3,4) by (simp add: mem_inv_def data_inv_def gate_of_def) (simp add: ch_def)
  moreover have quiet: "quiet (sd_publisher (sender ch))"
    using marked_published_new(1) [OF m] parts(1) by (simp add: quiet_def)
  then have op: "open_at ch (- 1) {}" using parts(2) by (simp add: open_at_def ch_def)
  ultimately show inv: "chan_inv cursors ch (- 1) {}" by (simp add: chan_inv_def ch_def)
  have "\<not> closed (abs_channel cursors ch)"
    using chan_invD(4) [OF inv] op quiet by (auto simp: closed_at_def quiet_def)
  moreover have "top_of ch = - 1" using chan_invD(3) [OF inv] by simp
  ultimately show "abs_channel cursors ch = spec_new n (nat (buffer_size (rb_meta rb)))"
    using g parts(3,4)
    by (simp add: abs_channel_def spec_new_def abs_queue_def is_shutdown_open_def INIT_def SHUTDOWN_OPEN_def)
      (simp add: ch_def)
qed

text \<open>A valid capacity gives a channel (the constructors do not panic), and an invalid one the
  error that tells why.\<close>

lemma valid_init:
  assumes "validate cap = Inr u"
  obtains rb where "init_with cap f = Some rb" "ring_ok rb" "buffer_size (rb_meta rb) = int cap"
    "slots rb = map f [0..<cap]"
proof -
  have v: "is_power_of_two cap" "cap \<le> 2 ^ 30"
    using assms by (auto simp: validate_def MAX_CHANNEL_SIZE_def split: if_splits)
  then obtain m where "meta_new cap = Some m" by (auto simp: meta_new_def MAX_CHANNEL_SIZE_def)
  then have "init_with cap f = Some \<lparr>slots = map f [0..<cap], rb_meta = m\<rparr>"
    by (simp add: init_with_def)
  then show thesis using that init_with_ok by fastforce
qed

theorem fanout_new:
  assumes "validate cap = Inr u"
  obtains ch where "fanout_channel_with n w cap f = Inr (Some ch)"
    "chan_inv fan_consumed ch (- 1) {}" "abs_channel fan_consumed ch = spec_new n cap"
    "slots (sd_ring (sender ch)) = map f [0..<cap]"
proof -
  obtain rb where rb: "init_with cap f = Some rb" "ring_ok rb" "buffer_size (rb_meta rb) = int cap"
    "slots rb = map f [0..<cap]"
    using valid_init [OF assms] by blast
  have "fan_consumed (fan_new n w) = replicate n INIT" by (simp add: fan_new_def cursor_new_def)
  note N = new_channel_refines [where cursors = fan_consumed, OF rb(2) this]
  show thesis
    using that [of "fanout_channel_with_ring n w rb"] N rb assms
    by (simp add: fanout_channel_with_def fanout_channel_with_ring_def)
qed

theorem mpsc_new:
  assumes "validate cap = Inr u"
  obtains ch where "mpsc_channel_with w cap f = Inr (Some ch)"
    "chan_inv (\<lambda>g. [ex_consumed g]) ch (- 1) {}"
    "abs_channel (\<lambda>g. [ex_consumed g]) ch = spec_new 1 cap"
    "slots (sd_ring (sender ch)) = map f [0..<cap]"
proof -
  obtain rb where rb: "init_with cap f = Some rb" "ring_ok rb" "buffer_size (rb_meta rb) = int cap"
    "slots rb = map f [0..<cap]"
    using valid_init [OF assms] by blast
  have m: "meta_new cap = Some (rb_meta rb)"
    using rb(1) by (auto simp: init_with_def split: option.splits)
  have "cap \<le> 2 ^ 30" using assms by (auto simp: validate_def MAX_CHANNEL_SIZE_def split: if_splits)
  then have "int cap < 2 ^ 63" by simp
  then have "i64_as_usize (int cap) = cap" by (simp add: i64_as_usize_id)
  then have "mpsc_channel_with_ring w rb = Some \<lparr>sender = \<lparr>sd_publisher = mp_new (ex_new w) (rb_meta rb),
      sd_ring = rb\<rparr>, sender_count = 1\<rparr>"
    using m rb(3) by (simp add: mpsc_channel_with_ring_def rb_capacity_def)
  moreover have "[ex_consumed (ex_new w)] = replicate 1 INIT" by (simp add: ex_new_def cursor_new_def)
  note N = new_channel_refines [where cursors = "\<lambda>g. [ex_consumed g]", OF rb(2) this]
  ultimately show thesis
    using that N rb assms by (simp add: mpsc_channel_with_def)
qed

text \<open>Runs from the constructors, at most \<open>2 ^ 30\<close> calls long.\<close>

lemma fanout_runs:
  assumes "fanout_channel_with n w cap f = Inr (Some ch)"
    and "calls_ok calls (spec_new n cap)" "length calls \<le> 2 ^ 30"
  shows "spec_run calls (spec_new n cap) =
    (fst (run (fanout wake) calls ch), abs_channel fan_consumed (snd (run (fanout wake) calls ch)))"
proof -
  have "validate cap = Inr ()"
    using assms(1) by (auto simp: fanout_channel_with_def split: sum.splits)
  then obtain ch0 where ch0: "fanout_channel_with n w cap f = Inr (Some ch0)"
    "chan_inv fan_consumed ch0 (- 1) {}" "abs_channel fan_consumed ch0 = spec_new n cap"
    by (rule fanout_new)
  have "int (length calls) \<le> 2 ^ 30" using assms(3) by simp
  then show ?thesis
    using fan_wiring.run_simulates [OF ch0(2), of calls] ch0 assms(1,2) by simp
qed

lemma mpsc_runs:
  assumes "mpsc_channel_with w cap f = Inr (Some ch)"
    and "calls_ok calls (spec_new 1 cap)" "length calls \<le> 2 ^ 30"
  shows "spec_run calls (spec_new 1 cap) =
    (fst (run (mpsc wake) calls ch), abs_channel (\<lambda>g. [ex_consumed g]) (snd (run (mpsc wake) calls ch)))"
proof -
  have "validate cap = Inr ()"
    using assms(1) by (auto simp: mpsc_channel_with_def split: sum.splits)
  then obtain ch0 where ch0: "mpsc_channel_with w cap f = Inr (Some ch0)"
    "chan_inv (\<lambda>g. [ex_consumed g]) ch0 (- 1) {}" "abs_channel (\<lambda>g. [ex_consumed g]) ch0 = spec_new 1 cap"
    by (rule mpsc_new)
  have "int (length calls) \<le> 2 ^ 30" using assms(3) by simp
  then show ?thesis
    using mpsc_wiring.run_simulates [OF ch0(2), of calls] ch0 assms(1,2) by simp
qed

end
