(* ===== verification/PartProperties.thy ===== *)
theory PartProperties
  imports Refinement
begin

text \<open>
  The properties of the single parts of the crate: the geometry of a ring (\<open>ringbuffer.rs\<close>), the
  slot states and their scans (\<open>slot_states.rs\<close>), the gates (\<open>con_fanout.rs\<close>), and the publisher's
  and the consumer's sequencers (\<open>pub_mul.rs\<close>, \<open>consumer.rs\<close>), each with an instance it is applied
  to.
\<close>

section \<open>Geometry\<close>

text \<open>C30: The slot index is the sequence number modulo the capacity, for negative sequence numbers
  too, and any window of one ring length is mapped onto the slots without collision: the unchecked
  accesses of the ring are in bounds and two live sequence numbers never share a cell.\<close>

theorem slot_of_sequence:
  assumes "meta_new n = Some m"
  shows "int (index_of_seq m s) = s mod int n \<and> index_of_seq m s < n \<and>
    bij_betw (index_of_seq m) {s..<s + int n} {..<n}"
proof -
  have m: "meta_ok m" "buffer_size m = int n" using meta_new_ok [OF assms] by simp_all
  have less: "index_of_seq m q < n" for q using index_of_seq_less [OF m(1)] m(2) by simp
  have "inj_on (index_of_seq m) {s..<s + int n}"
    by (rule inj_onI) (use index_of_seq_eq_iff [OF m(1)] m(2) in auto)
  moreover from this have "card (index_of_seq m ` {s..<s + int n}) = n" by (simp add: card_image)
  then have "index_of_seq m ` {s..<s + int n} = {..<n}"
    using less by (intro card_subset_eq) auto
  ultimately show ?thesis
    using less buffer_size_pos [OF m(1)] m by (simp add: bij_betw_def index_of_seq_mod)
qed

theorem slot_of_sequence_witness:
  "\<exists>m. meta_new 8 = Some m \<and> int (index_of_seq m (- 3)) = 5 \<and> bij_betw (index_of_seq m) {6..<14} {..<8}"
proof -
  have m: "meta_new 8 = Some \<lparr>index_mask = 7, buffer_size = 8\<rparr>" by code_simp
  from slot_of_sequence [OF m, of "- 3"] slot_of_sequence [OF m, of 6] m show ?thesis by simp
qed

text \<open>C31: What one pass of the claim loop decides, without overflow: with no live consumer it is a
  shutdown; with no room between the slowest consumer and the ring's end it is \<open>Empty\<close>; else it
  claims the next sequence numbers, as many as there is room for and were asked for.\<close>

theorem claim_decision:
  assumes "meta_ok m" "- 1 \<le> l" "l < 2 ^ 61" "1 \<le> n"
    and "\<not> ss_shutdown answer \<Longrightarrow> - 1 \<le> ss_seq answer \<and> ss_seq answer < 2 ^ 61"
  shows "claim_target m n l answer =
    (if ss_shutdown answer then Inl ClaimShutdown
     else if ss_seq answer + buffer_size m \<le> l then Inl ClaimEmpty
     else Inr (l + 1, min (ss_seq answer + buffer_size m) (l + n)))"
proof (cases "ss_shutdown answer")
  case False
  then have "answer = \<lparr>ss_seq = ss_seq answer, ss_shutdown = False\<rparr>" by simp
  with claim_target_eq [OF assms(1-3), of "ss_seq answer" n] assms(4,5) False show ?thesis
    by (simp add: Let_def min_def algebra_simps)
qed (simp add: claim_target_def)

theorem claim_decision_witness:
  "claim_target \<lparr>index_mask = 3, buffer_size = 4\<rparr> 3 5 \<lparr>ss_seq = 3, ss_shutdown = False\<rparr> = Inr (6, 7)"
  using claim_decision [of "\<lparr>index_mask = 3, buffer_size = 4\<rparr>" 5 3 "\<lparr>ss_seq = 3, ss_shutdown = False\<rparr>"]
  by (simp add: meta_ok_def is_power_of_two.simps)

section \<open>Slot states\<close>

text \<open>C29: How far a slot's flag can be trusted: a published sequence number is taken for another
  one of its slot exactly when the two are a multiple of \<open>2^31\<close> laps apart (31 bits of the state
  hold the lap).\<close>

theorem slot_flag_collision:
  assumes "slots_ok st" "published st a" "slot_index st a = slot_index st b"
  shows "published st b \<longleftrightarrow> 2 ^ 31 * ring_size st dvd a - b"
proof -
  have pos: "0 < ring_size st" using assms(1) by (simp add: slots_ok_def buffer_size_pos)
  have "published st b \<longleftrightarrow> available_flag st a = available_flag st b"
    using assms(2,3) by (auto simp: published_def)
  also have "\<dots> \<longleftrightarrow> 2 ^ 31 dvd lap st a - lap st b"
    by (simp add: available_flag_eq_iff [OF assms(1)] mod_eq_dvd_iff)
  also have "\<dots> \<longleftrightarrow> 2 ^ 31 * ring_size st dvd a - b"
    using pos by (simp only: lap_diff_same_slot [OF assms(1,3)] dvd_times_right_cancel_iff)
  finally show ?thesis .
qed

theorem slot_flag_collision_witness:
  "let st = publish (new_all_empty \<lparr>index_mask = 3, buffer_size = 4\<rparr>) 5
   in published st (5 + 2 ^ 33) \<and> \<not> published st (5 + 2 ^ 32)"
proof -
  let ?st = "publish (new_all_empty \<lparr>index_mask = 3, buffer_size = 4\<rparr>) 5"
  have ok: "slots_ok ?st" by (simp add: slots_ok_new meta_ok_def is_power_of_two.simps)
  have "published ?st 5 \<and> slot_index ?st 5 = slot_index ?st (5 + 2 ^ 33) \<and>
    slot_index ?st 5 = slot_index ?st (5 + 2 ^ 32) \<and> ring_size ?st = 4"
    by code_simp
  with slot_flag_collision [OF ok, of 5 "5 + 2 ^ 33"] slot_flag_collision [OF ok, of 5 "5 + 2 ^ 32"]
  show ?thesis by simp
qed

text \<open>C33: Publishing a range and scanning it gives the range back, whole and without a shutdown
  marker, whatever its slots held before.\<close>

theorem publish_scan_roundtrip:
  assumes "slots_ok st" "- (2 ^ 62) < a" "a < 2 ^ 62" "a \<le> b" "b - a < ring_size st"
  shows "scan_available_until (publish_range st a b) a b = \<lparr>ss_seq = b, ss_shutdown = False\<rparr>"
proof -
  have unmarked: "\<not> marked (foldl publish st ss) t"
    if "slots_ok st" "t \<in> set ss \<or> \<not> marked st t" for st ss t
    using that by (induction ss arbitrary: st) (auto simp: marked_publish)
  let ?st = "publish_range st a b"
  have "\<not> marked ?st s" if "s \<in> {a..b}" for s
    using unmarked [OF assms(1)] that by (simp add: publish_range_def)
  moreover have "ss_seq (scan_available_until ?st a b) = b" using assms by (rule u32.pub_range_scan)
  ultimately have "\<not> ss_shutdown (scan_available_until ?st a b)"
    using scan_available_until_eq(2) [OF assms(2,3), of ?st b] by auto
  then show ?thesis using \<open>ss_seq _ = b\<close> by simp
qed

theorem publish_scan_roundtrip_witness:
  "scan_available_until (publish_range (mark_shutdown (new_all_empty \<lparr>index_mask = 3, buffer_size = 4\<rparr>) 7) 6 8) 6 8 =
    \<lparr>ss_seq = 8, ss_shutdown = False\<rparr>"
  by (rule publish_scan_roundtrip)
    (simp_all add: slots_ok_new meta_ok_def is_power_of_two.simps, simp add: new_all_empty_def Let_def)

text \<open>The consumer's scan finds the longest run of published sequence numbers from the start
  on, cut at the end, and reports a marker exactly if a slot it looked at carries one.\<close>

theorem scan_finds_longest_run:
  assumes "- (2 ^ 62) < a" "a < 2 ^ 62"
  shows "scan_available_until st a b = \<lparr>ss_seq = r, ss_shutdown = d\<rparr> \<longleftrightarrow>
    a - 1 \<le> r \<and> r \<le> max (a - 1) b \<and> (\<forall>q. a \<le> q \<and> q \<le> r \<longrightarrow> published st q) \<and>
    (r < b \<longrightarrow> \<not> published st (r + 1)) \<and> (d \<longleftrightarrow> (\<exists>q. a \<le> q \<and> q \<le> b \<and> q \<le> r + 1 \<and> marked st q))"
    (is "?L \<longleftrightarrow> ?R")
proof -
  let ?r = "last_run (published st) a b"
  have L: "?L \<longleftrightarrow> r = ?r \<and> (d \<longleftrightarrow> (\<exists>q. a \<le> q \<and> q \<le> b \<and> q \<le> ?r + 1 \<and> marked st q))"
    using scan_available_until_eq [OF assms, of st b]
    by (cases "scan_available_until st a b") auto
  have run: "r = ?r \<longleftrightarrow> a - 1 \<le> r \<and> r \<le> max (a - 1) b \<and> (\<forall>q. a \<le> q \<and> q \<le> r \<longrightarrow> published st q) \<and>
    (r < b \<longrightarrow> \<not> published st (r + 1))"
  proof (cases "a \<le> b")
    case True
    show ?thesis
    proof
      show "r = ?r \<Longrightarrow> a - 1 \<le> r \<and> r \<le> max (a - 1) b \<and> (\<forall>q. a \<le> q \<and> q \<le> r \<longrightarrow> published st q) \<and>
        (r < b \<longrightarrow> \<not> published st (r + 1))"
        using last_run_bounds(1) [of a "published st" b] last_run_bounds(3) [of "published st" a b] last_run_maximal [OF _ True, of "published st"]
          last_run_all [of a _ "published st" b] by simp
      show "a - 1 \<le> r \<and> r \<le> max (a - 1) b \<and> (\<forall>q. a \<le> q \<and> q \<le> r \<longrightarrow> published st q) \<and>
        (r < b \<longrightarrow> \<not> published st (r + 1)) \<Longrightarrow> r = ?r"
        using True by (intro last_run_eqI [symmetric]) auto
    qed
  next
    case False
    then show ?thesis by auto
  qed
  show ?thesis unfolding L using run by auto
qed

theorem scan_finds_longest_run_witness:
  "let st = publish_range (new_all_empty \<lparr>index_mask = 3, buffer_size = 4\<rparr>) 0 1
   in scan_available_until st 0 3 = \<lparr>ss_seq = 1, ss_shutdown = False\<rparr> \<and> published st 0 \<and> \<not> published st 2"
proof -
  let ?st = "publish_range (new_all_empty \<lparr>index_mask = 3, buffer_size = 4\<rparr>) 0 1"
  have "scan_available_until ?st 0 3 = \<lparr>ss_seq = 1, ss_shutdown = False\<rparr>" by code_simp
  with scan_finds_longest_run [of 0 ?st 3 1 False] show ?thesis by (simp add: Let_def)
qed

text \<open>What a publication and a shutdown mark change, within one ring length: a publication
  makes its sequence number available and clears its slot's marker, a mark keeps what is available
  and adds a marker; no other sequence number is affected.\<close>

theorem slot_updates_are_local:
  assumes "slots_ok st" "\<bar>s - t\<bar> < ring_size st"
  shows "(published (publish st s) t \<longleftrightarrow> s = t \<or> published st t) \<and>
    (marked (publish st s) t \<longleftrightarrow> s \<noteq> t \<and> marked st t) \<and>
    (published (mark_shutdown st s) t \<longleftrightarrow> published st t) \<and>
    (marked (mark_shutdown st s) t \<longleftrightarrow> s = t \<or> marked st t)"
proof -
  have "slot_index st s = slot_index st t \<longleftrightarrow> s = t"
    using assms by (simp add: slots_ok_def slot_index_def index_of_seq_eq_iff)
  then show ?thesis
    using assms by (simp add: published_publish marked_publish marked_mark_shutdown)
qed

theorem slot_updates_are_local_witness:
  "let st = mark_shutdown (new_all_empty \<lparr>index_mask = 3, buffer_size = 4\<rparr>) 2
   in marked (publish st 1) 2 \<and> \<not> marked (publish st 2) 2 \<and> published (publish st 2) 2"
proof -
  let ?st = "mark_shutdown (new_all_empty \<lparr>index_mask = 3, buffer_size = 4\<rparr>) 2"
  have ok: "slots_ok ?st" by (simp add: slots_ok_new meta_ok_def is_power_of_two.simps)
  have "ring_size ?st = 4" "marked ?st 2" by code_simp+
  with slot_updates_are_local [OF ok, of 1 2] slot_updates_are_local [OF ok, of 2 2] show ?thesis
    by (simp add: Let_def)
qed

section \<open>Gates\<close>

text \<open>The fan-out gate answers with the position of the slowest consumer that has not left, and
  with a shutdown exactly when all have left.\<close>

theorem fan_gate_answer:
  assumes "cursors_ok (fan_consumed g)"
  shows "fan_max_consumed g =
    (let live = {c \<in> set (fan_consumed g). c \<noteq> SHUTDOWN_OPEN}
     in if live = {} then \<lparr>ss_seq = SHUTDOWN_OPEN, ss_shutdown = True\<rparr>
        else \<lparr>ss_seq = Min live, ss_shutdown = False\<rparr>)"
proof -
  let ?cs = "set (fan_consumed g)" and ?live = "{c \<in> set (fan_consumed g). c \<noteq> SHUTDOWN_OPEN}"
  have le: "c \<le> SHUTDOWN_OPEN" if "c \<in> ?cs" for c using assms that by (simp add: cursors_ok_def)
  have "Min (insert SHUTDOWN_OPEN ?cs) = (if ?live = {} then SHUTDOWN_OPEN else Min ?live)"
  proof (cases "?live = {}")
    case True
    then have "insert SHUTDOWN_OPEN ?cs = {SHUTDOWN_OPEN}" by auto
    then have "Min (insert SHUTDOWN_OPEN ?cs) = SHUTDOWN_OPEN" by (simp only: Min_singleton)
    with True show ?thesis by (simp only: simp_thms if_True)
  next
    case False
    then have "Min ?live \<in> ?live" by (intro Min_in) simp_all
    moreover have "Min ?live \<le> c" if "c \<in> insert SHUTDOWN_OPEN ?cs" for c
      using that \<open>Min ?live \<in> ?live\<close> le by (cases "c = SHUTDOWN_OPEN") auto
    ultimately have "Min (insert SHUTDOWN_OPEN ?cs) = Min ?live" by (intro Min_eqI) auto
    with False show ?thesis by (simp only: if_False)
  qed
  moreover have "?live \<noteq> {} \<Longrightarrow> Min ?live \<noteq> SHUTDOWN_OPEN" using Min_in [of ?live] by auto
  ultimately show ?thesis by (simp add: fan_max_consumed_def fan_min_loop_eq is_shutdown_open_def Let_def)
qed

theorem fan_gate_answer_witness:
  "fan_max_consumed \<lparr>fan_consumed = [4, SHUTDOWN_OPEN, 2], fan_wakers = [(), (), ()]\<rparr> =
    \<lparr>ss_seq = 2, ss_shutdown = False\<rparr>"
proof -
  let ?g = "\<lparr>fan_consumed = [4, SHUTDOWN_OPEN, 2], fan_wakers = [(), (), ()]\<rparr>"
  have ok: "cursors_ok (fan_consumed ?g)" by (simp add: cursors_ok_def SHUTDOWN_OPEN_def)
  have live: "{c \<in> set (fan_consumed ?g). c \<noteq> SHUTDOWN_OPEN} = {2, 4}" by (auto simp: SHUTDOWN_OPEN_def)
  show ?thesis unfolding fan_gate_answer [OF ok] live by simp
qed

section \<open>The publisher's sequencer\<close>

text \<open>C32: The invariant of the publisher's shared state (every slot flag is that of its window, the
  cursor tells the highest claimed sequence number, no live consumer is more than a ring behind or
  ahead of what is published) is kept by every operation: a claim hands out fresh consecutive
  sequence numbers within its limit or changes nothing, a commit publishes some of them, and a
  close leaves them.\<close>

theorem publisher_invariant_kept:
  fixes p :: "'w fanout_gate multi_publisher"
  assumes "pub_inv (fan_consumed (consumer_gate (shared p))) p t P" "t < 2 ^ 60" "1 \<le> limit"
  shows "(case mp_try_claim_at_most (fan_barrier wake) limit p of
      (Inl e, p') \<Rightarrow> p' = p
    | (Inr (a, b), p') \<Rightarrow> a = t + 1 \<and> a \<le> b \<and> b \<le> t + limit \<and>
        pub_inv (fan_consumed (consumer_gate (shared p'))) p' b (P \<union> {a..b})) \<and>
    ({a..b} \<subseteq> P \<longrightarrow> (let p' = mp_commit_range (fan_barrier wake) a b p
       in pub_inv (fan_consumed (consumer_gate (shared p'))) p' t (P - {a..b}))) \<and>
    (0 \<le> t \<longrightarrow> (let p' = mp_terminate (fan_barrier wake) p
       in pub_inv (fan_consumed (consumer_gate (shared p'))) p' t P \<and> has_shutdown (claimed (shared p'))))"
proof (intro conjI impI)
  let ?B = "fan_barrier wake"
  have limit': "- (2 ^ 61) \<le> limit" using assms(3) by simp
  obtain r p' where r: "mp_try_claim_at_most ?B limit p = (r, p')" by (cases "mp_try_claim_at_most ?B limit p")
  show "case mp_try_claim_at_most ?B limit p of
      (Inl e, p') \<Rightarrow> p' = p
    | (Inr (a, b), p') \<Rightarrow> a = t + 1 \<and> a \<le> b \<and> b \<le> t + limit \<and>
        pub_inv (fan_consumed (consumer_gate (shared p'))) p' b (P \<union> {a..b})"
  proof (cases r)
    case (Inl e)
    then show ?thesis using r fan_gate.claim_error_keeps [OF assms(1) limit', of wake e p'] by simp
  next
    case (Inr ab)
    then obtain a b where ab: "r = Inr (a, b)" by (cases ab) simp
    note K = fan_gate.claim_keeps_inv [OF assms r [unfolded ab]]
    then show ?thesis unfolding r ab by simp
  qed
  show "let p' = mp_commit_range ?B a b p
    in pub_inv (fan_consumed (consumer_gate (shared p'))) p' t (P - {a..b})" if "{a..b} \<subseteq> P"
    using fan_gate.commit_range_keeps_inv [OF assms(1) that, of wake]
    by (simp add: Let_def mp_commit_range_def notify_gate_def fan_barrier_def fan_notify_def)
  show "let p' = mp_terminate ?B p
    in pub_inv (fan_consumed (consumer_gate (shared p'))) p' t P \<and> has_shutdown (claimed (shared p'))" if "0 \<le> t"
    using fan_gate.close_keeps_inv [OF assms(1) that, of wake]
      claimed_inv_close [OF pub_invD(2) [OF assms(1)] that pub_invD(10) [OF assms(1)]]
    by (simp add: Let_def mp_terminate_def close_def notify_gate_def fan_barrier_def fan_notify_def cursor_load_def
        cursor_store_def)
qed

text \<open>A publisher with two consumers and four slots, as new, and after three sequence numbers were
  claimed and the first of them was committed.\<close>

definition meta4 :: ring_meta where
  "meta4 = \<lparr>index_mask = 3, buffer_size = 4\<rparr>"

definition fresh4 :: "unit fanout_gate multi_publisher" where
  "fresh4 = mp_new (fan_new 2 ()) meta4"

definition busy4 :: "unit fanout_gate multi_publisher" where
  "busy4 = mp_commit_range (fan_barrier id) 0 0 (snd (mp_try_claim_at_most (fan_barrier id) 3 fresh4))"

lemma meta4_ok: "meta_ok meta4"
  by (simp add: meta4_def meta_ok_def is_power_of_two.simps)

lemma fresh4_inv: "pub_inv (fan_consumed (consumer_gate (shared fresh4))) fresh4 (- 1) {}"
proof -
  have "ring_ok \<lparr>slots = [(), (), (), ()], rb_meta = meta4\<rparr>"
    using meta4_ok by (simp add: ring_ok_def meta4_def)
  from chan_invD(2) [OF new_channel_refines(1) [OF this, of fan_consumed "fan_new 2 ()" 2]] show ?thesis
    by (simp add: fresh4_def gate_of_def fan_new_def cursor_new_def)
qed

lemma claim_fresh4: "fst (mp_try_claim_at_most (fan_barrier id) 3 fresh4) = Inr (0, 2)"
  by code_simp

theorem publisher_invariant_kept_witness:
  "pub_inv (fan_consumed (consumer_gate (shared (snd (mp_try_claim_at_most (fan_barrier id) 3 fresh4)))))
     (snd (mp_try_claim_at_most (fan_barrier id) 3 fresh4)) 2 {0..2}"
proof -
  obtain p' where p': "mp_try_claim_at_most (fan_barrier id) 3 fresh4 = (Inr (0, 2), p')"
    using claim_fresh4 by (cases "mp_try_claim_at_most (fan_barrier id) 3 fresh4") simp
  from publisher_invariant_kept [OF fresh4_inv, of 3 id] show ?thesis
    unfolding p' by simp
qed

lemma busy4_inv: "pub_inv (fan_consumed (consumer_gate (shared busy4))) busy4 2 {1..2}"
proof -
  obtain p' where p': "mp_try_claim_at_most (fan_barrier id) 3 fresh4 = (Inr (0, 2), p')"
    using claim_fresh4 by (cases "mp_try_claim_at_most (fan_barrier id) 3 fresh4") simp
  note K = fan_gate.claim_keeps_inv [OF fresh4_inv _ _ p']
  have "pub_inv (fan_consumed (consumer_gate (shared fresh4))) p' 2 {0..2}" using K(7) by simp
  moreover have "consumer_gate (shared busy4) = consumer_gate (shared fresh4)"
    unfolding busy4_def p' using K(6)
    by (simp add: mp_commit_range_def notify_gate_def fan_barrier_def fan_notify_def)
  moreover have "{0..2} - {0..0} = {1..(2::int)}" by auto
  ultimately show ?thesis
    using fan_gate.commit_range_keeps_inv [of _ p' 2 "{0..2}" 0 0 id] by (simp add: busy4_def p')
qed

text \<open>C28: Closing puts the shutdown marker on the first sequence number that is not published - the
  first one pending if some are, the next one otherwise - and blocks the senders, except on a
  channel on which nothing was ever claimed.\<close>

theorem close_marks_first_unpublished:
  assumes "pub_inv cs p t P" "claimed (shared p) = t"
  shows "slot_states (close B (shared p)) =
      mark_shutdown (slot_states (shared p)) (if P = {} then t + 1 else Min P) \<and>
    claimed (close B (shared p)) = (if t < 0 then - 1 else t - 2 ^ 63)"
proof -
  note D = pub_invD [OF assms(1)]
  have "claimed_tight (claimed (shared p)) t" by (simp add: claimed_tight_def assms(2))
  then have "close_boundary (shared p) = (if P = {} then t + 1 else Min P)"
    using close_boundary_eq [OF assms(1)] by (simp add: frontier_def)
  moreover have "t OR SHUTDOWN_MASK = (if t < 0 then - 1 else t - 2 ^ 63)"
    using shutdown_flag_set [of t] D(9,10) by (cases "t < 0") simp_all
  ultimately show ?thesis
    by (simp add: close_def notify_gate_def cursor_load_def cursor_store_def assms(2) Let_def)
qed

theorem close_marks_first_unpublished_witness:
  "slot_states (close (fan_barrier id) (shared busy4)) = mark_shutdown (slot_states (shared busy4)) 1"
proof -
  have "claimed (shared busy4) = 2" by code_simp
  moreover have "Min {1..2 :: int} = 1" by (rule Min_eqI) auto
  ultimately show ?thesis using close_marks_first_unpublished [OF busy4_inv, of "fan_barrier id"] by simp
qed

end
