(* ===== verification/EndProperties.thy ===== *)
theory EndProperties
  imports PartProperties
begin

text \<open>
  The properties of what the two ends of a channel offer (\<open>sender.rs\<close>, \<open>guards.rs\<close>,
  \<open>receiver.rs\<close>): every outcome of a send, of a batch of permits and of a receive, from any memory
  that satisfies the invariant, and the iteration over the items of a batch.
\<close>

section \<open>A memory to apply them to\<close>

definition sender4 :: "(unit fanout_gate, nat) sender_impl" where
  "sender4 = \<lparr>sd_publisher = fresh4, sd_ring = \<lparr>slots = [0, 0, 0, 0], rb_meta = meta4\<rparr>\<rparr>"

text \<open>Three of its slots are claimed; the permits of the first two were written with 5 and 6.\<close>

definition claimed4 :: "(unit fanout_gate, nat) sender_impl" where
  "claimed4 = sd_write_slot 1 6 (sd_write_slot 0 5
     (sender4\<lparr>sd_publisher := snd (mp_try_claim_at_most (fan_barrier id) 3 fresh4)\<rparr>))"

definition permits4 :: "nat recycler \<Rightarrow> nat write_permits" where
  "permits4 r = \<lparr>start_seq = 0, end_seq = 2, next_seq = 2, wps_recycler = r\<rparr>"

lemma sender4_inv: "mem_inv fan_consumed sender4 (- 1) {} (get_ref_at (sd_ring sender4))"
proof -
  have ok: "ring_ok \<lparr>slots = [0, 0, 0, 0 :: nat], rb_meta = meta4\<rparr>"
    using meta4_ok by (simp add: ring_ok_def meta4_def)
  from chan_invD(1) [OF new_channel_refines(1) [OF ok, of fan_consumed "fan_new 2 ()" 2]] show ?thesis
    by (simp add: sender4_def fresh4_def fan_new_def cursor_new_def)
qed

lemma claimed4_inv: "\<exists>h. mem_inv fan_consumed claimed4 2 {0..2} h"
proof -
  obtain p' where p': "mp_try_claim_at_most (fan_barrier id) 3 (sd_publisher sender4) = (Inr (0, 2), p')"
    using claim_fresh4 by (cases "mp_try_claim_at_most (fan_barrier id) 3 fresh4") (simp add: sender4_def)
  from fan_gate.sd_claim_keeps(5) [OF sender4_inv _ _ p']
  have "mem_inv fan_consumed (sender4\<lparr>sd_publisher := p'\<rparr>) 2 {0..2} (get_ref_at (sd_ring sender4))" by simp
  then have "mem_inv fan_consumed (sd_write_slot 1 6 (sd_write_slot 0 5 (sender4\<lparr>sd_publisher := p'\<rparr>))) 2 {0..2}
      (get_ref_at (sd_ring sender4))"
    by (intro mem_inv_write) simp_all
  then show ?thesis using p' by (auto simp: claimed4_def sender4_def)
qed

section \<open>Sending\<close>

text \<open>C25: \<open>try_send\<close> on a fan-out channel: \<open>Disconnected\<close> exactly when the channel was shut down or
  every receiver has left, \<open>Full\<close> exactly when the slowest receiver is a ring length behind - both
  give the value back and change nothing - and otherwise the value is published as the next
  sequence number.\<close>

theorem try_send_outcomes:
  fixes sd :: "('w fanout_gate, 'a) sender_impl"
  defines "g \<equiv> consumer_gate (shared (sd_publisher sd))"
  assumes "mem_inv fan_consumed sd t P h" "t < 2 ^ 60" and "sd_try_send (fan_barrier wake) v sd = (r, sd')"
  shows "(if has_shutdown (claimed (shared (sd_publisher sd))) \<or> (\<forall>c \<in> set (fan_consumed g). c = SHUTDOWN_OPEN)
     then r = Inl (SendDisconnected v) \<and> sd' = sd
     else if \<exists>c \<in> set (fan_consumed g). c + buffer_size (mp_meta (sd_publisher sd)) \<le> t
     then r = Inl (SendFull v) \<and> sd' = sd
     else r = Inr () \<and> mem_inv fan_consumed sd' (t + 1) P (h(t + 1 := v)))"
proof -
  note D = pub_invD [OF mem_invD(1) [OF assms(2)], folded g_def]
  have full: "ss_seq (max_consumed (fan_barrier wake) g) + b \<le> t \<longleftrightarrow> (\<exists>c \<in> set (fan_consumed g). c + b \<le> t)"
    if "\<not> (\<forall>c \<in> set (fan_consumed g). c = SHUTDOWN_OPEN)" for b
  proof -
    have "\<not> ss_shutdown (max_consumed (fan_barrier wake) g)" using fan_gate.all_left [OF D(12)] that by blast
    from fan_gate.attained [OF D(12) this] fan_gate.slowest [OF D(12), of _ wake] show ?thesis by force
  qed
  note O = fan_gate.sd_try_send_outcome [OF assms(2,3), of wake v, folded g_def, unfolded assms(4) fst_conv snd_conv]
  show ?thesis
  proof (cases "has_shutdown (claimed (shared (sd_publisher sd))) \<or> (\<forall>c \<in> set (fan_consumed g). c = SHUTDOWN_OPEN)")
    case True
    then show ?thesis using O(1,2) by simp
  next
    case open': False
    then have f: "ss_seq (max_consumed (fan_barrier wake) g) + buffer_size (mp_meta (sd_publisher sd)) \<le> t \<longleftrightarrow>
      (\<exists>c \<in> set (fan_consumed g). c + buffer_size (mp_meta (sd_publisher sd)) \<le> t)"
      by (intro full) simp
    show ?thesis using open' O unfolding f by (simp only: if_False) (auto split: if_splits)
  qed
qed

theorem try_send_outcomes_witness:
  "\<exists>sd'. sd_try_send (fan_barrier id) 9 sender4 = (Inr (), sd') \<and>
    mem_inv fan_consumed sd' 0 {} ((get_ref_at (sd_ring sender4))(0 := 9))"
proof -
  obtain r sd' where s: "sd_try_send (fan_barrier id) 9 sender4 = (r, sd')" by fastforce
  have "\<not> (has_shutdown (claimed (shared (sd_publisher sender4))) \<or>
      (\<forall>c \<in> set (fan_consumed (consumer_gate (shared (sd_publisher sender4)))). c = SHUTDOWN_OPEN))"
    "\<not> (\<exists>c \<in> set (fan_consumed (consumer_gate (shared (sd_publisher sender4)))).
      c + buffer_size (mp_meta (sd_publisher sender4)) \<le> - 1)"
    by code_simp+
  with try_send_outcomes [OF sender4_inv _ s] s show ?thesis by simp
qed

section \<open>Batches\<close>

text \<open>C26: Committing or dropping a batch: if no recycler panics, exactly its range is published, the
  written slots with what was written and the others with what the recycler left; if one panics,
  nothing of the batch is published and the channel is shut down.\<close>

theorem batch_commit_outcomes:
  fixes sd :: "('w fanout_gate, 'a) sender_impl"
  defines "panics \<equiv> \<lambda>ps (sd :: ('w fanout_gate, 'a) sender_impl).
    \<exists>q. next_seq ps \<le> q \<and> q \<le> end_seq ps \<and> snd (wps_recycler ps (get_ref_at (sd_ring sd) q))"
  assumes "mem_inv fan_consumed sd t P h" "{start_seq ps..end_seq ps} \<subseteq> P"
    and "start_seq ps \<le> end_seq ps" "start_seq ps \<le> next_seq ps"
  shows "if panics ps sd
    then mem_inv fan_consumed (permits_commit (fan_barrier wake) ps sd) t P h \<and>
      has_shutdown (claimed (shared (sd_publisher (permits_commit (fan_barrier wake) ps sd))))
    else mem_inv fan_consumed (permits_commit (fan_barrier wake) ps sd) t (P - {start_seq ps..end_seq ps})
      (\<lambda>q. if start_seq ps \<le> q \<and> q < next_seq ps \<and> q \<le> end_seq ps then get_ref_at (sd_ring sd) q
           else if next_seq ps \<le> q \<and> q \<le> end_seq ps then fst (wps_recycler ps (get_ref_at (sd_ring sd) q))
           else h q)"
proof (cases "panics ps sd")
  case True
  then show ?thesis using fan_gate.permits_drop_panic [OF assms(2-5)]
    by (simp add: permits_commit_def panics_def)
next
  case False
  then have "\<And>q. next_seq ps \<le> q \<Longrightarrow> q \<le> end_seq ps \<Longrightarrow> \<not> snd (wps_recycler ps (get_ref_at (sd_ring sd) q))"
    by (auto simp: panics_def)
  from fan_gate.permits_drop_keeps [OF assms(2-5) this] False show ?thesis
    by (simp only: if_False permits_commit_def)
qed

theorem batch_commit_outcomes_witness:
  "(\<exists>h. mem_inv fan_consumed (permits_commit (fan_barrier id) (permits4 (\<lambda>v. (v + 1, False))) claimed4) 2 {} h \<and>
      map h [0..2] = [5, 6, 1]) \<and>
   has_shutdown (claimed (shared (sd_publisher
     (permits_commit (fan_barrier id) (permits4 (\<lambda>v. (v, True))) claimed4))))"
proof -
  obtain h where h: "mem_inv fan_consumed claimed4 2 {0..2} h" using claimed4_inv by blast
  have v: "get_ref_at (sd_ring claimed4) 0 = 5" "get_ref_at (sd_ring claimed4) 1 = 6"
    "get_ref_at (sd_ring claimed4) 2 = 0"
    by code_simp+
  have three: "[0..2 :: int] = [0, 1, 2]" by code_simp
  let ?ps = "permits4 (\<lambda>v. (v + 1, False))"
  have ps: "start_seq ?ps = 0" "end_seq ?ps = 2" "next_seq ?ps = 2" "wps_recycler ?ps = (\<lambda>v. (v + 1, False))"
    by (simp_all add: permits4_def)
  have K: "mem_inv fan_consumed (permits_commit (fan_barrier id) ?ps claimed4) 2 {}
      (\<lambda>q. if 0 \<le> q \<and> q < 2 \<and> q \<le> 2 then get_ref_at (sd_ring claimed4) q
           else if 2 \<le> q \<and> q \<le> 2 then get_ref_at (sd_ring claimed4) q + 1 else h q)"
    using batch_commit_outcomes [OF h, of ?ps id] unfolding ps by (simp cong del: if_weak_cong)
  have "\<exists>h. mem_inv fan_consumed (permits_commit (fan_barrier id) ?ps claimed4) 2 {} h \<and> map h [0..2] = [5, 6, 1]"
    by (intro exI conjI, rule K) (simp add: v three)
  moreover have "has_shutdown (claimed (shared (sd_publisher
      (permits_commit (fan_barrier id) (permits4 (\<lambda>v. (v, True))) claimed4))))"
    using batch_commit_outcomes [OF h, of "permits4 (\<lambda>v. (v, True))" id]
    by (simp add: permits4_def split: if_splits) (metis order_refl)
  ultimately show ?thesis by blast
qed

section \<open>Receiving\<close>

text \<open>C27: A batch receive by a receiver that is there: it gets all that is published ahead of it
  without a gap, up to its limit and to the size of the ring, each item with its published value;
  when there is nothing it is told \<open>Disconnected\<close> exactly if the next slot carries the marker.\<close>

theorem batch_receive_outcomes:
  fixes ch :: "('w fanout_gate, 'a) channel" and i :: nat
  defines "c \<equiv> fan_consumed (gate_of ch) ! i" and "st \<equiv> slot_states (shared (sd_publisher (sender ch)))"
  assumes "mem_inv fan_consumed (sender ch) t P h" "i < length (fan_consumed (gate_of ch))" "c \<noteq> SHUTDOWN_OPEN"
    and "1 \<le> limit" "int limit < 2 ^ 63"
  shows "if c < frontier t P
    then \<exists>b. try_recv_at_most (fanout wake) i limit ch = Inr \<lparr>rrs_start_seq = c + 1, rrs_end_seq = b\<rparr> \<and>
      b = min (frontier t P) (c + min (int limit) (ring_size st)) \<and>
      map (get_ref_at (sd_ring (sender ch))) [c + 1..b] = map h [c + 1..b]
    else try_recv_at_most (fanout wake) i limit ch =
      Inl (if marked st (c + 1) then RecvDisconnected else RecvEmpty)"
proof -
  have c: "fan_consumed (gate_of ch) ! i \<noteq> SHUTDOWN_OPEN" using assms(5) by (simp add: c_def)
  have lim: "usize_as_i64 limit = int limit" "limit \<noteq> 0"
    using assms(6,7) by (simp_all add: usize_as_i64_def)
  have "1 \<le> int limit" using assms(6) by simp
  note O = fan_wiring.recv_outcome [OF assms(3,4) c this, of wake, folded c_def st_def]
  have val: "get_ref_at (sd_ring (sender ch)) q = h q" if "c < q" "q \<le> frontier t P" for q
    using fan_wiring.recv_value [OF assms(3,4) c, of q] that by (simp add: c_def)
  have recv: "try_recv_at_most (fanout wake) i limit ch =
      map_error recv_error_of (map_sum id (\<lambda>(a, b). \<lparr>rrs_start_seq = a, rrs_end_seq = b\<rparr>)
        (cs_try_claim_at_most max_published (int limit) (view (fanout wake) i ch)))"
    by (simp add: try_recv_at_most_def rv_try_recv_at_most_def lim)
  show ?thesis
  proof (cases "c < frontier t P")
    case True
    then show ?thesis unfolding recv O by (auto intro!: val)
  qed (simp add: recv O)
qed

definition channel4 :: "(unit fanout_gate, nat) channel" where
  "channel4 = \<lparr>sender = permits_commit (fan_barrier id) (permits4 (\<lambda>v. (v + 1, False))) claimed4, sender_count = 1\<rparr>"

lemma channel4_inv: "\<exists>h. mem_inv fan_consumed (sender channel4) 2 {} h"
proof -
  obtain h where h: "mem_inv fan_consumed claimed4 2 {0..2} h" using claimed4_inv by blast
  let ?ps = "permits4 (\<lambda>v. (v + 1, False))"
  have "{start_seq ?ps..end_seq ?ps} = {0..2}" by (simp add: permits4_def)
  with fan_gate.permits_drop_keeps [OF h, of ?ps id] show ?thesis
    by (intro exI) (simp add: channel4_def permits_commit_def permits4_def)
qed

theorem batch_receive_outcomes_witness:
  "\<exists>h. try_recv_at_most (fanout id) 1 2 channel4 = Inr \<lparr>rrs_start_seq = 0, rrs_end_seq = 1\<rparr> \<and>
    map (get_ref_at (sd_ring (sender channel4))) [0..1] = map h [0..1]"
proof -
  obtain h where h: "mem_inv fan_consumed (sender channel4) 2 {} h" using channel4_inv by blast
  have c: "fan_consumed (gate_of channel4) ! 1 = - 1" "length (fan_consumed (gate_of channel4)) = 2"
    "ring_size (slot_states (shared (sd_publisher (sender channel4)))) = 4"
    by code_simp+
  from batch_receive_outcomes [OF h, of 1 2 id] show ?thesis
    unfolding c by (intro exI [of _ h]) (simp add: SHUTDOWN_OPEN_def)
qed

text \<open>Iterating over the items of a batch ends, after one call more than there are items, and
  yields the slots of the range in order.\<close>

theorem iteration_yields_range:
  assumes "- (2 ^ 62) \<le> rrs_start_seq r" "rrs_end_seq r < 2 ^ 62" "rrs_start_seq r \<le> rrs_end_seq r + 1"
  shows "read_all (nat (rrs_end_seq r - rrs_start_seq r + 1) + 1) (read_refs_iter r) ch =
    Some (map (get_ref_at (sd_ring (sender ch))) [rrs_start_seq r..rrs_end_seq r])"
  using fan_wiring.read_all_items [OF assms] by (simp add: read_refs_iter_def)

theorem iteration_yields_range_witness:
  "read_all 4 (read_refs_iter \<lparr>rrs_start_seq = 0, rrs_end_seq = 2\<rparr>) channel4 = Some [5, 6, 1]"
proof -
  have v: "map (get_ref_at (sd_ring (sender channel4))) [0..2] = [5, 6, 1]" by code_simp
  from iteration_yields_range [of "\<lparr>rrs_start_seq = 0, rrs_end_seq = 2\<rparr>" channel4] v show ?thesis by simp
qed

end
