(* ===== verification/QueueFacts.thy ===== *)
theory QueueFacts
  imports Queues
begin

text \<open>
  Consequences of the specification of \<open>Queues\<close> over whole runs: runs in two parts, the bound on the
  queues, what stays once a channel is closed, and how a closed channel is drained.
\<close>

section \<open>Runs\<close>

declare spec_run.simps(2) [simp del]

lemma spec_run_Cons [simp]:
  "spec_run (c # cs) s =
     (fst (spec_perform c s) # fst (spec_run cs (snd (spec_perform c s))), snd (spec_run cs (snd (spec_perform c s))))"
  by (simp add: spec_run.simps(2) split: prod.splits)

lemma spec_run_length [simp]: "length (fst (spec_run calls s)) = length calls"
  by (induction calls arbitrary: s) simp_all

lemma spec_run_append:
  "spec_run (xs @ ys) s =
     (fst (spec_run xs s) @ fst (spec_run ys (snd (spec_run xs s))), snd (spec_run ys (snd (spec_run xs s))))"
  by (induction xs arbitrary: s) simp_all

lemma calls_ok_append: "calls_ok (xs @ ys) s \<longleftrightarrow> calls_ok xs s \<and> calls_ok ys (snd (spec_run xs s))"
  by (induction xs arbitrary: s) simp_all

lemma spec_run_nth:
  "k < length calls \<Longrightarrow>
     fst (spec_run calls s) ! k = fst (spec_perform (calls ! k) (snd (spec_run (take k calls) s)))"
proof (induction calls arbitrary: s k)
  case (Cons call calls)
  then show ?case by (cases k) simp_all
qed simp

text \<open>The calls between two positions of a run.\<close>

lemma run_between:
  assumes "calls_ok calls s" "j \<le> k"
  obtains mid where "calls_ok mid (snd (spec_run (take j calls) s))"
    "snd (spec_run (take k calls) s) = snd (spec_run mid (snd (spec_run (take j calls) s)))"
proof -
  have dec: "take j calls @ drop j (take k calls) = take k calls"
    using append_take_drop_id [of j "take k calls"] assms(2) by (simp add: min_def)
  have "calls_ok (take k calls) s" using calls_ok_append [of "take k calls" "drop k calls" s] assms(1) by simp
  then have "calls_ok (take j calls @ drop j (take k calls)) s" by (simp only: dec)
  then have "calls_ok (drop j (take k calls)) (snd (spec_run (take j calls) s))" by (simp only: calls_ok_append)
  moreover have "snd (spec_run (take k calls) s) =
      snd (spec_run (drop j (take k calls)) (snd (spec_run (take j calls) s)))"
    using spec_run_append [of "take j calls" "drop j (take k calls)" s] by (simp only: dec snd_conv)
  ultimately show thesis by (rule that)
qed

lemma run_before: "calls_ok calls s \<Longrightarrow> j < length calls \<Longrightarrow> call_ok (calls ! j) (snd (spec_run (take j calls) s))"
  using calls_ok_append [of "take j calls" "calls ! j # drop (Suc j) calls" s] by (simp add: id_take_nth_drop [symmetric])

text \<open>An invariant of the specification, along a run.\<close>

lemma spec_run_invariant:
  assumes "calls_ok calls s" "I s" "\<And>call s. call_ok call s \<Longrightarrow> I s \<Longrightarrow> I (snd (spec_perform call s))"
  shows "I (snd (spec_run calls s))"
  using assms by (induction calls arbitrary: s) simp_all

lemma length_queues_run: "length (queues (snd (spec_run calls s))) = length (queues s)"
  by (induction calls arbitrary: s) (simp_all add: length_queues_perform)

section \<open>Bounds\<close>

definition within_capacity :: "'a spec \<Rightarrow> bool" where
  "within_capacity s \<longleftrightarrow> (\<forall>xs. Some xs \<in> set (queues s) \<longrightarrow> length xs \<le> capacity s)"

lemma within_append:
  assumes "within_capacity s" "spec_claim limit s = Inr n" "length vs \<le> n"
  shows "within_capacity (append_all vs s)"
proof -
  have "n \<le> capacity s - lag (queues s)" "lag (queues s) < capacity s"
    using assms(2) by (auto simp: spec_claim_def split: if_splits)
  then have "length xs + length vs \<le> capacity s" if "Some xs \<in> set (queues s)" for xs
    using assms(3) lag_le [OF that] by simp
  then show ?thesis by (auto simp: within_capacity_def append_all_def map_option_case split: option.splits)
qed

lemma batch_items_length: "batch_items d vs n = Some ws \<Longrightarrow> length ws = n"
  by (auto simp: batch_items_def split: if_splits)

lemma within_publish:
  assumes "within_capacity s" "spec_claim limit s = Inr n"
  shows "within_capacity (publish_items (batch_items d vs n) s)"
proof (cases "batch_items d vs n")
  case None
  then show ?thesis using assms(1) by (simp add: publish_items_def within_capacity_def)
next
  case (Some ws)
  then show ?thesis using within_append [OF assms, of ws] batch_items_length [OF Some] by (simp add: publish_items_def)
qed

lemma within_update:
  "within_capacity s \<Longrightarrow> (\<And>xs. q = Some xs \<Longrightarrow> length xs \<le> capacity s) \<Longrightarrow>
     within_capacity (s\<lparr>queues := (queues s)[i := q]\<rparr>)"
  unfolding within_capacity_def using set_update_subset_insert [of "queues s" i q] by fastforce

lemma claim_one: "spec_claim (Suc 0) s = Inr n \<Longrightarrow> n = Suc 0"
  by (auto simp: spec_claim_def split: if_splits)

lemma within_perform:
  assumes ok: "call_ok call s" and s: "within_capacity s"
  shows "within_capacity (snd (spec_perform call s))"
proof (cases call)
  case (Send v)
  then show ?thesis using s within_append [OF s, of 1 _ "[v]"] claim_one [of s]
    by (auto split: sum.splits try_claim_error.splits)
next
  case (Reserve d item)
  then show ?thesis using s within_publish [OF s, of 1 1] claim_one [of s] by (auto split: sum.splits)
next
  case (SendMany limit d vs)
  then show ?thesis using s within_publish [OF s] by (auto split: sum.splits)
next
  case (Recv i)
  then have i: "i < length (queues s)" using ok by (simp add: receiver_there_def)
  have "length xs \<le> capacity s" if "queues s ! i = Some (x # xs)" for x and xs :: "'a list"
    using s nth_mem [OF i] that unfolding within_capacity_def by fastforce
  then have "queues s ! i = Some (x # xs) \<Longrightarrow> within_capacity (s\<lparr>queues := (queues s)[i := Some xs]\<rparr>)" for x xs
    by (intro within_update [OF s]) simp
  then show ?thesis using Recv s by (simp split: option.split list.split)
next
  case (RecvMany i limit)
  then have i: "i < length (queues s)" using ok by (simp add: receiver_there_def)
  have "length (drop limit xs) \<le> capacity s" if "queues s ! i = Some xs" for xs
    using s nth_mem [OF i] that unfolding within_capacity_def by fastforce
  then have "queues s ! i = Some xs \<Longrightarrow> within_capacity (s\<lparr>queues := (queues s)[i := Some (drop limit xs)]\<rparr>)" for xs
    by (intro within_update [OF s]) (metis option.inject)
  then show ?thesis using RecvMany s by (simp del: drop_Suc_Cons split: option.split list.split)
next
  case (DropReceiver i)
  then show ?thesis using within_update [OF s, of None i] by simp
qed (use s in \<open>simp_all add: within_capacity_def\<close>)

lemma capacity_perform [simp]: "capacity (snd (spec_perform call s)) = capacity s"
  by (cases call) (auto simp: append_all_def publish_items_def split: sum.splits try_claim_error.splits option.splits list.splits)

lemma capacity_run [simp]: "capacity (snd (spec_run calls s)) = capacity s"
  by (induction calls arbitrary: s) simp_all

lemma within_run: "calls_ok calls s \<Longrightarrow> within_capacity s \<Longrightarrow> within_capacity (snd (spec_run calls s))"
  by (erule spec_run_invariant) (auto intro: within_perform)

text \<open>The answers of a run with one call singled out.\<close>

lemma run_then_calls:
  "fst (spec_run (xs @ c # ys) s) =
     fst (spec_run xs s) @ fst (spec_perform c (snd (spec_run xs s))) #
       fst (spec_run ys (snd (spec_perform c (snd (spec_run xs s)))))"
  by (simp add: spec_run_append)

section \<open>Closed for good\<close>

text \<open>Once a claim is refused for shutdown, it always is; once a receiver is told \<open>Disconnected\<close>,
  it always is.\<close>

definition refuses_sends :: "'a spec \<Rightarrow> bool" where
  "refuses_sends s \<longleftrightarrow> closed s \<or> (\<forall>q \<in> set (queues s). q = None)"

definition exhausted :: "nat \<Rightarrow> 'a spec \<Rightarrow> bool" where
  "exhausted i s \<longleftrightarrow> closed s \<and> i < length (queues s) \<and> (queues s ! i = Some [] \<or> queues s ! i = None)"

lemma claim_refused [simp]: "refuses_sends s \<Longrightarrow> spec_claim limit s = Inl ClaimShutdown"
  by (simp add: refuses_sends_def spec_claim_def)

lemma claim_shutdownD: "spec_claim limit s = Inl ClaimShutdown \<Longrightarrow> refuses_sends s"
  by (auto simp: refuses_sends_def spec_claim_def split: if_splits)

lemma refuses_sends_stays:
  assumes "refuses_sends s" "call_ok call s"
  shows "refuses_sends (snd (spec_perform call s))"
proof (cases "closed s")
  case True
  then show ?thesis using assms
    by (cases call) (auto simp: refuses_sends_def spec_claim_def split: option.splits list.splits)
next
  case False
  then have none: "q = None" if "q \<in> set (queues s)" for q using assms(1) that by (auto simp: refuses_sends_def)
  then have "\<not> receiver_there i s" for i using nth_mem [of i "queues s"] by (auto simp: receiver_there_def)
  then show ?thesis using assms by (cases call) (auto simp: refuses_sends_def spec_claim_def)
qed

lemma refuses_sends_run: "calls_ok calls s \<Longrightarrow> refuses_sends s \<Longrightarrow> refuses_sends (snd (spec_run calls s))"
  by (erule spec_run_invariant) (auto intro: refuses_sends_stays)

lemma exhausted_stays:
  assumes "exhausted i s" "call_ok call s"
  shows "exhausted i (snd (spec_perform call s))"
  using assms by (cases call)
    (auto simp: exhausted_def spec_claim_def receiver_there_def nth_list_update split: option.splits list.splits)

lemma exhausted_run: "calls_ok calls s \<Longrightarrow> exhausted i s \<Longrightarrow> exhausted i (snd (spec_run calls s))"
  by (erule spec_run_invariant) (auto intro: exhausted_stays)

lemma sends_stay_refused:
  assumes "calls_ok calls s" "j < k" "k < length calls"
    and "calls ! j = Send v" "fst (spec_run calls s) ! j = Sent (Inl (SendDisconnected v'))" "calls ! k = Send w"
  shows "fst (spec_run calls s) ! k = Sent (Inl (SendDisconnected w))"
proof -
  obtain mid where mid: "calls_ok mid (snd (spec_run (take j calls) s))"
    "snd (spec_run (take k calls) s) = snd (spec_run mid (snd (spec_run (take j calls) s)))"
    using run_between [OF assms(1) less_imp_le [OF assms(2)]] by blast
  have "fst (spec_perform (Send v) (snd (spec_run (take j calls) s))) = Sent (Inl (SendDisconnected v'))"
    using assms(2-5) spec_run_nth [of j calls s] by simp
  then have "refuses_sends (snd (spec_run (take j calls) s))"
    by (auto intro: claim_shutdownD split: sum.splits try_claim_error.splits)
  then have "refuses_sends (snd (spec_run (take k calls) s))" unfolding mid(2) by (rule refuses_sends_run [OF mid(1)])
  then show ?thesis using spec_run_nth [OF assms(3), of s] assms(6) by simp
qed

lemma receives_stay_ended:
  assumes "calls_ok calls s" "j < k" "k < length calls"
    and "calls ! j = Recv i" "fst (spec_run calls s) ! j = Received (Inl RecvDisconnected)" "calls ! k = Recv i"
  shows "fst (spec_run calls s) ! k = Received (Inl RecvDisconnected)"
proof -
  obtain mid where mid: "calls_ok mid (snd (spec_run (take j calls) s))"
    "snd (spec_run (take k calls) s) = snd (spec_run mid (snd (spec_run (take j calls) s)))"
    using run_between [OF assms(1) less_imp_le [OF assms(2)]] by blast
  have there: "receiver_there i (snd (spec_run (take j calls) s))"
    using run_before [OF assms(1), of j] assms(2-4) by simp
  have "fst (spec_perform (Recv i) (snd (spec_run (take j calls) s))) = Received (Inl RecvDisconnected)"
    using assms(2-5) spec_run_nth [of j calls s] by simp
  then have "exhausted i (snd (spec_run (take j calls) s))" using there
    by (auto simp: exhausted_def receiver_there_def empty_error_def split: option.splits list.splits if_splits)
  then have "exhausted i (snd (spec_run (take k calls) s))" unfolding mid(2) by (rule exhausted_run [OF mid(1)])
  then show ?thesis using spec_run_nth [OF assms(3), of s] assms(6)
    by (auto simp: exhausted_def empty_error_def)
qed

section \<open>Draining\<close>

lemma senders_perform:
  "call_ok call s \<Longrightarrow> senders (snd (spec_perform call s)) + (if call = DropSender then 1 else 0) =
     senders s + (if call = CloneSender then 1 else 0)"
  by (cases call) (auto simp: append_all_def publish_items_def split: sum.splits try_claim_error.splits option.splits list.splits)

lemma senders_run:
  "calls_ok calls s \<Longrightarrow> senders (snd (spec_run calls s)) + count_list calls DropSender =
     senders s + count_list calls CloneSender"
proof (induction calls arbitrary: s)
  case (Cons call calls)
  then show ?case using senders_perform [of call s] by (auto split: if_splits)
qed simp

lemma drain:
  assumes "closed s" "i < length (queues s)" "queues s ! i = Some xs"
  shows "fst (spec_run (replicate (length xs) (Recv i) @ [Recv i]) s) =
      map (\<lambda>x. Received (Inr x)) xs @ [Received (Inl RecvDisconnected)]"
    "calls_ok (replicate (length xs) (Recv i) @ [Recv i]) s"
  using assms by (induction xs arbitrary: s) (simp_all add: empty_error_def receiver_there_def)

end
