(* ===== verification/Wakeups.thy ===== *)
theory Wakeups
  imports ReceiverCorrect
begin

text \<open>
  The async receivers (\<open>consumer.rs\<close>, \<open>receiver.rs\<close>, the \<open>notify\<close> of the gates): a poll looks,
  registers its task with the \<open>AtomicWaker\<close> and looks again; a commit and a close change the slot
  states and then wake. What the senders do beside a poll, as one receiver sees it, is a list of
  events; \<open>commit_is_change_and_wake\<close> shows that the code produces such events. \<open>AtomicWaker\<close> is a
  third-party type, which enters as its documented contract.
\<close>

section \<open>What a receiver sees of the senders\<close>

datatype shared_event = SlotsChange u32_slot_states | Wake

fun see :: "('w \<Rightarrow> 'w) \<Rightarrow> shared_event \<Rightarrow> 'w receiver_view \<Rightarrow> 'w receiver_view" where
  "see wake (SlotsChange st) c = c\<lparr>producer_gate := \<lparr>gate_states = st\<rparr>\<rparr>"
| "see wake Wake c = c\<lparr>cs_waker := wake (cs_waker c)\<rparr>"

definition see_all :: "('w \<Rightarrow> 'w) \<Rightarrow> shared_event list \<Rightarrow> 'w receiver_view \<Rightarrow> 'w receiver_view" where
  "see_all wake es c = fold (see wake) es c"

text \<open>Every change of the slot states is followed by a wake.\<close>

fun wakes_follow :: "shared_event list \<Rightarrow> bool" where
  "wakes_follow [] \<longleftrightarrow> True"
| "wakes_follow (SlotsChange st # es) \<longleftrightarrow> Wake \<in> set es \<and> wakes_follow es"
| "wakes_follow (Wake # es) \<longleftrightarrow> wakes_follow es"

text \<open>
  The documented contract of \<open>AtomicWaker\<close>: after \<open>register\<close> a task is armed, \<open>wake\<close> wakes the
  armed task, and a woken task stays woken until it registers again.
\<close>

definition atomic_waker ::
  "('w \<Rightarrow> 't \<Rightarrow> 'w) \<Rightarrow> ('w \<Rightarrow> 'w) \<Rightarrow> ('w \<Rightarrow> 't \<Rightarrow> bool) \<Rightarrow> ('w \<Rightarrow> 't \<Rightarrow> bool) \<Rightarrow> bool" where
  "atomic_waker register wake armed woken \<longleftrightarrow>
     (\<forall>w t. armed (register w t) t) \<and> (\<forall>w t. armed w t \<longrightarrow> woken (wake w) t) \<and>
     (\<forall>w t. woken w t \<longrightarrow> woken (wake w) t)"

lemma see_all_simps [simp]:
  "see_all wake [] c = c" "see_all wake (e # es) c = see_all wake es (see wake e c)"
  by (simp_all add: see_all_def)

lemma see_consumer [simp]:
  "consumed (see wake e c) = consumed c" "cs_meta (see wake e c) = cs_meta c"
  by (cases e; simp)+

text \<open>Wakes alone change nothing that a claim looks at.\<close>

lemma claim_see_wake [simp]:
  "cs_try_claim_at_most scan limit (c\<lparr>cs_waker := w\<rparr>) = cs_try_claim_at_most scan limit c"
  by (simp add: cs_try_claim_at_most_def Let_def)

lemma claim_see_wakes:
  "(\<And>st. SlotsChange st \<notin> set es) \<Longrightarrow>
     cs_try_claim_at_most max_published limit (see_all wake es c) = cs_try_claim_at_most max_published limit c"
proof (induction es arbitrary: c)
  case (Cons e es)
  then show ?case by (cases e) auto
qed simp

lemma changed_then_wakes: "wakes_follow es \<Longrightarrow> SlotsChange st \<in> set es \<Longrightarrow> Wake \<in> set es"
  by (induction es rule: wakes_follow.induct) auto

lemma woken_stays:
  assumes "atomic_waker register wake armed woken" "woken (cs_waker c) t"
  shows "woken (cs_waker (see_all wake es c)) t"
  using assms(2)
proof (induction es arbitrary: c)
  case (Cons e es)
  then show ?case using assms(1) by (cases e) (auto simp: atomic_waker_def)
qed simp

lemma armed_or_woken_stays:
  assumes w: "atomic_waker register wake armed woken" and "armed (cs_waker c) t"
  shows "armed (cs_waker (see_all wake es c)) t \<or> woken (cs_waker (see_all wake es c)) t"
    and "Wake \<in> set es \<Longrightarrow> woken (cs_waker (see_all wake es c)) t"
proof -
  have "(armed (cs_waker (see_all wake es c)) t \<or> woken (cs_waker (see_all wake es c)) t) \<and>
    (Wake \<in> set es \<longrightarrow> woken (cs_waker (see_all wake es c)) t)"
    using assms(2)
  proof (induction es arbitrary: c)
    case (Cons e es)
    show ?case
    proof (cases e)
      case Wake
      then have "woken (cs_waker (see wake e c)) t" using w Cons.prems by (simp add: atomic_waker_def)
      then show ?thesis using woken_stays [OF w] by simp
    qed (use Cons in simp)
  qed simp
  then show "armed (cs_waker (see_all wake es c)) t \<or> woken (cs_waker (see_all wake es c)) t"
    "Wake \<in> set es \<Longrightarrow> woken (cs_waker (see_all wake es c)) t" by blast+
qed

section \<open>Polls\<close>

text \<open>A poll answers with what a claim finds in the memory as the poll leaves it.\<close>

lemma recv_error_of_shutdown: "e \<noteq> ClaimEmpty \<Longrightarrow> recv_error_of e = RecvDisconnected"
  by (cases e) simp_all

lemma poll_last_look:
  "case claim_at_most_async scan register before after limit ctx c of
     (Ready r, c') \<Rightarrow> cs_try_claim_at_most scan limit c' = r \<and> r \<noteq> Inl ClaimEmpty
   | (Pending, c') \<Rightarrow> cs_try_claim_at_most scan limit c' = Inl ClaimEmpty"
  by (simp add: claim_at_most_async_def Let_def split: sum.splits try_claim_error.splits)

text \<open>The result of a poll, as the blocking method's.\<close>

fun sync_result :: "'b option poll \<Rightarrow> try_recv_error + 'b" where
  "sync_result Pending = Inl RecvEmpty"
| "sync_result (Ready None) = Inl RecvDisconnected"
| "sync_result (Ready (Some x)) = Inr x"

text \<open>The async methods agree with the blocking ones: whatever the senders do during a poll,
  it is ready with exactly the guard that the blocking method returns on the memory as the poll
  leaves it, ends the stream when that is disconnected, and is pending when that finds nothing.\<close>

theorem async_receives_agree:
  assumes one: "rv_recv_async register before after ctx c = (r, c')"
    and many: "rv_recv_at_most_async register before after limit ctx c = (rs, cs')"
    and ok: "slots_ok (gate_states (producer_gate c'))" "- 1 \<le> consumed c'" "consumed c' < 2 ^ 61"
      "meta_ok (cs_meta c')"
  shows "rv_try_recv c' = sync_result r \<and> rv_try_recv_at_most limit cs' = sync_result rs"
proof
  show "rv_try_recv c' = sync_result r"
  proof -
    obtain q where q: "claim_at_most_async max_published register before after 1 ctx c = (q, c')"
      "r = poll_result (\<lambda>(a, b). \<lparr>rr_seq = a, rr_slot = b\<rparr>) q"
      using one by (auto simp: rv_recv_async_def split: prod.splits)
    note look = poll_last_look [where scan = max_published and register = register and before = before and after = after and limit = 1
        and ctx = ctx and c = c, unfolded q(1)]
    show ?thesis
    proof (cases q)
      case (Ready x)
      show ?thesis
      proof (cases x)
        case (Inl e)
        then have "e = ClaimShutdown" using look Ready by (cases e) simp_all
        then show ?thesis using look Ready Inl q(2) by (simp add: rv_try_recv_def cs_try_claim_def)
      next
        case (Inr ab)
        then obtain a b where ab: "x = Inr (a, b)" by (cases ab) simp
        then have "cs_try_claim_at_most max_published 1 c' = Inr (a, b)" using look Ready by simp
        note R = pub_gate.claim_range [OF ok _ this]
        have "a = b" using R(1-3) by simp
        then show ?thesis using look Ready ab q(2) by (simp add: rv_try_recv_def cs_try_claim_def)
      qed
    next
      case Pending
      then show ?thesis using look q(2) by (simp add: rv_try_recv_def cs_try_claim_def)
    qed
  qed
  show "rv_try_recv_at_most limit cs' = sync_result rs"
  proof (cases "limit = 0")
    case True
    then show ?thesis using many by (auto simp: rv_recv_at_most_async_def rv_try_recv_at_most_def)
  next
    case False
    then obtain q where q: "claim_at_most_async max_published register before after (usize_as_i64 limit) ctx c = (q, cs')"
      "rs = poll_result (\<lambda>(a, b). \<lparr>rrs_start_seq = a, rrs_end_seq = b\<rparr>) q"
      using many by (auto simp: rv_recv_at_most_async_def split: prod.splits)
    note look = poll_last_look [where scan = max_published and register = register and before = before and after = after and limit = "usize_as_i64 limit"
        and ctx = ctx and c = c, unfolded q(1)]
    show ?thesis
    proof (cases q)
      case (Ready x)
      then show ?thesis using look q(2) False
        by (cases x rule: sum.exhaust) (auto simp: rv_try_recv_at_most_def recv_error_of_shutdown)
    next
      case Pending
      then show ?thesis using look q(2) False by (simp add: rv_try_recv_at_most_def)
    qed
  qed
qed

text \<open>No wake-up is lost: if a poll is pending and, whatever the senders did between its steps,
  the receiver could claim something or see the end of the stream after some later changes, each
  followed by its wake, then the polling task has been woken.\<close>

theorem no_lost_wakeup:
  assumes w: "atomic_waker register wake armed woken"
    and poll: "claim_at_most_async max_published register (see_all wake before) (see_all wake after) limit ctx c =
      (Pending, c')"
    and later: "wakes_follow later"
    and ready: "cs_try_claim_at_most max_published limit (see_all wake later c') \<noteq> Inl ClaimEmpty"
  shows "woken (cs_waker (see_all wake later c')) ctx"
proof -
  define c1 where "c1 = see_all wake before c"
  have c': "c' = see_all wake after (c1\<lparr>cs_waker := register (cs_waker c1) ctx\<rparr>)"
    and look: "cs_try_claim_at_most max_published limit c' = Inl ClaimEmpty"
    using poll by (auto simp: claim_at_most_async_def c1_def Let_def split: sum.splits try_claim_error.splits)
  have "armed (cs_waker (c1\<lparr>cs_waker := register (cs_waker c1) ctx\<rparr>)) ctx"
    using w by (simp add: atomic_waker_def)
  from armed_or_woken_stays(1) [OF w this, of after] have "armed (cs_waker c') ctx \<or> woken (cs_waker c') ctx"
    unfolding c' .
  moreover have "Wake \<in> set later"
  proof -
    obtain st where "SlotsChange st \<in> set later"
      using claim_see_wakes [of later limit wake c'] ready look by metis
    then show ?thesis using changed_then_wakes [OF later] by blast
  qed
  ultimately show ?thesis using armed_or_woken_stays(2) [OF w] woken_stays [OF w] by blast
qed

text \<open>A waker that keeps the registered task and the tasks woken, and a receiver of an empty channel
  of two slots.\<close>

definition sample_register :: "nat option \<times> nat list \<Rightarrow> nat \<Rightarrow> nat option \<times> nat list" where
  "sample_register w t = (Some t, filter (\<lambda>u. u \<noteq> t) (snd w))"

definition sample_wake :: "nat option \<times> nat list \<Rightarrow> nat option \<times> nat list" where
  "sample_wake w = (case w of (Some t, ts) \<Rightarrow> (None, t # ts) | (None, ts) \<Rightarrow> (None, ts))"

lemma sample_waker: "atomic_waker sample_register sample_wake (\<lambda>w t. fst w = Some t) (\<lambda>w t. t \<in> set (snd w))"
  by (auto simp: atomic_waker_def sample_register_def sample_wake_def split: option.splits)

definition sample_states :: u32_slot_states where
  "sample_states = new_all_empty \<lparr>index_mask = 1, buffer_size = 2\<rparr>"

definition sample_view :: "(nat option \<times> nat list) receiver_view" where
  "sample_view = cs_new \<lparr>gate_states = sample_states\<rparr> (- 1) \<lparr>index_mask = 1, buffer_size = 2\<rparr> (None, [])"

theorem async_receives_agree_witness:
  "let c' = snd (rv_recv_async sample_register (see_all sample_wake [])
       (see_all sample_wake [SlotsChange (publish sample_states 0), Wake]) 5 sample_view)
   in rv_try_recv c' = Inr \<lparr>rr_seq = 0, rr_slot = 0\<rparr>"
proof -
  let ?after = "see_all sample_wake [SlotsChange (publish sample_states 0), Wake]"
  let ?one = "rv_recv_async sample_register (see_all sample_wake []) ?after 5 sample_view"
  have r: "fst ?one = Ready (Some \<lparr>rr_seq = 0, rr_slot = 0\<rparr>)"
    and p: "consumed (snd ?one) = - 1" "cs_meta (snd ?one) = \<lparr>index_mask = 1, buffer_size = 2\<rparr>"
      "gate_states (producer_gate (snd ?one)) = publish sample_states 0"
    by code_simp+
  have m: "meta_ok \<lparr>index_mask = 1, buffer_size = 2\<rparr>" by (simp add: meta_ok_def is_power_of_two.simps)
  have one: "?one = (Ready (Some \<lparr>rr_seq = 0, rr_slot = 0\<rparr>), snd ?one)" using r by (metis prod.collapse)
  have many: "rv_recv_at_most_async sample_register (see_all sample_wake []) ?after 0 5 sample_view =
    (Ready (Some empty_read_refs), sample_view)" by (simp add: rv_recv_at_most_async_def)
  have "slots_ok (publish sample_states 0)" using m by (simp add: sample_states_def slots_ok_new)
  then have "rv_try_recv (snd ?one) = sync_result (Ready (Some \<lparr>rr_seq = 0, rr_slot = 0\<rparr>))"
    using async_receives_agree [OF one many] p m by simp
  then show ?thesis by (simp add: Let_def)
qed

theorem no_lost_wakeup_witness:
  "5 \<in> set (snd (cs_waker (see_all sample_wake [SlotsChange (publish sample_states 0), Wake]
     (snd (claim_at_most_async max_published sample_register (see_all sample_wake []) (see_all sample_wake [])
        1 5 sample_view)))))"
proof -
  let ?poll = "claim_at_most_async max_published sample_register (see_all sample_wake []) (see_all sample_wake [])
    1 5 sample_view"
  let ?later = "[SlotsChange (publish sample_states 0), Wake]"
  have "fst ?poll = Pending" by code_simp
  then have poll: "?poll = (Pending, snd ?poll)" by (metis prod.collapse)
  have "cs_try_claim_at_most max_published 1 (see_all sample_wake ?later (snd ?poll)) = Inr (0, 0)" by code_simp
  then have ready: "cs_try_claim_at_most max_published 1 (see_all sample_wake ?later (snd ?poll)) \<noteq> Inl ClaimEmpty"
    by (simp only: sum.distinct not_False_eq_True)
  show ?thesis by (rule no_lost_wakeup [OF sample_waker poll _ ready]) simp
qed

section \<open>The events of the code\<close>

text \<open>Every commit and every close is seen by each receiver as a change of the slot states
  followed by a wake of its own task.\<close>

theorem commit_is_change_and_wake:
  assumes "i < length (fan_consumed (gate_of ch))" "i < length (fan_wakers (gate_of ch))"
  shows "view (fanout wake) i (ch\<lparr>sender := sd_commit_range (fan_barrier wake) a b (sender ch)\<rparr>) =
      see_all wake [SlotsChange (publish_range (slot_states (shared (sd_publisher (sender ch)))) a b), Wake]
        (view (fanout wake) i ch) \<and>
    view (fanout wake) i (ch\<lparr>sender := sd_terminate (fan_barrier wake) (sender ch)\<rparr>) =
      see_all wake [SlotsChange (slot_states (close (fan_barrier wake) (shared (sd_publisher (sender ch))))), Wake]
        (view (fanout wake) i ch)"
  using assms
  by (simp add: view_def fanout_def cs_new_def gate_of_def sd_commit_range_def mp_commit_range_def publisher_gate_def
      notify_gate_def fan_barrier_def fan_notify_def sd_terminate_def mp_terminate_def close_def Let_def)

theorem commit_is_change_and_wake_witness:
  "cs_waker (view (fanout Suc) 1 \<lparr>sender = sd_terminate (fan_barrier Suc)
     \<lparr>sd_publisher = mp_new (fan_new 2 0) \<lparr>index_mask = 1, buffer_size = 2\<rparr>,
      sd_ring = \<lparr>slots = [(), ()], rb_meta = \<lparr>index_mask = 1, buffer_size = 2\<rparr>\<rparr>\<rparr>, sender_count = 1\<rparr>) = 1"
proof -
  let ?ch = "\<lparr>sender = \<lparr>sd_publisher = mp_new (fan_new 2 (0 :: nat)) \<lparr>index_mask = 1, buffer_size = 2\<rparr>,
      sd_ring = \<lparr>slots = [(), ()], rb_meta = \<lparr>index_mask = 1, buffer_size = 2\<rparr>\<rparr>\<rparr>, sender_count = 1\<rparr>"
  have l: "1 < length (fan_consumed (gate_of ?ch))" "1 < length (fan_wakers (gate_of ?ch))"
    and z: "cs_waker (view (fanout Suc) 1 ?ch) = 0" by code_simp+
  from commit_is_change_and_wake [OF l, of Suc 0 0] z show ?thesis by simp
qed

end
