(* ===== verification/Protocol.thy ===== *)
theory Protocol
  imports Endpoints SenderCorrect
begin

text \<open>
  The channel under concurrency. The methods of the other theories are broken into their atomic
  accesses to the shared memory (\<open>pub_mul.rs\<close>, \<open>consumer.rs\<close>, \<open>slot_states.rs\<close>, the guards and
  the ring), and the accesses of any number of senders and receivers are interleaved. A sending
  context is one use of a \<open>Sender\<close>: a clone, or one of several threads that share a handle, or one
  of several permits held at a time. A receiver has one context, and takes one guard at a time.
  Accesses are sequentially consistent; the orderings and fences of the source are not modelled.

  \<open>step\<close> is the program; \<open>observe\<close> keeps auxiliary values beside it that no access reads: what
  was claimed (\<open>top_seq\<close>), what is claimed and not published (\<open>pending\<close>), the value published under each
  sequence number (\<open>history\<close>), what each receiver has taken (\<open>received\<close>), what was claimed by permits that
  panicked and will never be published (\<open>abandoned\<close>), and whether a permit panicked (\<open>terminated\<close>).
\<close>

section \<open>Contexts\<close>

text \<open>The points between two accesses, with the local variables that are live there. \<open>close\<close> runs in the
  drop of the last context, and in the drop of a permit whose recycler panicked (\<open>terminate\<close>); the
  last argument of its points is where the context goes on.\<close>

datatype sender_pc =
    SIdle "try_claim_error option"
  | SClaim i64 sequence
  | SGate i64 sequence nat sequence
  | SCas i64 sequence sequence sequence
  | SOwn sequence sequence
  | SPublish sequence sequence
  | SCloseLoad sender_pc
  | SCloseScan i64 sequence sequence sender_pc
  | SCloseMark i64 sequence sender_pc
  | SCloseStore i64 sender_pc
  | SGone

datatype receiver_pc =
    RIdle "try_claim_error option"
  | RScan sequence sequence sequence bool
  | RHold sequence sequence
  | RGone

record 'a world =
  w_claimed :: cursor
  w_states :: u32_slot_states
  w_ring :: "'a ring_buffer"
  w_cursors :: "cursor list"
  w_senders :: "sender_pc list"
  w_receivers :: "receiver_pc list"

definition world_new :: "'a ring_buffer \<Rightarrow> nat \<Rightarrow> 'a world" where
  "world_new rb receivers =
     \<lparr>w_claimed = cursor_default, w_states = new_all_empty (rb_meta rb), w_ring = rb,
      w_cursors = replicate receivers (cursor_new INIT), w_senders = [SIdle None],
      w_receivers = replicate receivers (RIdle None)\<rparr>"

definition set_sender :: "nat \<Rightarrow> sender_pc \<Rightarrow> 'a world \<Rightarrow> 'a world" where
  "set_sender i pc w = w\<lparr>w_senders := (w_senders w)[i := pc]\<rparr>"

definition set_receiver :: "nat \<Rightarrow> receiver_pc \<Rightarrow> 'a world \<Rightarrow> 'a world" where
  "set_receiver j pc w = w\<lparr>w_receivers := (w_receivers w)[j := pc]\<rparr>"

section \<open>The senders' accesses\<close>

text \<open>
  \<open>try_claim_at_most\<close>: the load of \<open>claimed\<close>, the test of the shutdown flag, the loads of the gate's
  cursors one after the other (\<open>max_consumed\<close>; the single cursor of an mpsc gate is a gate of one),
  and the compare-and-swap.
\<close>

definition begin_claim :: "nat \<Rightarrow> i64 \<Rightarrow> 'a world \<Rightarrow> 'a world" where
  "begin_claim i limit w =
     set_sender i (SClaim (min limit (buffer_size (st_meta (w_states w)))) (cursor_load (w_claimed w))) w"

definition gate_answer :: "sequence \<Rightarrow> slot_state" where
  "gate_answer m = \<lparr>ss_seq = m, ss_shutdown = is_shutdown_open m\<rparr>"

definition test_access :: "nat \<Rightarrow> i64 \<Rightarrow> sequence \<Rightarrow> 'a world \<Rightarrow> 'a world" where
  "test_access i n last_claimed w =
     (if has_shutdown last_claimed then set_sender i (SIdle (Some ClaimShutdown)) w
      else set_sender i (SGate n last_claimed 0 SHUTDOWN_OPEN) w)"

definition gate_access :: "nat \<Rightarrow> i64 \<Rightarrow> sequence \<Rightarrow> nat \<Rightarrow> sequence \<Rightarrow> 'a world \<Rightarrow> 'a world" where
  "gate_access i n last_claimed k min_consumed w =
     (if k < length (w_cursors w)
      then set_sender i (SGate n last_claimed (Suc k) (min min_consumed (cursor_load (w_cursors w ! k)))) w
      else
        case claim_target (st_meta (w_states w)) n last_claimed (gate_answer min_consumed) of
          Inl e \<Rightarrow> set_sender i (SIdle (Some e)) w
        | Inr (a, b) \<Rightarrow> set_sender i (SCas n last_claimed a b) w)"

definition cas_access :: "nat \<Rightarrow> i64 \<Rightarrow> sequence \<Rightarrow> sequence \<Rightarrow> sequence \<Rightarrow> 'a world \<Rightarrow> 'a world" where
  "cas_access i n last_claimed a b w =
     (case compare_exchange (w_claimed w) last_claimed b of
        (Inr _, c) \<Rightarrow> set_sender i (SOwn a b) (w\<lparr>w_claimed := c\<rparr>)
      | (Inl found, _) \<Rightarrow> set_sender i (SClaim n found) w)"

text \<open>The loop of \<open>publish_range\<close>, one store after the other; \<open>commit\<close> is a range of one.\<close>

definition publish_access :: "nat \<Rightarrow> sequence \<Rightarrow> sequence \<Rightarrow> 'a world \<Rightarrow> 'a world" where
  "publish_access i k b w =
     (if k \<le> b then set_sender i (SPublish (k + 1) b) (w\<lparr>w_states := publish (w_states w) k\<rparr>)
      else set_sender i (SIdle None) w)"

text \<open>\<open>close\<close>: the load of \<open>claimed\<close>, the scan for the first slot that is not published, the marker and
  the store of the flag.\<close>

definition close_load_access :: "nat \<Rightarrow> sender_pc \<Rightarrow> 'a world \<Rightarrow> 'a world" where
  "close_load_access i pc w =
     (let raw = cursor_load (w_claimed w);
          last_claimed = (if has_shutdown raw then raw AND VALUE_MASK else raw);
          window_start = max (wrap64 (last_claimed - wrap64 (buffer_size (st_meta (w_states w)) - 1))) 0
      in if last_claimed < 0 then set_sender i (SCloseMark raw (seq_add last_claimed 1) pc) w
         else set_sender i (SCloseScan raw window_start last_claimed pc) w)"

definition close_scan_access :: "nat \<Rightarrow> i64 \<Rightarrow> sequence \<Rightarrow> sequence \<Rightarrow> sender_pc \<Rightarrow> 'a world \<Rightarrow> 'a world" where
  "close_scan_access i raw k last_claimed pc w =
     (case slot_state_of (w_states w) k of (index, flag) \<Rightarrow>
        if k \<le> last_claimed \<and> states (w_states w) ! index AND MASK = flag
        then set_sender i (SCloseScan raw (k + 1) last_claimed pc) w
        else set_sender i (SCloseMark raw (seq_add (k - 1) 1) pc) w)"

definition close_mark_access :: "nat \<Rightarrow> i64 \<Rightarrow> sequence \<Rightarrow> sender_pc \<Rightarrow> 'a world \<Rightarrow> 'a world" where
  "close_mark_access i raw boundary pc w =
     set_sender i (SCloseStore raw pc) (w\<lparr>w_states := mark_shutdown (w_states w) boundary\<rparr>)"

definition close_store_access :: "nat \<Rightarrow> i64 \<Rightarrow> sender_pc \<Rightarrow> 'a world \<Rightarrow> 'a world" where
  "close_store_access i raw pc w =
     set_sender i pc (w\<lparr>w_claimed := cursor_store (w_claimed w) (raw OR SHUTDOWN_MASK)\<rparr>)"

definition sender_step :: "nat \<Rightarrow> 'a world \<Rightarrow> 'a world option" where
  "sender_step i w =
     (case w_senders w ! i of
        SClaim n last_claimed \<Rightarrow> Some (test_access i n last_claimed w)
      | SGate n last_claimed k min_consumed \<Rightarrow> Some (gate_access i n last_claimed k min_consumed w)
      | SCas n last_claimed a b \<Rightarrow> Some (cas_access i n last_claimed a b w)
      | SPublish k b \<Rightarrow> Some (publish_access i k b w)
      | SCloseLoad pc \<Rightarrow> Some (close_load_access i pc w)
      | SCloseScan raw k last_claimed pc \<Rightarrow> Some (close_scan_access i raw k last_claimed pc w)
      | SCloseMark raw boundary pc \<Rightarrow> Some (close_mark_access i raw boundary pc w)
      | SCloseStore raw pc \<Rightarrow> Some (close_store_access i raw pc w)
      | _ \<Rightarrow> None)"

lemmas sender_step_defs = sender_step_def test_access_def gate_access_def cas_access_def publish_access_def
  close_load_access_def close_scan_access_def close_mark_access_def close_store_access_def

text \<open>What the holder of a permit does: write one of its slots, in any order, and commit.\<close>

definition write_step :: "nat \<Rightarrow> sequence \<Rightarrow> 'a \<Rightarrow> 'a world \<Rightarrow> 'a world option" where
  "write_step i s v w =
     (case w_senders w ! i of
        SOwn a b \<Rightarrow> if a \<le> s \<and> s \<le> b then Some (w\<lparr>w_ring := modify_at (w_ring w) s (\<lambda>_. v)\<rparr>) else None
      | _ \<Rightarrow> None)"

definition commit_step :: "nat \<Rightarrow> 'a world \<Rightarrow> 'a world option" where
  "commit_step i w =
     (case w_senders w ! i of
        SOwn a b \<Rightarrow> Some (set_sender i (SPublish a b) w)
      | _ \<Rightarrow> None)"

text \<open>The drop of an idle context: the last one drops \<open>SharedState\<close>, which closes the channel.\<close>

definition drop_sender_step :: "nat \<Rightarrow> 'a world \<Rightarrow> 'a world option" where
  "drop_sender_step i w =
     (case w_senders w ! i of
        SIdle _ \<Rightarrow>
          Some (set_sender i
            (if list_all (\<lambda>pc. pc = SGone) ((w_senders w)[i := SGone]) then SCloseLoad SGone else SGone) w)
      | _ \<Rightarrow> None)"

text \<open>
  The drop of a permit whose recycler panics; what the recycler wrote before that are \<open>write_step\<close>s. A
  \<open>WritePermit\<close> and a \<open>WritePermits\<close> terminate the channel and return, so that their range is never
  committed; a permit of a batch terminates the channel too, but its batch keeps the range.
\<close>

definition panicked_drop_step :: "nat \<Rightarrow> 'a world \<Rightarrow> 'a world option" where
  "panicked_drop_step i w =
     (case w_senders w ! i of
        SOwn a b \<Rightarrow> Some (set_sender i (SCloseLoad (SIdle None)) w)
      | _ \<Rightarrow> None)"

definition panicked_batch_permit_step :: "nat \<Rightarrow> 'a world \<Rightarrow> 'a world option" where
  "panicked_batch_permit_step i w =
     (case w_senders w ! i of
        SOwn a b \<Rightarrow> Some (set_sender i (SCloseLoad (SOwn a b)) w)
      | _ \<Rightarrow> None)"

definition clone_sender_step :: "nat \<Rightarrow> 'a world \<Rightarrow> 'a world option" where
  "clone_sender_step i w =
     (case w_senders w ! i of
        SIdle _ \<Rightarrow> Some (w\<lparr>w_senders := w_senders w @ [SIdle None]\<rparr>)
      | _ \<Rightarrow> None)"

section \<open>The receivers' accesses\<close>

text \<open>\<open>try_claim_at_most\<close> of the consumer: the load of its own cursor and the scan of the slot
  states, one load after the other.\<close>

definition begin_recv :: "nat \<Rightarrow> i64 \<Rightarrow> 'a world \<Rightarrow> 'a world" where
  "begin_recv j limit w =
     (let c = cursor_load (w_cursors w ! j)
      in set_receiver j
        (RScan c (seq_add c 1) (seq_add c (min limit (buffer_size (st_meta (w_states w))))) False) w)"

definition recv_answer :: "sequence \<Rightarrow> sequence \<Rightarrow> bool \<Rightarrow> receiver_pc" where
  "recv_answer c last_available shutdown =
     (if last_available \<le> c then RIdle (Some (if shutdown then ClaimShutdown else ClaimEmpty))
      else RHold (seq_add c 1) last_available)"

definition receiver_step :: "nat \<Rightarrow> 'a world \<Rightarrow> 'a world option" where
  "receiver_step j w =
     (case w_receivers w ! j of
        RScan c k stop shutdown \<Rightarrow>
          Some (if k > stop then set_receiver j (recv_answer c (k - 1) shutdown) w
            else
              case slot_state_of (w_states w) k of (index, flag) \<Rightarrow>
                let raw = states (w_states w) ! index;
                    shutdown' = (shutdown \<or> raw AND SHUTDOWN_BIT \<noteq> 0)
                in if raw AND MASK \<noteq> flag
                   then set_receiver j (recv_answer c (k - 1) shutdown') w
                   else set_receiver j (RScan c (k + 1) stop shutdown') w)
      | _ \<Rightarrow> None)"

definition release_step :: "nat \<Rightarrow> 'a world \<Rightarrow> 'a world option" where
  "release_step j w =
     (case w_receivers w ! j of
        RHold a b \<Rightarrow>
          Some (set_receiver j (RIdle None) (w\<lparr>w_cursors := (w_cursors w)[j := cursor_store (w_cursors w ! j) b]\<rparr>))
      | _ \<Rightarrow> None)"

definition drop_receiver_step :: "nat \<Rightarrow> 'a world \<Rightarrow> 'a world option" where
  "drop_receiver_step j w =
     (case w_receivers w ! j of
        RIdle _ \<Rightarrow>
          Some (set_receiver j RGone
            (w\<lparr>w_cursors := (w_cursors w)[j := cursor_store (w_cursors w ! j) SHUTDOWN_OPEN]\<rparr>))
      | _ \<Rightarrow> None)"

section \<open>Steps\<close>

datatype 'a action =
    BeginClaim nat i64
  | SenderStep nat
  | Write nat sequence 'a
  | Commit nat
  | PanickedDrop nat
  | PanickedBatchPermit nat
  | DropSenderCtx nat
  | CloneSenderCtx nat
  | BeginRecv nat i64
  | ReceiverStep nat
  | Release nat
  | DropReceiverCtx nat

definition idle_sender :: "nat \<Rightarrow> 'a world \<Rightarrow> bool" where
  "idle_sender i w \<longleftrightarrow> (case w_senders w ! i of SIdle _ \<Rightarrow> True | _ \<Rightarrow> False)"

definition idle_receiver :: "nat \<Rightarrow> 'a world \<Rightarrow> bool" where
  "idle_receiver j w \<longleftrightarrow> (case w_receivers w ! j of RIdle _ \<Rightarrow> True | _ \<Rightarrow> False)"

fun step :: "'a action \<Rightarrow> 'a world \<Rightarrow> 'a world option" where
  "step (BeginClaim i limit) w =
     (if i < length (w_senders w) \<and> idle_sender i w \<and> 1 \<le> limit then Some (begin_claim i limit w) else None)"
| "step (SenderStep i) w = (if i < length (w_senders w) then sender_step i w else None)"
| "step (Write i s v) w = (if i < length (w_senders w) then write_step i s v w else None)"
| "step (Commit i) w = (if i < length (w_senders w) then commit_step i w else None)"
| "step (PanickedDrop i) w = (if i < length (w_senders w) then panicked_drop_step i w else None)"
| "step (PanickedBatchPermit i) w = (if i < length (w_senders w) then panicked_batch_permit_step i w else None)"
| "step (DropSenderCtx i) w = (if i < length (w_senders w) then drop_sender_step i w else None)"
| "step (CloneSenderCtx i) w = (if i < length (w_senders w) then clone_sender_step i w else None)"
| "step (BeginRecv j limit) w =
     (if j < length (w_receivers w) \<and> idle_receiver j w \<and> 1 \<le> limit then Some (begin_recv j limit w) else None)"
| "step (ReceiverStep j) w = (if j < length (w_receivers w) then receiver_step j w else None)"
| "step (Release j) w = (if j < length (w_receivers w) then release_step j w else None)"
| "step (DropReceiverCtx j) w = (if j < length (w_receivers w) then drop_receiver_step j w else None)"

text \<open>The accesses that are not a step of a sender's own program.\<close>

lemmas access_defs = begin_claim_def write_step_def commit_step_def panicked_drop_step_def
  panicked_batch_permit_step_def drop_sender_step_def clone_sender_step_def
  begin_recv_def receiver_step_def release_step_def drop_receiver_step_def

section \<open>The auxiliary values\<close>

record 'a ghost =
  top_seq :: sequence
  pending :: "sequence set"
  history :: "sequence \<Rightarrow> 'a"
  received :: "'a list list"
  abandoned :: "sequence set"
  terminated :: bool

definition ghost_new :: "nat \<Rightarrow> 'a ghost" where
  "ghost_new receivers =
     \<lparr>top_seq = - 1, pending = {}, history = (\<lambda>_. undefined), received = replicate receivers [],
      abandoned = {}, terminated = False\<rparr>"

fun observe :: "'a action \<Rightarrow> 'a world \<Rightarrow> 'a ghost \<Rightarrow> 'a ghost" where
  "observe (SenderStep i) w g =
     (case w_senders w ! i of
        SCas n last_claimed a b \<Rightarrow>
          if w_claimed w = last_claimed
          then g\<lparr>top_seq := max (top_seq g) b, pending := pending g \<union> {a..b}\<rparr> else g
      | SPublish k b \<Rightarrow>
          if k \<le> b
          then g\<lparr>pending := pending g - {k}, history := (history g)(k := get_ref_at (w_ring w) k)\<rparr> else g
      | _ \<Rightarrow> g)"
| "observe (PanickedDrop i) w g =
     (case w_senders w ! i of
        SOwn a b \<Rightarrow> g\<lparr>abandoned := abandoned g \<union> {a..b}, terminated := True\<rparr>
      | _ \<Rightarrow> g)"
| "observe (PanickedBatchPermit i) w g = g\<lparr>terminated := True\<rparr>"
| "observe (Release j) w g =
     (case w_receivers w ! j of
        RHold a b \<Rightarrow>
          g\<lparr>received := (received g)[j := received g ! j @ map (get_ref_at (w_ring w)) [a..b]]\<rparr>
      | _ \<Rightarrow> g)"
| "observe _ w g = g"

text \<open>Executions from a fresh channel with one sending context and \<open>receivers\<close> receivers.\<close>

inductive reachable :: "'a ring_buffer \<Rightarrow> nat \<Rightarrow> 'a world \<Rightarrow> 'a ghost \<Rightarrow> bool"
  for rb :: "'a ring_buffer" and receivers :: nat where
  fresh: "reachable rb receivers (world_new rb receivers) (ghost_new receivers)"
| steps: "reachable rb receivers w g \<Longrightarrow> step act w = Some w' \<Longrightarrow>
    reachable rb receivers w' (observe act w g)"

text \<open>Runs of a schedule, to evaluate.\<close>

fun execute :: "'a action list \<Rightarrow> 'a world \<times> 'a ghost \<Rightarrow> ('a world \<times> 'a ghost) option" where
  "execute [] wg = Some wg"
| "execute (act # acts) wg =
     (case step act (fst wg) of
        None \<Rightarrow> None
      | Some w' \<Rightarrow> execute acts (w', observe act (fst wg) (snd wg)))"

lemma execute_reachable:
  "reachable rb n (fst wg) (snd wg) \<Longrightarrow> execute acts wg = Some wg' \<Longrightarrow> reachable rb n (fst wg') (snd wg')"
proof (induction acts arbitrary: wg)
  case (Cons act acts)
  from Cons.prems(2) obtain w' where w': "step act (fst wg) = Some w'"
    "execute acts (w', observe act (fst wg) (snd wg)) = Some wg'"
    by (auto split: option.splits)
  then show ?case using Cons.IH [of "(w', observe act (fst wg) (snd wg))"] reachable.steps [OF Cons.prems(1)]
    by simp
qed simp

end
