(* ===== verification/ProtocolCorrect.thy ===== *)
theory ProtocolCorrect
  imports Protocol
begin

text \<open>
  The invariant of the interleaved program, in named clauses, and its preservation by every step.
  As long as fewer than \<open>2 ^ 60\<close> sequence numbers were claimed, no two contexts own the same
  sequence number, no claim reaches a slot that a receiver has not released, what a receiver holds
  is not written, and what a receiver has taken is the beginning of the published history.
\<close>

section \<open>The invariant\<close>

abbreviation size_of :: "'a world \<Rightarrow> int" where
  "size_of w \<equiv> ring_size (w_states w)"

text \<open>The sequence numbers a context has claimed and not published.\<close>

fun owned :: "sender_pc \<Rightarrow> sequence set" where
  "owned (SOwn a b) = {a..b}"
| "owned (SPublish k b) = {k..b}"
| "owned (SCloseLoad pc) = owned pc"
| "owned (SCloseScan raw k e pc) = owned pc"
| "owned (SCloseMark raw b pc) = owned pc"
| "owned (SCloseStore raw pc) = owned pc"
| "owned _ = {}"

fun closing :: "sender_pc \<Rightarrow> bool" where
  "closing (SCloseLoad pc) = True"
| "closing (SCloseScan raw k e pc) = True"
| "closing (SCloseMark raw b pc) = True"
| "closing (SCloseStore raw pc) = True"
| "closing _ = False"

text \<open>The close of the last sender, and where a close may go on.\<close>

fun last_close :: "sender_pc \<Rightarrow> bool" where
  "last_close (SCloseLoad pc) \<longleftrightarrow> pc = SGone"
| "last_close (SCloseScan raw k e pc) \<longleftrightarrow> pc = SGone"
| "last_close (SCloseMark raw b pc) \<longleftrightarrow> pc = SGone"
| "last_close (SCloseStore raw pc) \<longleftrightarrow> pc = SGone"
| "last_close _ \<longleftrightarrow> False"

fun resumes :: "sender_pc \<Rightarrow> bool" where
  "resumes (SIdle r) \<longleftrightarrow> r = None"
| "resumes (SOwn a b) \<longleftrightarrow> a \<le> b"
| "resumes SGone \<longleftrightarrow> True"
| "resumes _ \<longleftrightarrow> False"

text \<open>The marker is set: the last sender is in its final store, or gone.\<close>

fun past_mark :: "sender_pc \<Rightarrow> bool" where
  "past_mark (SCloseStore raw pc) \<longleftrightarrow> pc = SGone"
| "past_mark SGone = True"
| "past_mark _ = False"

definition over :: "'a world \<Rightarrow> bool" where
  "over w \<longleftrightarrow> (\<forall>pc \<in> set (w_senders w). past_mark pc)"

text \<open>A cursor that carries the shutdown flag, and what a close may have loaded after a permit panicked:
  others claim while it runs.\<close>

definition flagged :: "cursor \<Rightarrow> bool" where
  "flagged c \<longleftrightarrow> - (2 ^ 63) \<le> c \<and> has_shutdown c"

definition closable :: "int \<Rightarrow> cursor \<Rightarrow> bool" where
  "closable t raw \<longleftrightarrow> 0 \<le> raw \<and> raw \<le> t \<or> flagged raw"

fun sender_ok :: "int \<Rightarrow> int \<Rightarrow> int set \<Rightarrow> cursor list \<Rightarrow> bool \<Rightarrow> sender_pc \<Rightarrow> bool" where
  "sender_ok sz t P cs tm (SClaim n l) \<longleftrightarrow> 1 \<le> n \<and> n \<le> sz \<and> (- 1 \<le> l \<and> l \<le> t \<or> flagged l)"
| "sender_ok sz t P cs tm (SGate n l k m) \<longleftrightarrow> 1 \<le> n \<and> n \<le> sz \<and> - 1 \<le> l \<and> l \<le> t \<and> k \<le> length cs \<and>
     - 1 \<le> m \<and> (m = SHUTDOWN_OPEN \<or> m \<le> t \<and> (\<forall>p \<in> P. m < p)) \<and> (\<forall>i < k. m \<le> cs ! i)"
| "sender_ok sz t P cs tm (SCas n l a b) \<longleftrightarrow> 1 \<le> n \<and> n \<le> sz \<and> a = l + 1 \<and> a \<le> b \<and> b \<le> l + sz \<and> - 1 \<le> l \<and> l \<le> t \<and>
     (\<forall>c \<in> set cs. b - sz \<le> c) \<and> (\<forall>p \<in> P. b - sz < p)"
| "sender_ok sz t P cs tm (SOwn a b) \<longleftrightarrow> a \<le> b"
| "sender_ok sz t P cs tm (SCloseLoad pc) \<longleftrightarrow> resumes pc"
| "sender_ok sz t P cs tm (SCloseScan raw k e pc) \<longleftrightarrow> resumes pc \<and>
     (if tm then closable t raw else raw = t \<and> e = t \<and> t - sz < k \<and> 0 \<le> k \<and> k \<le> e + 1)"
| "sender_ok sz t P cs tm (SCloseMark raw b pc) \<longleftrightarrow> resumes pc \<and>
     (if tm then closable t raw else raw = t \<and> b = t + 1)"
| "sender_ok sz t P cs tm (SCloseStore raw pc) \<longleftrightarrow> resumes pc \<and> (if tm then closable t raw else raw = t)"
| "sender_ok sz t P cs tm _ \<longleftrightarrow> True"

text \<open>A receiver at cursor \<open>c\<close>; everything it scanned or holds is published. Once it was told that
  the channel is disconnected it has taken everything, or a permit panicked.\<close>

definition readable :: "'a ghost \<Rightarrow> sequence \<Rightarrow> bool" where
  "readable g q \<longleftrightarrow> q \<le> top_seq g \<and> q \<notin> pending g"

fun receiver_ok :: "'a world \<Rightarrow> 'a ghost \<Rightarrow> cursor \<Rightarrow> receiver_pc \<Rightarrow> bool" where
  "receiver_ok w g c (RIdle r) \<longleftrightarrow> c \<noteq> SHUTDOWN_OPEN \<and> (r = Some ClaimShutdown \<longrightarrow> terminated g \<or> over w \<and> c = top_seq g)"
| "receiver_ok w g c (RScan c' k stop sd) \<longleftrightarrow> c \<noteq> SHUTDOWN_OPEN \<and> c' = c \<and> c + 1 \<le> k \<and> k \<le> stop + 1 \<and>
     c + 1 \<le> stop \<and> stop \<le> c + size_of w \<and> (\<forall>q. c < q \<longrightarrow> q < k \<longrightarrow> readable g q) \<and> (k = c + 1 \<longrightarrow> \<not> sd)"
| "receiver_ok w g c (RHold a b) \<longleftrightarrow> c \<noteq> SHUTDOWN_OPEN \<and> a = c + 1 \<and> a \<le> b \<and>
     (\<forall>q. a \<le> q \<longrightarrow> q \<le> b \<longrightarrow> readable g q)"
| "receiver_ok w g c RGone \<longleftrightarrow> c = SHUTDOWN_OPEN"

definition has_taken :: "'a ghost \<Rightarrow> sequence \<Rightarrow> 'a list \<Rightarrow> bool" where
  "has_taken g m xs \<longleftrightarrow> - 1 \<le> m \<and> m \<le> top_seq g \<and> (\<forall>p \<in> pending g. m < p) \<and> xs = map (history g) [0..m]"

definition taken_ok :: "'a ghost \<Rightarrow> cursor \<Rightarrow> 'a list \<Rightarrow> bool" where
  "taken_ok g c xs \<longleftrightarrow> (if c = SHUTDOWN_OPEN then \<exists>m. has_taken g m xs else has_taken g c xs)"

definition memory_ok :: "'a world \<Rightarrow> 'a ghost \<Rightarrow> bool" where
  "memory_ok w g \<longleftrightarrow> flags_inv (w_states w) (top_seq g) (pending g) \<and>
     data_inv (w_ring w) (top_seq g) (pending g) (history g) \<and> rb_meta (w_ring w) = st_meta (w_states w) \<and>
     cursors_inv (size_of w) (top_seq g) (pending g) (w_cursors w)"

definition owners_ok :: "'a world \<Rightarrow> 'a ghost \<Rightarrow> bool" where
  "owners_ok w g \<longleftrightarrow>
     (\<forall>q. q \<in> pending g \<longleftrightarrow> q \<in> abandoned g \<or> (\<exists>i < length (w_senders w). q \<in> owned (w_senders w ! i))) \<and>
     (\<forall>i < length (w_senders w). owned (w_senders w ! i) \<inter> abandoned g = {} \<and>
       (\<forall>j < length (w_senders w). i \<noteq> j \<longrightarrow> owned (w_senders w ! i) \<inter> owned (w_senders w ! j) = {}))"

definition senders_ok :: "'a world \<Rightarrow> 'a ghost \<Rightarrow> bool" where
  "senders_ok w g \<longleftrightarrow>
     (\<forall>i < length (w_senders w).
        sender_ok (size_of w) (top_seq g) (pending g) (w_cursors w) (terminated g) (w_senders w ! i) \<and>
        (closing (w_senders w ! i) \<longrightarrow> terminated g \<or> last_close (w_senders w ! i) \<and>
           (\<forall>j < length (w_senders w). j \<noteq> i \<longrightarrow> w_senders w ! j = SGone)))"

definition closed_ok :: "'a world \<Rightarrow> 'a ghost \<Rightarrow> bool" where
  "closed_ok w g \<longleftrightarrow>
     (w_claimed w = top_seq g \<or>
      flagged (w_claimed w) \<and> 0 \<le> top_seq g \<and> (terminated g \<or> (\<forall>pc \<in> set (w_senders w). pc = SGone))) \<and>
     (if terminated g then 0 \<le> top_seq g
      else abandoned g = {} \<and> ((\<forall>s. \<not> marked (w_states w) s) \<or>
        over w \<and> (\<forall>s. marked (w_states w) s \<longrightarrow>
          slot_index (w_states w) s = slot_index (w_states w) (top_seq g + 1))))"

definition receivers_ok :: "'a world \<Rightarrow> 'a ghost \<Rightarrow> bool" where
  "receivers_ok w g \<longleftrightarrow>
     length (w_receivers w) = length (w_cursors w) \<and> length (received g) = length (w_cursors w) \<and>
     (\<forall>j < length (w_cursors w). receiver_ok w g (w_cursors w ! j) (w_receivers w ! j) \<and>
        taken_ok g (w_cursors w ! j) (received g ! j))"

definition protocol_inv :: "'a world \<Rightarrow> 'a ghost \<Rightarrow> bool" where
  "protocol_inv w g \<longleftrightarrow>
     memory_ok w g \<and> owners_ok w g \<and> senders_ok w g \<and> closed_ok w g \<and> receivers_ok w g"

lemma protocol_invD:
  assumes "protocol_inv w g"
  shows "flags_inv (w_states w) (top_seq g) (pending g)"
    "data_inv (w_ring w) (top_seq g) (pending g) (history g)" "rb_meta (w_ring w) = st_meta (w_states w)"
    "cursors_inv (size_of w) (top_seq g) (pending g) (w_cursors w)"
    "owners_ok w g" "senders_ok w g" "closed_ok w g" "receivers_ok w g" "memory_ok w g"
    "slots_ok (w_states w)" "meta_ok (st_meta (w_states w))" "1 \<le> size_of w" "size_of w \<le> 2 ^ 30"
    "- 1 \<le> top_seq g" "top_seq g < 2 ^ 61" "cursors_ok (w_cursors w)"
  using assms flags_invD [of "w_states w" "top_seq g" "pending g"]
    cursors_inv_ok [of "size_of w" "top_seq g" "pending g" "w_cursors w"]
  by (auto simp: protocol_inv_def memory_ok_def)

lemma sender_okD:
  "protocol_inv w g \<Longrightarrow> i < length (w_senders w) \<Longrightarrow>
     sender_ok (size_of w) (top_seq g) (pending g) (w_cursors w) (terminated g) (w_senders w ! i)"
  by (simp add: protocol_inv_def senders_ok_def)

lemma receiver_okD:
  "protocol_inv w g \<Longrightarrow> j < length (w_receivers w) \<Longrightarrow>
     j < length (w_cursors w) \<and> receiver_ok w g (w_cursors w ! j) (w_receivers w ! j) \<and>
     taken_ok g (w_cursors w ! j) (received g ! j)"
  by (simp add: protocol_inv_def receivers_ok_def)

lemma not_over:
  "i < length (w_senders w) \<Longrightarrow> \<not> past_mark (w_senders w ! i) \<Longrightarrow> \<not> over w"
  by (auto simp: over_def)

text \<open>What a context that is still there may find in \<open>claimed\<close>.\<close>

lemma claimed_live:
  assumes "protocol_inv w g" "i < length (w_senders w)" "w_senders w ! i \<noteq> SGone"
  shows "w_claimed w = top_seq g \<or> flagged (w_claimed w) \<and> terminated g \<and> 0 \<le> top_seq g"
    "\<not> terminated g \<Longrightarrow> w_claimed w = top_seq g" "terminated g \<Longrightarrow> closable (top_seq g) (w_claimed w)"
  using assms by (auto simp: protocol_inv_def closed_ok_def closable_def split: if_splits)

lemma claimed_exact:
  "protocol_inv w g \<Longrightarrow> - 1 \<le> w_claimed w \<Longrightarrow> w_claimed w = top_seq g"
  by (auto simp: protocol_inv_def closed_ok_def flagged_def has_shutdown_def)

lemma quiet_before_mark:
  "protocol_inv w g \<Longrightarrow> \<not> over w \<Longrightarrow> \<not> terminated g \<Longrightarrow> \<not> marked (w_states w) s"
  by (auto simp: protocol_inv_def closed_ok_def)

lemma terminated_top: "protocol_inv w g \<Longrightarrow> terminated g \<Longrightarrow> 0 \<le> top_seq g"
  by (simp add: protocol_inv_def closed_ok_def)

lemma closing_other:
  "protocol_inv w g \<Longrightarrow> i < length (w_senders w) \<Longrightarrow> w_senders w ! i \<noteq> SGone \<Longrightarrow>
     j < length (w_senders w) \<Longrightarrow> j \<noteq> i \<Longrightarrow> closing (w_senders w ! j) \<Longrightarrow> terminated g"
  unfolding protocol_inv_def senders_ok_def by metis

lemma closing_cases:
  "protocol_inv w g \<Longrightarrow> i < length (w_senders w) \<Longrightarrow> closing (w_senders w ! i) \<Longrightarrow> \<not> terminated g \<Longrightarrow>
     last_close (w_senders w ! i) \<and> (\<forall>j < length (w_senders w). j \<noteq> i \<longrightarrow> w_senders w ! j = SGone)"
  unfolding protocol_inv_def senders_ok_def by blast

text \<open>The store at the end of a close sets the flag.\<close>

lemma flagged_store:
  assumes "closable t raw" "t < 2 ^ 61"
  shows "flagged (raw OR SHUTDOWN_MASK)"
proof -
  consider "0 \<le> raw" "raw < 2 ^ 61" | "- (2 ^ 63) \<le> raw" "raw < - 1"
    using assms by (auto simp: closable_def flagged_def has_shutdown_def)
  then show ?thesis
    using shutdown_flag_set [of raw] by cases (simp add: flagged_def has_shutdown_def)+
qed

lemma resumes_ok: "resumes pc \<Longrightarrow> sender_ok sz t P cs tm pc" "resumes pc \<Longrightarrow> \<not> closing pc"
  by (cases pc; simp)+

lemma frame_set_sender [simp]:
  "w_claimed (set_sender i pc w) = w_claimed w" "w_states (set_sender i pc w) = w_states w"
  "w_ring (set_sender i pc w) = w_ring w" "w_cursors (set_sender i pc w) = w_cursors w"
  "w_senders (set_sender i pc w) = (w_senders w)[i := pc]" "w_receivers (set_sender i pc w) = w_receivers w"
  by (simp_all add: set_sender_def)

lemma frame_set_receiver [simp]:
  "w_claimed (set_receiver i r w) = w_claimed w" "w_states (set_receiver i r w) = w_states w"
  "w_ring (set_receiver i r w) = w_ring w" "w_cursors (set_receiver i r w) = w_cursors w"
  "w_senders (set_receiver i r w) = w_senders w" "w_receivers (set_receiver i r w) = (w_receivers w)[i := r]"
  by (simp_all add: set_receiver_def)

section \<open>Steps of a sender that change no shared memory\<close>

lemma receiver_ok_mono:
  assumes "receiver_ok w g c pc" "size_of w' = size_of w" "\<And>q. readable g q \<Longrightarrow> readable g' q"
    and "terminated g \<Longrightarrow> terminated g'" "over w \<Longrightarrow> terminated g' \<or> over w' \<and> top_seq g' = top_seq g"
  shows "receiver_ok w' g' c pc"
  using assms by (cases pc) auto

lemma receivers_ok_over:
  assumes "receivers_ok w g" "w_cursors w' = w_cursors w" "w_receivers w' = w_receivers w"
    and "size_of w' = size_of w" "over w \<Longrightarrow> terminated g \<or> over w'"
  shows "receivers_ok w' g"
  using assms receiver_ok_mono [of w g _ _ w' g] by (simp add: receivers_ok_def)

lemma owned_pending: "owners_ok w g \<Longrightarrow> i < length (w_senders w) \<Longrightarrow> owned (w_senders w ! i) \<subseteq> pending g"
  by (auto simp: owners_ok_def)

lemma owners_ok_change:
  assumes own: "owners_ok w g" and i: "i < length (w_senders w)" and senders: "w_senders w' = (w_senders w)[i := pc]"
    and aband: "abandoned g' = abandoned g \<union> X" "X \<subseteq> owned (w_senders w ! i)" "X \<inter> owned pc = {}"
    and pend: "pending g' = (pending g - owned (w_senders w ! i)) \<union> owned pc \<union> X"
    and new: "owned pc \<inter> (pending g - owned (w_senders w ! i)) = {}"
  shows "owners_ok w' g'"
proof -
  let ?O = "\<lambda>j. owned (w_senders w ! j)" and ?n = "length (w_senders w)" and ?A = "abandoned g"
  have O': "owned (w_senders w' ! j) = (if j = i then owned pc else ?O j)" if "j < ?n" for j
    using that by (simp add: senders nth_list_update)
  have mem: "q \<in> pending g \<longleftrightarrow> q \<in> ?A \<or> (\<exists>j < ?n. q \<in> ?O j)" for q using own by (simp add: owners_ok_def)
  have disj: "?O j \<inter> ?O k = {}" if "j < ?n" "k < ?n" "j \<noteq> k" for j k
    using own that by (simp add: owners_ok_def)
  have ab: "?O j \<inter> ?A = {}" if "j < ?n" for j using own that by (simp add: owners_ok_def)
  have rest: "q \<in> pending g - ?O i \<longleftrightarrow> q \<in> ?A \<or> (\<exists>j < ?n. j \<noteq> i \<and> q \<in> ?O j)" for q
    using mem disj ab i by blast
  have "q \<in> pending g' \<longleftrightarrow> q \<in> abandoned g' \<or> (\<exists>j < ?n. q \<in> owned (w_senders w' ! j))" for q
  proof -
    have "q \<in> pending g' \<longleftrightarrow> q \<in> ?A \<union> X \<or> q \<in> owned pc \<or> (\<exists>j < ?n. j \<noteq> i \<and> q \<in> ?O j)"
      unfolding pend using rest by blast
    also have "\<dots> \<longleftrightarrow> q \<in> abandoned g' \<or> (\<exists>j < ?n. q \<in> owned (w_senders w' ! j))"
      unfolding aband(1) using O' i by metis
    finally show ?thesis .
  qed
  moreover have pc_other: "owned pc \<inter> ?O m = {}" "X \<inter> ?O m = {}" if "m < ?n" "m \<noteq> i" for m
    using new rest aband(2) disj [OF i that(1)] that by blast+
  then have "owned (w_senders w' ! j) \<inter> owned (w_senders w' ! k) = {}" if "j < ?n" "k < ?n" "j \<noteq> k" for j k
    using O' [OF that(1)] O' [OF that(2)] disj [OF that] that by auto
  moreover have "owned pc \<inter> ?A = {}" using new rest by blast
  then have "owned (w_senders w' ! j) \<inter> abandoned g' = {}" if "j < ?n" for j
    unfolding aband(1) using O' [OF that] ab [OF that] pc_other(2) [OF that] aband(3) that by auto
  ultimately show ?thesis by (simp add: owners_ok_def senders)
qed

lemmas owners_ok_move = owners_ok_change [where X = "{}", simplified]

text \<open>The clauses on the senders after a step of one of them.\<close>

lemma senders_ok_change:
  assumes inv: "protocol_inv w g" and i: "i < length (w_senders w)" and live: "w_senders w ! i \<noteq> SGone"
    and senders: "w_senders w' = (w_senders w)[i := pc]" and frame: "size_of w' = size_of w" "w_cursors w' = w_cursors w"
    and ok: "sender_ok (size_of w) (top_seq g') (pending g') (w_cursors w) (terminated g') pc"
    and keep: "\<And>pc'. sender_ok (size_of w) (top_seq g) (pending g) (w_cursors w) (terminated g) pc' \<Longrightarrow>
      closing pc' \<longrightarrow> terminated g \<Longrightarrow> sender_ok (size_of w) (top_seq g') (pending g') (w_cursors w) (terminated g') pc'"
    and later: "terminated g \<Longrightarrow> terminated g'"
    and cl: "closing pc \<Longrightarrow> terminated g' \<or> last_close pc \<and> (\<forall>j < length (w_senders w). j \<noteq> i \<longrightarrow> w_senders w ! j = SGone)"
  shows "senders_ok w' g'"
  unfolding senders_ok_def
proof (intro allI impI)
  fix k assume "k < length (w_senders w')"
  then have k: "k < length (w_senders w)" by (simp add: senders)
  show "sender_ok (size_of w') (top_seq g') (pending g') (w_cursors w') (terminated g') (w_senders w' ! k) \<and>
    (closing (w_senders w' ! k) \<longrightarrow> terminated g' \<or> last_close (w_senders w' ! k) \<and>
      (\<forall>j < length (w_senders w'). j \<noteq> k \<longrightarrow> w_senders w' ! j = SGone))"
  proof (cases "k = i")
    case True
    then show ?thesis using ok cl i by (auto simp: senders frame)
  next
    case False
    then have t: "closing (w_senders w ! k) \<longrightarrow> terminated g" using closing_other [OF inv i live k] by blast
    show ?thesis using keep [OF sender_okD [OF inv k] t] t later False by (auto simp: senders frame)
  qed
qed

lemma local_sender_step:
  assumes inv: "protocol_inv w g" and i: "i < length (w_senders w)" and np: "\<not> past_mark (w_senders w ! i)"
    and own: "owned pc = owned (w_senders w ! i)"
    and ok: "sender_ok (size_of w) (top_seq g) (pending g) (w_cursors w) (terminated g) pc"
    and cl: "closing pc \<Longrightarrow> terminated g \<or> last_close pc \<and> (\<forall>j < length (w_senders w). j \<noteq> i \<longrightarrow> w_senders w ! j = SGone)"
  shows "protocol_inv (set_sender i pc w) g"
proof -
  note D = protocol_invD [OF inv]
  have no: "\<not> over w" using i np by (rule not_over)
  have live: "w_senders w ! i \<noteq> SGone" using np by auto
  have "senders_ok (set_sender i pc w) g"
    by (rule senders_ok_change [OF inv i live _ _ _ ok]) (simp_all add: cl)
  moreover have "closed_ok (set_sender i pc w) g"
    using claimed_live [OF inv i live] D(7) quiet_before_mark [OF inv no]
    by (auto simp: closed_ok_def split: if_splits)
  moreover have "receivers_ok (set_sender i pc w) g"
    using D(8) no by (intro receivers_ok_over [OF D(8)]) simp_all
  moreover have "owners_ok (set_sender i pc w) g"
    using owned_pending [OF D(5) i] own by (intro owners_ok_move [OF D(5) i, where pc = pc]) auto
  ultimately show ?thesis using D(9) by (simp add: protocol_inv_def memory_ok_def)
qed

lemma cursor_bounds:
  assumes "protocol_inv w g" "k < length (w_cursors w)"
  shows "w_cursors w ! k = SHUTDOWN_OPEN \<or>
    live_cursor (size_of w) (top_seq g) (pending g) (w_cursors w ! k)"
    "- 1 \<le> w_cursors w ! k" "w_cursors w ! k \<le> SHUTDOWN_OPEN"
  using protocol_invD(4,16) [OF assms(1)] assms(2) by (auto simp: cursors_inv_def cursors_ok_def)

text \<open>The gate's answer is behind every cursor by the time it is used, although the cursors move
  while they are read one after the other.\<close>

lemma gate_step_ok:
  assumes inv: "protocol_inv w g" and ok: "sender_ok (size_of w) (top_seq g) (pending g) (w_cursors w) tm (SGate n l k m)"
    and k: "k < length (w_cursors w)"
  shows "sender_ok (size_of w) (top_seq g) (pending g) (w_cursors w) tm (SGate n l (Suc k) (min m (cursor_load (w_cursors w ! k))))"
  using ok k cursor_bounds [OF inv k] by (auto simp: cursor_load_def live_cursor_def less_Suc_eq min_def)

lemma gate_done_ok:
  assumes inv: "protocol_inv w g" and ok: "sender_ok (size_of w) (top_seq g) (pending g) (w_cursors w) tm (SGate n l k m)"
    and k: "k = length (w_cursors w)"
    and target: "claim_target (st_meta (w_states w)) n l (gate_answer m) = Inr (a, b)"
  shows "sender_ok (size_of w) (top_seq g) (pending g) (w_cursors w) tm (SCas n l a b)"
proof -
  note D = protocol_invD [OF inv]
  have live: "m \<noteq> SHUTDOWN_OPEN"
    using target by (auto simp: claim_target_def gate_answer_def is_shutdown_open_def Let_def)
  then have m: "- 1 \<le> m" "m < 2 ^ 61" and l: "- 1 \<le> l" "l < 2 ^ 61" and n: "1 \<le> n" "n \<le> size_of w"
    using ok D(15) by auto
  have "gate_answer m = \<lparr>ss_seq = m, ss_shutdown = False\<rparr>"
    using live by (simp add: gate_answer_def is_shutdown_open_def)
  then have "(let room = m - l + size_of w
      in if room < 1 then Inl ClaimEmpty else Inr (l + 1, l + min room n)) = Inr (a, b)"
    using target claim_target_eq [OF D(11) l m, of n] n(1) by simp
  then have ab: "1 \<le> m - l + size_of w" "a = l + 1" "b = l + min (m - l + size_of w) n"
    by (auto simp: Let_def split: if_splits)
  have "b - size_of w \<le> c" if c: "c \<in> set (w_cursors w)" for c
  proof -
    obtain i where "i < length (w_cursors w)" "c = w_cursors w ! i"
      using c unfolding in_set_conv_nth by blast
    then have "m \<le> c" using ok k by auto
    then show ?thesis using ab(3) by simp
  qed
  moreover have "b - size_of w < p" if "p \<in> pending g" for p
    using ok live ab(3) that by force
  ultimately show ?thesis using ab n ok by auto
qed

text \<open>The local steps of a claim.\<close>

abbreviation next_claim_pc :: "nat \<Rightarrow> 'a world \<Rightarrow> 'a world \<Rightarrow> 'a ghost \<Rightarrow> sender_pc \<Rightarrow> bool" where
  "next_claim_pc i w w' g pc \<equiv> w' = set_sender i pc w \<and> owned pc = {} \<and> \<not> closing pc \<and>
     sender_ok (size_of w) (top_seq g) (pending g) (w_cursors w) (terminated g) pc"

lemma claim_test_next:
  assumes inv: "protocol_inv w g" and i: "i < length (w_senders w)" and pc: "w_senders w ! i = SClaim n l"
    and step: "sender_step i w = Some w'"
  shows "\<exists>pc'. next_claim_pc i w w' g pc'"
proof (cases "has_shutdown l")
  case True
  then have "w' = set_sender i (SIdle (Some ClaimShutdown)) w" using step pc by (simp add: sender_step_defs)
  then show ?thesis by (intro exI conjI) auto
next
  case False
  then have "w' = set_sender i (SGate n l 0 SHUTDOWN_OPEN) w" using step pc by (simp add: sender_step_defs)
  then show ?thesis using sender_okD [OF inv i] pc False by (intro exI conjI) (auto simp: SHUTDOWN_OPEN_def flagged_def)
qed

lemma claim_gate_next:
  assumes inv: "protocol_inv w g" and i: "i < length (w_senders w)" and pc: "w_senders w ! i = SGate n l k m"
    and step: "sender_step i w = Some w'"
  shows "\<exists>pc'. next_claim_pc i w w' g pc'"
proof (cases "k < length (w_cursors w)")
  case True
  have "w' = set_sender i (SGate n l (Suc k) (min m (cursor_load (w_cursors w ! k)))) w"
    using step pc True by (simp add: sender_step_defs)
  moreover have "sender_ok (size_of w) (top_seq g) (pending g) (w_cursors w) (terminated g)
      (SGate n l (Suc k) (min m (cursor_load (w_cursors w ! k))))"
    using sender_okD [OF inv i, unfolded pc] True by (rule gate_step_ok [OF inv])
  ultimately show ?thesis by (intro exI conjI) (assumption, simp_all only: owned.simps closing.simps simp_thms)
next
  case False
  then have k: "k = length (w_cursors w)" using sender_okD [OF inv i] pc by simp
  show ?thesis
  proof (cases "claim_target (st_meta (w_states w)) n l (gate_answer m)")
    case (Inl e)
    then have "w' = set_sender i (SIdle (Some e)) w" using step pc k by (simp add: sender_step_defs)
    then show ?thesis by (intro exI conjI) auto
  next
    case (Inr r)
    obtain a b where r: "r = (a, b)" by fastforce
    have "w' = set_sender i (SCas n l a b) w" using step pc k Inr r by (simp add: sender_step_defs)
    moreover have "sender_ok (size_of w) (top_seq g) (pending g) (w_cursors w) (terminated g) (SCas n l a b)"
      using gate_done_ok [OF inv _ k] sender_okD [OF inv i] pc Inr r by metis
    ultimately show ?thesis by (intro exI [of _ "SCas n l a b"]) auto
  qed
qed

lemma claim_retry_next:
  assumes inv: "protocol_inv w g" and i: "i < length (w_senders w)" and pc: "w_senders w ! i = SCas n l a b"
    and found: "w_claimed w \<noteq> l" and step: "sender_step i w = Some w'"
  shows "\<exists>pc'. next_claim_pc i w w' g pc'"
proof -
  have "w' = set_sender i (SClaim n (w_claimed w)) w" using step pc found by (simp add: sender_step_defs)
  moreover have "w_claimed w = top_seq g \<or> flagged (w_claimed w)" using claimed_live(1) [OF inv i] pc by auto
  ultimately show ?thesis using sender_okD [OF inv i] pc protocol_invD(14) [OF inv] by (intro exI conjI) auto
qed

lemma claim_steps_keep:
  assumes inv: "protocol_inv w g" and i: "i < length (w_senders w)" and pc: "w_senders w ! i = pc"
    and step: "sender_step i w = Some w'"
    and kind: "(\<exists>n l. pc = SClaim n l) \<or> (\<exists>n l k m. pc = SGate n l k m) \<or>
      (\<exists>n l a b. pc = SCas n l a b \<and> w_claimed w \<noteq> l)"
  shows "protocol_inv w' g"
proof -
  have np: "\<not> past_mark (w_senders w ! i)" "owned (w_senders w ! i) = {}" using kind pc by auto
  have "\<exists>pc'. next_claim_pc i w w' g pc'"
    using kind pc claim_test_next [OF inv i _ step] claim_gate_next [OF inv i _ step] claim_retry_next [OF inv i _ _ step]
    by metis
  then show ?thesis using local_sender_step [OF inv i np(1)] np(2) by metis
qed

section \<open>Claiming\<close>

text \<open>What a context relies on survives what the others do: claims, publications, and receivers
  that move ahead.\<close>

lemma sender_ok_mono:
  assumes "sender_ok sz t P cs tm pc" "closing pc \<longrightarrow> tm" "tm \<longrightarrow> tm'" "t \<le> t'" "P' \<subseteq> P \<union> {t<..}"
    and "length cs' = length cs" "\<And>k. k < length cs \<Longrightarrow> cs ! k \<le> cs' ! k"
  shows "sender_ok sz t' P' cs' tm' pc"
proof (cases pc)
  case (SGate n l k m)
  have "m \<le> cs' ! i" if "i < k" for i
    using assms(1,7) SGate that by (metis less_le_trans order_trans sender_ok.simps(2))
  moreover have "m < p" if "p \<in> P'" "m \<noteq> SHUTDOWN_OPEN" for p
    using assms(1,5) SGate that by force
  ultimately show ?thesis using assms(1,4,6) SGate by auto
next
  case (SCas n l a b)
  have "b - sz \<le> c" if c: "c \<in> set cs'" for c
  proof -
    obtain k where "k < length cs'" "c = cs' ! k" using c unfolding in_set_conv_nth by blast
    then have "cs ! k \<in> set cs" "cs ! k \<le> c" using assms(6,7) by auto
    then show ?thesis using assms(1) SCas by force
  qed
  moreover have "b - sz < p" if "p \<in> P'" for p
    using assms(1,5) SCas that by force
  ultimately show ?thesis using assms(1,4) SCas by auto
qed (use assms in \<open>auto simp: closable_def\<close>)

lemma cas_step_keeps:
  assumes inv: "protocol_inv w g" and i: "i < length (w_senders w)" and pc: "w_senders w ! i = SCas n l a b"
    and cas: "w_claimed w = l" and b: "b < 2 ^ 60"
    and w': "w' = set_sender i (SOwn a b) (w\<lparr>w_claimed := b\<rparr>)"
    and g': "g' = g\<lparr>top_seq := b, pending := pending g \<union> {a..b}\<rparr>"
  shows "protocol_inv w' g'"
proof -
  note D = protocol_invD [OF inv] and ok = sender_okD [OF inv i, unfolded pc, simplified]
  have live: "w_senders w ! i \<noteq> SGone" "\<not> past_mark (w_senders w ! i)" using pc by simp_all
  have top: "top_seq g = l" using claimed_exact [OF inv] ok cas by simp
  have no: "\<not> over w" using i live(2) by (rule not_over)
  have a: "a = top_seq g + 1" "top_seq g < b" "b \<le> top_seq g + size_of w" "{a..b} = {top_seq g + 1..b}"
    using ok top by auto
  have "memory_ok w' g'"
  proof -
    have "flags_inv (w_states w) b (pending g \<union> {top_seq g + 1..b})"
      using D(1) a ok b by (intro flags_inv_claim) auto
    moreover have "data_inv (w_ring w) b (pending g \<union> {top_seq g + 1..b}) (history g)"
      using D(2) a by (intro data_inv_claim) simp_all
    moreover have "cursors_inv (size_of w) b (pending g \<union> {top_seq g + 1..b}) (w_cursors w)"
      using D(4) a ok by (intro cursors_inv_claim) auto
    ultimately show ?thesis using D(3) by (simp add: memory_ok_def w' g' a(4))
  qed
  moreover have "owners_ok w' g'"
  proof -
    have "{a..b} \<inter> pending g = {}" using flags_invD(4) [OF D(1)] a(1) by force
    then show ?thesis using pc
      by (intro owners_ok_move [OF D(5) i, where pc = "SOwn a b"]) (auto simp: w' g')
  qed
  moreover have "senders_ok w' g'"
  proof (rule senders_ok_change [OF inv i live(1), where pc = "SOwn a b"])
    show "sender_ok (size_of w) (top_seq g') (pending g') (w_cursors w) (terminated g') pc'"
      if "sender_ok (size_of w) (top_seq g) (pending g) (w_cursors w) (terminated g) pc'"
        "closing pc' \<longrightarrow> terminated g" for pc'
      by (rule sender_ok_mono [OF that]) (use a in \<open>auto simp: g'\<close>)
  qed (use ok in \<open>simp_all add: w' g'\<close>)
  moreover have "closed_ok w' g'"
    using quiet_before_mark [OF inv no] D(7,14) a(2) by (simp add: closed_ok_def w' g' split: if_splits)
  moreover have "receivers_ok w' g'"
  proof -
    have "readable g q \<Longrightarrow> readable g' q" for q using a by (auto simp: readable_def g')
    then have "receiver_ok w' g' c r" if "receiver_ok w g c r" for c r
      using that no by (intro receiver_ok_mono [OF that]) (simp_all add: w' g')
    moreover have "has_taken g m xs \<Longrightarrow> has_taken g' m xs" for m xs
      using a by (auto simp: has_taken_def g')
    then have "taken_ok g c xs \<Longrightarrow> taken_ok g' c xs" for c xs
      by (auto simp: taken_ok_def split: if_splits)
    ultimately show ?thesis using D(8) by (simp add: receivers_ok_def w' g')
  qed
  ultimately show ?thesis by (simp add: protocol_inv_def)
qed

section \<open>Writing and publishing\<close>

lemma write_step_keeps:
  assumes inv: "protocol_inv w g" and i: "i < length (w_senders w)" and step: "write_step i s v w = Some w'"
  shows "protocol_inv w' g"
proof -
  note D = protocol_invD [OF inv]
  obtain a b where pc: "w_senders w ! i = SOwn a b" "a \<le> s" "s \<le> b"
    and w': "w' = w\<lparr>w_ring := modify_at (w_ring w) s (\<lambda>_. v)\<rparr>"
    using step by (auto simp: write_step_def split: sender_pc.splits if_splits)
  have s: "s \<in> pending g" using owned_pending [OF D(5) i] pc by auto
  then have "data_inv (modify_at (w_ring w) s (\<lambda>_. v)) (top_seq g) (pending g) (history g)"
    using data_inv_write [OF D(2) s] flags_invD(4) [OF D(1) s] D(3) by simp
  moreover have "receivers_ok w' g" by (rule receivers_ok_over [OF D(8)]) (simp_all add: w' over_def)
  moreover have f: "w_senders w' = w_senders w" "w_states w' = w_states w" "w_cursors w' = w_cursors w"
    "w_claimed w' = w_claimed w"
    by (simp_all add: w')
  have "owners_ok w' g = owners_ok w g" "senders_ok w' g = senders_ok w g" "closed_ok w' g = closed_ok w g"
    unfolding owners_ok_def senders_ok_def closed_ok_def over_def f by (rule refl)+
  ultimately show ?thesis using D(1,3-7) by (simp add: protocol_inv_def memory_ok_def w')
qed

lemma publish_step_keeps:
  assumes inv: "protocol_inv w g" and i: "i < length (w_senders w)" and pc: "w_senders w ! i = SPublish k b"
    and k: "k \<le> b"
    and w': "w' = set_sender i (SPublish (k + 1) b) (w\<lparr>w_states := publish (w_states w) k\<rparr>)"
    and g': "g' = g\<lparr>pending := pending g - {k}, history := (history g)(k := get_ref_at (w_ring w) k)\<rparr>"
  shows "protocol_inv w' g'"
proof -
  note D = protocol_invD [OF inv]
  have live: "w_senders w ! i \<noteq> SGone" "\<not> past_mark (w_senders w ! i)" using pc by simp_all
  have no: "\<not> over w" using i live(2) by (rule not_over)
  have sub: "{k..b} \<subseteq> pending g" using owned_pending [OF D(5) i] pc by simp
  then have kP: "k \<in> pending g" using k by auto
  have "memory_ok w' g'"
    using flags_inv_publish [OF D(1) kP] data_inv_publish [OF D(2), of "{k}" "history g'"]
      cursors_inv_shrink [OF D(4), of "pending g - {k}"] D(3)
    by (simp add: memory_ok_def w' g' Diff_subset)
  moreover have "owners_ok w' g'"
    using sub k pc by (intro owners_ok_move [OF D(5) i, where pc = "SPublish (k + 1) b"]) (auto simp: w' g')
  moreover have "senders_ok w' g'"
  proof (rule senders_ok_change [OF inv i live(1), where pc = "SPublish (k + 1) b"])
    show "sender_ok (size_of w) (top_seq g') (pending g') (w_cursors w) (terminated g') pc'"
      if "sender_ok (size_of w) (top_seq g) (pending g) (w_cursors w) (terminated g) pc'"
        "closing pc' \<longrightarrow> terminated g" for pc'
      by (rule sender_ok_mono [OF that]) (auto simp: g')
  qed (simp_all add: w' g')
  moreover have "closed_ok w' g'"
    using claimed_live(1) [OF inv i live(1)] D(7) quiet_before_mark [OF inv no] D(10)
    by (auto simp: closed_ok_def w' g' marked_publish split: if_splits)
  moreover have "receivers_ok w' g'"
  proof -
    have "readable g q \<Longrightarrow> readable g' q" for q by (auto simp: readable_def g')
    then have "receiver_ok w' g' c r" if "receiver_ok w g c r" for c r
      using that no by (intro receiver_ok_mono [OF that]) (simp_all add: w' g')
    moreover have "has_taken g' m xs" if "has_taken g m xs" for m xs
    proof -
      have "m < k" using that kP by (auto simp: has_taken_def)
      then have "map (history g') [0..m] = map (history g) [0..m]" by (auto simp: g')
      then show ?thesis using that by (simp add: has_taken_def g')
    qed
    then have "taken_ok g c xs \<Longrightarrow> taken_ok g' c xs" for c xs
      by (auto simp: taken_ok_def split: if_splits)
    ultimately show ?thesis using D(8) by (simp add: receivers_ok_def w' g')
  qed
  ultimately show ?thesis by (simp add: protocol_inv_def)
qed

section \<open>Starting, committing, dropping and cloning\<close>

lemma begin_claim_keeps:
  assumes inv: "protocol_inv w g" and i: "i < length (w_senders w)" and idle: "idle_sender i w" and limit: "1 \<le> limit"
  shows "protocol_inv (begin_claim i limit w) g"
proof -
  note D = protocol_invD [OF inv]
  obtain r where pc: "w_senders w ! i = SIdle r"
    using idle by (auto simp: idle_sender_def split: sender_pc.splits)
  have "w_claimed w = top_seq g \<or> flagged (w_claimed w)" using claimed_live(1) [OF inv i] pc by auto
  then show ?thesis unfolding begin_claim_def
    using pc D(12,14) limit by (intro local_sender_step [OF inv i]) (auto simp: cursor_load_def)
qed

lemma commit_step_keeps:
  assumes "protocol_inv w g" "i < length (w_senders w)" "commit_step i w = Some w'"
  shows "protocol_inv w' g"
proof -
  obtain a b where pc: "w_senders w ! i = SOwn a b" "w' = set_sender i (SPublish a b) w"
    using assms(3) by (auto simp: commit_step_def split: sender_pc.splits)
  then show ?thesis using local_sender_step [OF assms(1,2), of "SPublish a b"] by simp
qed

text \<open>A panicking drop: the channel is terminated from now on, and the range is abandoned or kept.\<close>

lemma panicked_keeps:
  assumes inv: "protocol_inv w g" and i: "i < length (w_senders w)" and pc: "w_senders w ! i = SOwn a b"
    and w': "w' = set_sender i (SCloseLoad pc') w" and pc': "resumes pc'" "owned pc' \<subseteq> {a..b}"
    and g': "g' = g\<lparr>abandoned := abandoned g \<union> ({a..b} - owned pc'), terminated := True\<rparr>"
  shows "protocol_inv w' g'"
proof -
  note D = protocol_invD [OF inv]
  have live: "w_senders w ! i \<noteq> SGone" using pc by simp
  have "a \<le> b" using sender_okD [OF inv i] pc by simp
  then have "a \<in> pending g" using owned_pending [OF D(5) i] pc by auto
  then have top: "0 \<le> top_seq g" using flags_invD(4) [OF D(1)] by force
  have "owners_ok w' g'"
    using pc pc' owned_pending [OF D(5) i]
    by (intro owners_ok_change [OF D(5) i, where pc = "SCloseLoad pc'" and X = "{a..b} - owned pc'"])
      (auto simp: w' g')
  moreover have "senders_ok w' g'"
  proof (rule senders_ok_change [OF inv i live, where pc = "SCloseLoad pc'"])
    show "sender_ok (size_of w) (top_seq g') (pending g') (w_cursors w) (terminated g') pc1"
      if "sender_ok (size_of w) (top_seq g) (pending g) (w_cursors w) (terminated g) pc1"
        "closing pc1 \<longrightarrow> terminated g" for pc1
      by (rule sender_ok_mono [OF that]) (auto simp: g')
  qed (simp_all add: w' g' pc')
  moreover have "closed_ok w' g'"
    using claimed_live(1) [OF inv i live] top by (auto simp: closed_ok_def w' g')
  moreover have "receivers_ok w' g'"
  proof -
    have "receiver_ok w' g' c pc1" if "receiver_ok w g c pc1" for c pc1
      by (rule receiver_ok_mono [OF that]) (simp_all add: w' g' readable_def)
    moreover have "taken_ok g' c xs = taken_ok g c xs" for c xs
      by (simp add: taken_ok_def has_taken_def g')
    ultimately show ?thesis using D(8) by (simp add: receivers_ok_def w' g')
  qed
  ultimately show ?thesis using D(9) by (simp add: protocol_inv_def memory_ok_def w' g')
qed

lemma panicked_drop_step_keeps:
  assumes inv: "protocol_inv w g" and i: "i < length (w_senders w)" and step: "panicked_drop_step i w = Some w'"
  shows "protocol_inv w' (observe (PanickedDrop i) w g)"
proof -
  obtain a b where pc: "w_senders w ! i = SOwn a b" "w' = set_sender i (SCloseLoad (SIdle None)) w"
    using step by (auto simp: panicked_drop_step_def split: sender_pc.splits)
  then show ?thesis by (intro panicked_keeps [OF inv i pc]) simp_all
qed

lemma panicked_batch_permit_step_keeps:
  assumes inv: "protocol_inv w g" and i: "i < length (w_senders w)"
    and step: "panicked_batch_permit_step i w = Some w'"
  shows "protocol_inv w' (observe (PanickedBatchPermit i) w g)"
proof -
  obtain a b where pc: "w_senders w ! i = SOwn a b" "w' = set_sender i (SCloseLoad (SOwn a b)) w"
    using step by (auto simp: panicked_batch_permit_step_def split: sender_pc.splits)
  have "a \<le> b" using sender_okD [OF inv i] pc by simp
  then show ?thesis by (intro panicked_keeps [OF inv i pc]) simp_all
qed

lemma drop_sender_step_keeps:
  assumes inv: "protocol_inv w g" and i: "i < length (w_senders w)" and step: "drop_sender_step i w = Some w'"
  shows "protocol_inv w' g"
proof -
  define final where "final \<longleftrightarrow> list_all (\<lambda>pc. pc = SGone) ((w_senders w)[i := SGone])"
  obtain r where pc: "w_senders w ! i = SIdle r" and w': "w' = set_sender i (if final then SCloseLoad SGone else SGone) w"
    using step by (auto simp: drop_sender_step_def final_def split: sender_pc.splits)
  have others: "w_senders w ! j = SGone" if "final" "j < length (w_senders w)" "j \<noteq> i" for j
  proof -
    have "(w_senders w)[i := SGone] ! j = SGone"
      using that(1,2) unfolding final_def list_all_length by simp
    then show ?thesis using that(3) by simp
  qed
  show ?thesis
  proof (cases final)
    case True
    then show ?thesis unfolding w' using pc others by (intro local_sender_step [OF inv i]) simp_all
  next
    case False
    then show ?thesis unfolding w' using pc by (intro local_sender_step [OF inv i]) simp_all
  qed
qed

lemma clone_sender_step_keeps:
  assumes inv: "protocol_inv w g" and i: "i < length (w_senders w)" and step: "clone_sender_step i w = Some w'"
  shows "protocol_inv w' g"
proof -
  note D = protocol_invD [OF inv]
  obtain r where pc: "w_senders w ! i = SIdle r" and w': "w' = w\<lparr>w_senders := w_senders w @ [SIdle None]\<rparr>"
    using step by (auto simp: clone_sender_step_def split: sender_pc.splits)
  have no: "\<not> over w" using not_over [OF i] pc by simp
  have nc: "closing (w_senders w ! j) \<Longrightarrow> terminated g" if "j < length (w_senders w)" for j
    using closing_other [OF inv i _ that] pc by (cases "j = i") auto
  have "owners_ok w' g"
  proof -
    have o: "owned (w_senders w' ! j) = (if j < length (w_senders w) then owned (w_senders w ! j) else {})"
      if "j < length (w_senders w')" for j
      using that by (auto simp: w' nth_append)
    have "(\<exists>j < length (w_senders w'). q \<in> owned (w_senders w' ! j)) \<longleftrightarrow>
        (\<exists>j < length (w_senders w). q \<in> owned (w_senders w ! j))" for q
      using o by (auto simp: w' nth_append less_Suc_eq)
    then show ?thesis using D(5) o by (auto simp: owners_ok_def split: if_splits)
  qed
  moreover have "senders_ok w' g"
    using sender_okD [OF inv] nc by (auto simp: senders_ok_def w' nth_append less_Suc_eq)
  moreover have "closed_ok w' g"
    using claimed_live(1) [OF inv i] pc D(7) quiet_before_mark [OF inv no]
    by (auto simp: closed_ok_def w' split: if_splits)
  moreover have "receivers_ok w' g" using no by (intro receivers_ok_over [OF D(8)]) (simp_all add: w')
  ultimately show ?thesis using D(9) by (simp add: protocol_inv_def memory_ok_def w')
qed

section \<open>Closing\<close>

text \<open>The last sender works alone: nothing is pending while it closes, unless a permit panicked.\<close>

lemma closing_alone:
  assumes inv: "protocol_inv w g" and i: "i < length (w_senders w)" and c: "closing (w_senders w ! i)"
    and nt: "\<not> terminated g"
  shows "\<And>j. j < length (w_senders w) \<Longrightarrow> j \<noteq> i \<Longrightarrow> w_senders w ! j = SGone"
    "pending g = {}" "w_claimed w = top_seq g"
proof -
  note D = protocol_invD [OF inv] and C = closing_cases [OF inv i c nt]
  show others: "\<And>j. j < length (w_senders w) \<Longrightarrow> j \<noteq> i \<Longrightarrow> w_senders w ! j = SGone"
    using C by blast
  have "owned (w_senders w ! i) = {}" using C by (cases "w_senders w ! i") auto
  then have "owned (w_senders w ! j) = {}" if "j < length (w_senders w)" for j
    using others [OF that] by (cases "j = i") simp_all
  moreover have "abandoned g = {}" using D(7) nt by (simp add: closed_ok_def)
  ultimately show "pending g = {}" using D(5) unfolding owners_ok_def by blast
  have "w_senders w ! i \<noteq> SGone" using c by auto
  then show "w_claimed w = top_seq g" using claimed_live(2) [OF inv i _ nt] by simp
qed

text \<open>The close of a panicking permit, and the one of the last sender, which has the channel to itself.\<close>

lemma close_scan_terminated:
  assumes inv: "protocol_inv w g" and i: "i < length (w_senders w)" and tm: "terminated g"
    and pc: "w_senders w ! i = SCloseLoad pc0 \<or> w_senders w ! i = SCloseScan raw k e pc0"
    and step: "sender_step i w = Some w'"
  shows "protocol_inv w' g"
proof -
  note ok = sender_okD [OF inv i, unfolded tm]
  have next': "protocol_inv (set_sender i pc' w) g"
    if "owned pc' = owned (w_senders w ! i)" "sender_ok (size_of w) (top_seq g) (pending g) (w_cursors w) True pc'" for pc'
    using that pc tm by (intro local_sender_step [OF inv i]) auto
  have "\<exists>pc'. w' = set_sender i pc' w \<and> owned pc' = owned (w_senders w ! i) \<and>
      sender_ok (size_of w) (top_seq g) (pending g) (w_cursors w) True pc'"
    using pc
  proof
    assume l: "w_senders w ! i = SCloseLoad pc0"
    then have "closable (top_seq g) (w_claimed w)" "resumes pc0" using claimed_live(3) [OF inv i] ok tm by simp_all
    then show ?thesis using step l by (auto simp: sender_step_defs cursor_load_def Let_def split: if_splits)
  next
    assume l: "w_senders w ! i = SCloseScan raw k e pc0"
    then have "closable (top_seq g) raw" "resumes pc0" using ok tm by simp_all
    then show ?thesis using step l by (auto simp: sender_step_defs split: if_splits prod.splits)
  qed
  then show ?thesis using next' by blast
qed

lemma last_close_moves:
  assumes inv: "protocol_inv w g" and i: "i < length (w_senders w)" and nt: "\<not> terminated g"
    and cl: "closing (w_senders w ! i)" "\<not> past_mark (w_senders w ! i)" "owned (w_senders w ! i) = {}"
    and pc': "owned pc' = {}" "sender_ok (size_of w) (top_seq g) (pending g) (w_cursors w) False pc'"
      "closing pc' \<Longrightarrow> last_close pc'"
  shows "protocol_inv (set_sender i pc' w) g"
  using assms closing_alone(1) [OF inv i cl(1) nt] by (intro local_sender_step [OF inv i]) auto

lemma close_load_last:
  assumes inv: "protocol_inv w g" and i: "i < length (w_senders w)" and nt: "\<not> terminated g"
    and pc: "w_senders w ! i = SCloseLoad pc0" and step: "sender_step i w = Some w'"
  shows "protocol_inv w' g"
proof -
  note D = protocol_invD [OF inv]
  have cl: "closing (w_senders w ! i)" "\<not> past_mark (w_senders w ! i)" using pc by simp_all
  have pc0: "pc0 = SGone" using closing_cases [OF inv i cl(1) nt] pc by auto
  have ns: "\<not> has_shutdown (top_seq g)" using D(14) by (rule not_shutdown_ge)
  have win: "max (wrap64 (top_seq g - wrap64 (size_of w - 1))) 0 = max (top_seq g - (size_of w - 1)) 0"
    using D(12-15) by simp
  have "w' = (if top_seq g < 0 then set_sender i (SCloseMark (top_seq g) (seq_add (top_seq g) 1) pc0) w
      else set_sender i (SCloseScan (top_seq g) (max (top_seq g - (size_of w - 1)) 0) (top_seq g) pc0) w)"
    using step pc closing_alone(3) [OF inv i cl(1) nt] ns win
    by (cases "top_seq g < 0") (simp_all add: sender_step_defs cursor_load_def Let_def)
  moreover have "seq_add (top_seq g) 1 = top_seq g + 1" using D(14,15) by simp
  ultimately show ?thesis using D(12,14) pc pc0 nt by (auto intro!: last_close_moves [OF inv i])
qed

lemma close_scan_last:
  assumes inv: "protocol_inv w g" and i: "i < length (w_senders w)" and nt: "\<not> terminated g"
    and pc: "w_senders w ! i = SCloseScan raw k e pc0" and step: "sender_step i w = Some w'"
  shows "protocol_inv w' g"
proof -
  note D = protocol_invD [OF inv]
  have cl: "closing (w_senders w ! i)" "\<not> past_mark (w_senders w ! i)" using pc by simp_all
  have pc0: "pc0 = SGone" using closing_cases [OF inv i cl(1) nt] pc by auto
  have ok: "raw = top_seq g" "e = top_seq g" "top_seq g - size_of w < k" "0 \<le> k" "k \<le> top_seq g + 1"
    using sender_okD [OF inv i] pc nt by auto
  show ?thesis
  proof (cases "k \<le> e")
    case True
    have "published (w_states w) k"
      using published_window [OF D(1), of k] ok True closing_alone(2) [OF inv i cl(1) nt] by simp
    then have "w' = set_sender i (SCloseScan raw (k + 1) e pc0) w"
      using step pc True by (simp add: sender_step_defs slot_state_of_def published_def)
    then show ?thesis using ok True pc pc0 nt by (auto intro!: last_close_moves [OF inv i])
  next
    case False
    then have k: "k = top_seq g + 1" using ok by simp
    then have "w' = set_sender i (SCloseMark raw (top_seq g + 1) pc0) w"
      using step pc False D(14,15) ok(1) by (simp add: sender_step_defs slot_state_of_def k)
    then show ?thesis using ok pc pc0 nt by (auto intro!: last_close_moves [OF inv i])
  qed
qed

lemma close_scan_steps_keep:
  assumes inv: "protocol_inv w g" and i: "i < length (w_senders w)"
    and pc: "w_senders w ! i = SCloseLoad pc0 \<or> w_senders w ! i = SCloseScan raw k e pc0"
    and step: "sender_step i w = Some w'"
  shows "protocol_inv w' g"
  using close_scan_terminated [OF inv i _ pc step] close_load_last [OF inv i _ _ step] close_scan_last [OF inv i _ _ step] pc
  by blast

lemma close_mark_step_keeps:
  assumes inv: "protocol_inv w g" and i: "i < length (w_senders w)" and pc: "w_senders w ! i = SCloseMark raw b pc0"
    and w': "w' = set_sender i (SCloseStore raw pc0) (w\<lparr>w_states := mark_shutdown (w_states w) b\<rparr>)"
  shows "protocol_inv w' g"
proof -
  note D = protocol_invD [OF inv]
  have cl: "closing (w_senders w ! i)" and live: "w_senders w ! i \<noteq> SGone" using pc by simp_all
  note A = closing_alone [OF inv i cl] and C = closing_cases [OF inv i cl]
  have no: "\<not> over w" using not_over [OF i] pc by simp
  have ok: "resumes pc0" "if terminated g then closable (top_seq g) raw else raw = top_seq g \<and> b = top_seq g + 1"
    using sender_okD [OF inv i] pc by auto
  have "memory_ok w' g"
    using D(9) by (auto simp: memory_ok_def w' flags_inv_mark_shutdown)
  moreover have "owners_ok w' g"
    using pc owned_pending [OF D(5) i]
    by (intro owners_ok_move [OF D(5) i, where pc = "SCloseStore raw pc0"]) (auto simp: w')
  moreover have "senders_ok w' g"
    by (rule senders_ok_change [OF inv i live, where pc = "SCloseStore raw pc0"])
      (use ok C pc in \<open>auto simp: w' split: if_splits\<close>)
  moreover have "closed_ok w' g"
  proof (cases "terminated g")
    case True
    then show ?thesis using claimed_live(1) [OF inv i live] terminated_top [OF inv] by (auto simp: closed_ok_def w')
  next
    case nt: False
    have "w_senders w' ! j = (if j = i then SCloseStore raw SGone else SGone)" if "j < length (w_senders w)" for j
      using that A(1) [OF nt] C nt pc by (simp add: w' nth_list_update)
    then have "over w'" by (auto simp: over_def in_set_conv_nth w')
    moreover have "abandoned g = {}" using D(7) nt by (simp add: closed_ok_def)
    ultimately show ?thesis
      using A(3) [OF nt] ok(2) nt quiet_before_mark [OF inv no nt] D(10)
      by (simp add: closed_ok_def) (simp add: w' marked_mark_shutdown)
  qed
  moreover have "receivers_ok w' g"
    using no by (intro receivers_ok_over [OF D(8)]) (simp_all add: w')
  ultimately show ?thesis by (simp add: protocol_inv_def)
qed

lemma close_store_step_keeps:
  assumes inv: "protocol_inv w g" and i: "i < length (w_senders w)" and pc: "w_senders w ! i = SCloseStore raw pc0"
    and w': "w' = set_sender i pc0 (w\<lparr>w_claimed := raw OR SHUTDOWN_MASK\<rparr>)"
  shows "protocol_inv w' g"
proof -
  note D = protocol_invD [OF inv]
  have cl: "closing (w_senders w ! i)" and live: "w_senders w ! i \<noteq> SGone" using pc by simp_all
  note A = closing_alone [OF inv i cl] and C = closing_cases [OF inv i cl]
  have ok: "resumes pc0" "if terminated g then closable (top_seq g) raw else raw = top_seq g"
    using sender_okD [OF inv i] pc by auto
  have gone: "\<forall>pc \<in> set (w_senders w'). pc = SGone" if "\<not> terminated g"
  proof -
    have "w_senders w' ! j = SGone" if "j < length (w_senders w)" for j
      using A(1) [OF \<open>\<not> terminated g\<close>] C [OF \<open>\<not> terminated g\<close>] pc that by (cases "j = i") (simp_all add: w')
    then show ?thesis by (auto simp: in_set_conv_nth w')
  qed
  have over': "over w'" if "over w"
  proof -
    have "past_mark (w_senders w ! i)" using that i by (simp add: over_def)
    then show ?thesis using that pc set_update_subset_insert [of "w_senders w" i pc0] by (auto simp: over_def w')
  qed
  have "memory_ok w' g" using D(9) by (simp add: memory_ok_def w')
  moreover have "owners_ok w' g"
    using pc owned_pending [OF D(5) i] by (intro owners_ok_move [OF D(5) i, where pc = pc0]) (auto simp: w')
  moreover have "senders_ok w' g"
    by (rule senders_ok_change [OF inv i live, where pc = pc0])
      (use ok resumes_ok [OF ok(1)] in \<open>auto simp: w'\<close>)
  moreover have "closed_ok w' g"
  proof (cases "terminated g")
    case True
    then show ?thesis
      using flagged_store [OF _ D(15), of raw] ok(2) terminated_top [OF inv] by (simp add: closed_ok_def w')
  next
    case nt: False
    have "raw OR SHUTDOWN_MASK = top_seq g \<or> flagged (raw OR SHUTDOWN_MASK) \<and> 0 \<le> top_seq g"
    proof (cases "top_seq g = - 1")
      case True
      then show ?thesis using ok(2) nt by (simp add: or_SHUTDOWN_MASK)
    next
      case False
      then show ?thesis using ok(2) nt D(14) flagged_store [OF _ D(15), of raw] by (simp add: closable_def)
    qed
    moreover have "over w'" using gone [OF nt] by (auto simp: over_def)
    ultimately show ?thesis using gone [OF nt] D(7) nt by (auto simp: closed_ok_def w')
  qed
  moreover have "receivers_ok w' g" using over' by (intro receivers_ok_over [OF D(8)]) (simp_all add: w')
  ultimately show ?thesis by (simp add: protocol_inv_def)
qed

section \<open>Receivers\<close>

lemma receiver_live:
  assumes inv: "protocol_inv w g" and j: "j < length (w_receivers w)" and r: "w_receivers w ! j \<noteq> RGone"
  shows "w_cursors w ! j \<noteq> SHUTDOWN_OPEN"
    "live_cursor (size_of w) (top_seq g) (pending g) (w_cursors w ! j)"
    "has_taken g (w_cursors w ! j) (received g ! j)"
proof -
  note R = receiver_okD [OF inv j]
  show c: "w_cursors w ! j \<noteq> SHUTDOWN_OPEN" using R r by (cases "w_receivers w ! j") auto
  then show "live_cursor (size_of w) (top_seq g) (pending g) (w_cursors w ! j)"
    using cursor_bounds(1) [OF inv, of j] R by blast
  show "has_taken g (w_cursors w ! j) (received g ! j)" using R c by (simp add: taken_ok_def)
qed

lemma local_receiver_step:
  assumes inv: "protocol_inv w g" and j: "j < length (w_receivers w)"
    and ok: "receiver_ok w g (w_cursors w ! j) r"
  shows "protocol_inv (set_receiver j r w) g"
proof -
  note D = protocol_invD [OF inv]
  let ?w = "set_receiver j r w"
  have "receiver_ok ?w g c pc = receiver_ok w g c pc" for c pc
    by (cases pc) (simp_all add: over_def)
  then have "receivers_ok ?w g"
    using D(8) ok j by (auto simp: receivers_ok_def nth_list_update)
  moreover have "owners_ok ?w g = owners_ok w g" "senders_ok ?w g = senders_ok w g"
    "closed_ok ?w g = closed_ok w g" "memory_ok ?w g = memory_ok w g"
    unfolding owners_ok_def senders_ok_def closed_ok_def over_def memory_ok_def frame_set_receiver
    by (rule refl)+
  ultimately show ?thesis using inv by (simp add: protocol_inv_def)
qed

lemma begin_recv_keeps:
  assumes inv: "protocol_inv w g" and j: "j < length (w_receivers w)" and idle: "idle_receiver j w"
    and limit: "1 \<le> limit"
  shows "protocol_inv (begin_recv j limit w) g"
proof -
  note D = protocol_invD [OF inv]
  have r: "w_receivers w ! j \<noteq> RGone" using idle by (auto simp: idle_receiver_def)
  note L = receiver_live [OF inv j r]
  define c n where "c = w_cursors w ! j" and "n = min limit (size_of w)"
  have n: "1 \<le> n" "n \<le> size_of w" using limit D(12) by (simp_all add: n_def)
  have "- 1 \<le> c" "c < 2 ^ 61" using L(2) D(15) by (auto simp: live_cursor_def c_def)
  then have "seq_add c 1 = c + 1" "seq_add c n = c + n" using n D(13) by simp_all
  then have "begin_recv j limit w = set_receiver j (RScan c (c + 1) (c + n) False) w"
    by (simp add: begin_recv_def cursor_load_def Let_def c_def n_def)
  then show ?thesis
    using L(1) n by (simp add: c_def local_receiver_step [OF inv j])
qed

lemma over_nothing_pending:
  assumes inv: "protocol_inv w g" and ov: "over w" and nt: "\<not> terminated g"
  shows "pending g = {}"
proof -
  have "owned (w_senders w ! i) = {}" if "i < length (w_senders w)" for i
  proof -
    have "past_mark (w_senders w ! i)" using ov that by (simp add: over_def)
    then show ?thesis by (cases "w_senders w ! i") auto
  qed
  moreover have "abandoned g = {}" using protocol_invD(7) [OF inv] nt by (simp add: closed_ok_def)
  ultimately show ?thesis using protocol_invD(5) [OF inv] unfolding owners_ok_def by blast
qed

text \<open>A scan finds published sequence numbers only, and the marker only behind everything, unless a
  permit panicked.\<close>

lemma scanning:
  assumes inv: "protocol_inv w g" and j: "j < length (w_receivers w)" and pc: "w_receivers w ! j = RScan c k stop sd"
  shows "c = w_cursors w ! j" "c \<noteq> SHUTDOWN_OPEN" "- 1 \<le> c" "c \<le> top_seq g" "c < 2 ^ 61"
    "c + 1 \<le> k" "k \<le> stop + 1" "c + 1 \<le> stop" "stop \<le> c + size_of w" "k = c + 1 \<Longrightarrow> \<not> sd"
    "\<And>q. c < q \<Longrightarrow> q < k \<Longrightarrow> readable g q"
    "\<And>q. c < q \<Longrightarrow> q \<le> stop \<Longrightarrow> published (w_states w) q \<longleftrightarrow> readable g q"
proof -
  note D = protocol_invD [OF inv]
  have "w_receivers w ! j \<noteq> RGone" using pc by simp
  note L = receiver_live [OF inv j this]
  show ok: "c = w_cursors w ! j" "c + 1 \<le> k" "k \<le> stop + 1" "c + 1 \<le> stop" "stop \<le> c + size_of w"
    "k = c + 1 \<Longrightarrow> \<not> sd" "\<And>q. c < q \<Longrightarrow> q < k \<Longrightarrow> readable g q"
    using receiver_okD [OF inv j] pc by auto
  show "c \<noteq> SHUTDOWN_OPEN" using L(1) ok(1) by simp
  have live: "top_seq g - size_of w \<le> c" "\<forall>p \<in> pending g. c < p" using L(2) ok(1) by (simp_all add: live_cursor_def)
  show c: "- 1 \<le> c" "c \<le> top_seq g" "c < 2 ^ 61" using L(2) ok(1) D(15) by (simp_all add: live_cursor_def)
  show "published (w_states w) q \<longleftrightarrow> readable g q" if "c < q" "q \<le> stop" for q
    using published_ahead [OF D(1) live(1) c(2) live(2), of q] ok(5) that by (auto simp: readable_def)
qed

text \<open>The first slot that was scanned is marked and not published.\<close>

lemma marked_gap:
  assumes inv: "protocol_inv w g" and m: "marked (w_states w) s" and c: "c \<le> top_seq g" "\<not> readable g (c + 1)"
  shows "terminated g \<or> over w \<and> c = top_seq g"
proof (cases "terminated g")
  case nt: False
  then have ov: "over w" using m quiet_before_mark [OF inv] by blast
  then have "pending g = {}" using over_nothing_pending [OF inv _ nt] by blast
  then show ?thesis using ov c by (auto simp: readable_def)
qed simp

lemma scan_step_ok:
  assumes inv: "protocol_inv w g" and j: "j < length (w_receivers w)"
    and pc: "w_receivers w ! j = RScan c k stop sd" and step: "receiver_step j w = Some w'"
  shows "protocol_inv w' g"
proof -
  note S = scanning [OF inv j pc]
  have add: "seq_add c 1 = c + 1" using S(3,5) by simp
  have next': "protocol_inv (set_receiver j pc' w) g" if "receiver_ok w g c pc'" for pc'
    using local_receiver_step [OF inv j] that S(1) by simp
  have hold: "receiver_ok w g c (recv_answer c (k - 1) sd')" if "c < k - 1" for sd'
  proof -
    have "recv_answer c (k - 1) sd' = RHold (c + 1) (k - 1)" using that by (simp add: recv_answer_def add)
    then show ?thesis using that S(2,11) by simp
  qed
  define m where "m \<longleftrightarrow> marked (w_states w) k"
  consider "k > stop" "w' = set_receiver j (recv_answer c (k - 1) sd) w"
    | "k \<le> stop" "published (w_states w) k" "w' = set_receiver j (RScan c (k + 1) stop (sd \<or> m)) w"
    | "k \<le> stop" "\<not> published (w_states w) k" "w' = set_receiver j (recv_answer c (k - 1) (sd \<or> m)) w"
    using step pc
    by (auto simp: receiver_step_def slot_state_of_def published_def marked_def m_def Let_def split: if_splits)
  then show ?thesis
  proof cases
    case 1
    then show ?thesis using hold S(8) by (simp add: next')
  next
    case 2
    have "readable g q" if "c < q" "q < k + 1" for q
      using S(11) [of q] S(12) [of k] S(6) 2(1,2) that by (cases "q = k") auto
    then show ?thesis using 2 S by (simp add: next')
  next
    case 3
    show ?thesis
    proof (cases "c < k - 1")
      case True
      then show ?thesis using 3(3) hold by (simp add: next')
    next
      case False
      then have k: "k = c + 1" "\<not> sd" using S(6,10) by auto
      have "\<not> readable g (c + 1)" using S(12) [of k] 3(1,2) k by simp
      then have "terminated g \<or> over w \<and> c = top_seq g" if m
        using marked_gap [OF inv _ S(4)] that unfolding m_def by blast
      then show ?thesis using 3(3) k S(1,2) by (auto simp: recv_answer_def intro!: next')
    qed
  qed
qed

text \<open>Moving a cursor ahead.\<close>

lemma senders_ok_cursor:
  assumes inv: "protocol_inv w g" and up: "w_cursors w ! j \<le> c"
  shows "senders_ok (w\<lparr>w_cursors := (w_cursors w)[j := c]\<rparr>) g"
  unfolding senders_ok_def
proof (intro allI impI)
  let ?w = "w\<lparr>w_cursors := (w_cursors w)[j := c]\<rparr>"
  fix i assume "i < length (w_senders ?w)"
  then have i: "i < length (w_senders w)" by simp
  have up': "w_cursors w ! k \<le> w_cursors ?w ! k" if "k < length (w_cursors w)" for k
    using up that by (cases "k = j") simp_all
  have "sender_ok (size_of w) (top_seq g) (pending g) (w_cursors ?w) (terminated g) (w_senders w ! i)"
  proof (cases "closing (w_senders w ! i)")
    case True
    then show ?thesis using sender_okD [OF inv i] by (cases "w_senders w ! i") auto
  next
    case False
    then show ?thesis
      using sender_ok_mono [OF sender_okD [OF inv i], of "terminated g" "top_seq g" "pending g" "w_cursors ?w"] up' by simp
  qed
  then show "sender_ok (size_of ?w) (top_seq g) (pending g) (w_cursors ?w) (terminated g) (w_senders ?w ! i) \<and>
    (closing (w_senders ?w ! i) \<longrightarrow> terminated g \<or> last_close (w_senders ?w ! i) \<and>
      (\<forall>j < length (w_senders ?w). j \<noteq> i \<longrightarrow> w_senders ?w ! j = SGone))"
    using protocol_invD(6) [OF inv] i by (simp add: senders_ok_def)
qed

lemma receivers_ok_cursor:
  assumes inv: "protocol_inv w g" and j: "j < length (w_receivers w)"
    and w': "w' = set_receiver j r (w\<lparr>w_cursors := (w_cursors w)[j := c]\<rparr>)"
    and g': "g' = g\<lparr>received := (received g)[j := xs]\<rparr>"
    and ok: "receiver_ok w g c r" "taken_ok g c xs"
  shows "receivers_ok w' g'"
  unfolding receivers_ok_def
proof (intro conjI allI impI)
  note D = protocol_invD [OF inv]
  have lens: "j < length (w_cursors w)" "length (received g) = length (w_cursors w)"
    "length (w_receivers w) = length (w_cursors w)"
    using D(8) j by (simp_all add: receivers_ok_def)
  show "length (w_receivers w') = length (w_cursors w')" "length (received g') = length (w_cursors w')"
    using lens by (simp_all add: w' g')
  fix k assume "k < length (w_cursors w')"
  then have k: "k < length (w_cursors w)" by (simp add: w')
  have old: "receiver_ok w g (w_cursors w ! k) (w_receivers w ! k)" "taken_ok g (w_cursors w ! k) (received g ! k)"
    using D(8) k by (simp_all add: receivers_ok_def)
  have eq: "receiver_ok w' g' d pc = receiver_ok w g d pc" "taken_ok g' d ys = taken_ok g d ys" for d pc ys
    by (cases pc; simp add: w' g' over_def readable_def) (simp add: taken_ok_def has_taken_def g')
  show "receiver_ok w' g' (w_cursors w' ! k) (w_receivers w' ! k)"
    "taken_ok g' (w_cursors w' ! k) (received g' ! k)"
    unfolding eq using old ok lens k by (cases "k = j"; simp add: w' g')+
qed

lemma move_cursor_keeps:
  assumes inv: "protocol_inv w g" and j: "j < length (w_receivers w)"
    and up: "w_cursors w ! j \<le> c" and c: "c = SHUTDOWN_OPEN \<or> live_cursor (size_of w) (top_seq g) (pending g) c"
    and w': "w' = set_receiver j r (w\<lparr>w_cursors := (w_cursors w)[j := c]\<rparr>)"
    and g': "g' = g\<lparr>received := (received g)[j := xs]\<rparr>"
    and ok: "receiver_ok w g c r" "taken_ok g c xs"
  shows "protocol_inv w' g'"
proof -
  note D = protocol_invD [OF inv]
  have same: "w_senders w' = w_senders w" "w_states w' = w_states w" "w_claimed w' = w_claimed w" "top_seq g' = top_seq g"
    "pending g' = pending g" "terminated g' = terminated g" "abandoned g' = abandoned g"
    by (simp_all add: w' g')
  have "memory_ok w' g'"
    using D(1-4) cursors_inv_update [OF D(4) c, of j] by (simp add: memory_ok_def w' g')
  moreover have "owners_ok w' g' = owners_ok w g" "closed_ok w' g' = closed_ok w g"
    unfolding owners_ok_def closed_ok_def over_def same by (rule refl)+
  moreover have "senders_ok w' g'"
    using senders_ok_cursor [OF inv up] unfolding senders_ok_def same by (simp add: w')
  ultimately show ?thesis using inv receivers_ok_cursor [OF inv j w' g' ok] by (simp add: protocol_inv_def)
qed

lemma release_step_keeps:
  assumes inv: "protocol_inv w g" and j: "j < length (w_receivers w)" and step: "release_step j w = Some w'"
  shows "protocol_inv w' (observe (Release j) w g)"
proof -
  note D = protocol_invD [OF inv]
  obtain a b where pc: "w_receivers w ! j = RHold a b"
    and w': "w' = set_receiver j (RIdle None) (w\<lparr>w_cursors := (w_cursors w)[j := b]\<rparr>)"
    using step by (auto simp: release_step_def cursor_store_def split: receiver_pc.splits)
  have "w_receivers w ! j \<noteq> RGone" using pc by simp
  note L = receiver_live [OF inv j this]
  have ok: "a = w_cursors w ! j + 1" "a \<le> b" "\<And>q. a \<le> q \<Longrightarrow> q \<le> b \<Longrightarrow> readable g q"
    using receiver_okD [OF inv j] pc by auto
  have "b < p" if "p \<in> pending g" for p
    using ok(3) [of p] L(2) ok(1) that by (force simp: readable_def live_cursor_def)
  then have b: "b \<le> top_seq g" "\<forall>p \<in> pending g. b < p"
    using ok(2) ok(3) [of b] by (auto simp: readable_def)
  have live: "live_cursor (size_of w) (top_seq g) (pending g) b"
    using L(2) ok(1,2) b by (auto simp: live_cursor_def)
  have "get_ref_at (w_ring w) q = history g q" if "a \<le> q" "q \<le> b" for q
    using D(2,3) ok(1) ok(3) [OF that] that L(2) by (auto simp: data_inv_def live_cursor_def readable_def)
  then have vals: "map (get_ref_at (w_ring w)) [a..b] = map (history g) [a..b]" by simp
  have c: "- 1 \<le> w_cursors w ! j" using L(2) by (simp add: live_cursor_def)
  then have "[0..b] = [0..w_cursors w ! j] @ [a..b]"
    using ok(1,2) upto_split2 [of 0 "w_cursors w ! j" b] by (cases "w_cursors w ! j = - 1") simp_all
  then have "has_taken g b (received g ! j @ map (get_ref_at (w_ring w)) [a..b])"
    using L(3) b c ok(1,2) vals by (simp add: has_taken_def)
  then have taken: "taken_ok g b (received g ! j @ map (get_ref_at (w_ring w)) [a..b])"
    using live_cursor_lt_open [OF live D(15)] by (simp add: taken_ok_def)
  have "w_cursors w ! j \<le> b" using ok(1,2) by simp
  moreover have "receiver_ok w g b (RIdle None)" using live_cursor_lt_open [OF live D(15)] by simp
  ultimately show ?thesis
    using move_cursor_keeps [OF inv j _ _ w' refl _ taken] live pc by simp
qed

lemma drop_receiver_step_keeps:
  assumes inv: "protocol_inv w g" and j: "j < length (w_receivers w)" and step: "drop_receiver_step j w = Some w'"
  shows "protocol_inv w' g"
proof -
  obtain r where pc: "w_receivers w ! j = RIdle r"
    and w': "w' = set_receiver j RGone (w\<lparr>w_cursors := (w_cursors w)[j := SHUTDOWN_OPEN]\<rparr>)"
    using step by (auto simp: drop_receiver_step_def cursor_store_def split: receiver_pc.splits)
  have "w_receivers w ! j \<noteq> RGone" using pc by simp
  note L = receiver_live [OF inv j this]
  have "taken_ok g SHUTDOWN_OPEN (received g ! j)" using L(3) by (auto simp: taken_ok_def)
  moreover have "w_cursors w ! j \<le> SHUTDOWN_OPEN"
    using cursor_bounds(3) [OF inv, of j] receiver_okD [OF inv j] by simp
  ultimately have "protocol_inv w' (g\<lparr>received := (received g)[j := received g ! j]\<rparr>)"
    by (intro move_cursor_keeps [OF inv j _ _ w' refl]) simp_all
  then show ?thesis by simp
qed

section \<open>Every reachable state\<close>

lemma protocol_inv_new:
  assumes rb: "ring_ok rb"
  shows "protocol_inv (world_new rb n) (ghost_new n)"
proof -
  have m: "meta_ok (rb_meta rb)" using rb by (simp add: ring_ok_def)
  have meta: "st_meta (new_all_empty (rb_meta rb)) = rb_meta rb" by (simp add: new_all_empty_def Let_def)
  have "memory_ok (world_new rb n) (ghost_new n)"
    using flags_inv_new [OF m] rb buffer_size_pos [OF m] meta
    by (simp add: memory_ok_def world_new_def ghost_new_def data_inv_def cursors_inv_def live_cursor_def
        cursor_new_def INIT_def)
  moreover have "owners_ok (world_new rb n) (ghost_new n)"
    by (simp add: owners_ok_def world_new_def ghost_new_def)
  moreover have "senders_ok (world_new rb n) (ghost_new n)"
    by (simp add: senders_ok_def world_new_def)
  moreover have "closed_ok (world_new rb n) (ghost_new n)"
    using marked_published_new(1) [OF m]
    by (simp add: closed_ok_def world_new_def ghost_new_def cursor_default_def cursor_new_def INIT_def)
  moreover have "receivers_ok (world_new rb n) (ghost_new n)"
    by (simp add: receivers_ok_def world_new_def ghost_new_def cursor_new_def INIT_def SHUTDOWN_OPEN_def
        taken_ok_def has_taken_def)
  ultimately show ?thesis by (simp add: protocol_inv_def)
qed

lemma observe_top: "top_seq g \<le> top_seq (observe act w g)"
  by (cases act) (auto split: sender_pc.split receiver_pc.split)

lemma sender_step_keeps:
  assumes inv: "protocol_inv w g" and i: "i < length (w_senders w)" and step: "sender_step i w = Some w'"
    and top: "top_seq (observe (SenderStep i) w g) < 2 ^ 60"
  shows "protocol_inv w' (observe (SenderStep i) w g)"
proof (cases "w_senders w ! i")
  case (SClaim n l)
  then show ?thesis using claim_steps_keep [OF inv i refl step] by simp
next
  case (SGate n l k m)
  then show ?thesis using claim_steps_keep [OF inv i refl step] by simp
next
  case (SCas n l a b)
  show ?thesis
  proof (cases "w_claimed w = l")
    case True
    have "top_seq g < b" using sender_okD [OF inv i] SCas claimed_exact [OF inv] True by simp
    then have g': "observe (SenderStep i) w g = g\<lparr>top_seq := b, pending := pending g \<union> {a..b}\<rparr>"
      using SCas True by (simp add: max_absorb2)
    have "w' = set_sender i (SOwn a b) (w\<lparr>w_claimed := b\<rparr>)"
      using step SCas True by (simp add: sender_step_defs)
    moreover have "b < 2 ^ 60" using top g' by simp
    ultimately show ?thesis using cas_step_keeps [OF inv i SCas True _ _ g'] by simp
  next
    case False
    then show ?thesis using claim_steps_keep [OF inv i refl step] SCas by simp
  qed
next
  case (SPublish k b)
  show ?thesis
  proof (cases "k \<le> b")
    case True
    then show ?thesis using publish_step_keeps [OF inv i SPublish True refl refl] step SPublish
      by (simp add: sender_step_defs)
  next
    case False
    then show ?thesis using local_sender_step [OF inv i, of "SIdle None"] step SPublish
      by (simp add: sender_step_defs)
  qed
next
  case (SCloseLoad pc)
  then show ?thesis using close_scan_steps_keep [OF inv i _ step] by simp
next
  case (SCloseScan raw k e pc)
  then show ?thesis using close_scan_steps_keep [OF inv i _ step] by simp
next
  case (SCloseMark raw b pc)
  then show ?thesis using close_mark_step_keeps [OF inv i SCloseMark refl] step by (simp add: sender_step_defs)
next
  case (SCloseStore raw pc)
  then show ?thesis using close_store_step_keeps [OF inv i SCloseStore refl] step
    by (simp add: sender_step_defs cursor_store_def)
qed (use step in \<open>simp_all add: sender_step_defs\<close>)

lemma receiver_step_keeps:
  assumes "protocol_inv w g" "j < length (w_receivers w)" "receiver_step j w = Some w'"
  shows "protocol_inv w' g"
proof (cases "w_receivers w ! j")
  case (RScan c k stop sd)
  then show ?thesis using scan_step_ok [OF assms(1,2) _ assms(3)] by simp
qed (use assms(3) in \<open>simp_all add: receiver_step_def\<close>)

lemma step_keeps:
  assumes "protocol_inv w g" "step act w = Some w'" "top_seq (observe act w g) < 2 ^ 60"
  shows "protocol_inv w' (observe act w g)"
proof (cases act)
  case (SenderStep i)
  then show ?thesis using sender_step_keeps [OF assms(1), of i w'] assms(2,3)
    by (simp only: step.simps option.distinct split: if_splits)
next
  case (PanickedDrop i)
  then show ?thesis using panicked_drop_step_keeps [OF assms(1), of i w'] assms(2)
    by (simp only: step.simps option.distinct split: if_splits)
next
  case (PanickedBatchPermit i)
  then show ?thesis using panicked_batch_permit_step_keeps [OF assms(1), of i w'] assms(2)
    by (simp only: step.simps option.distinct split: if_splits)
next
  case (Release j)
  then show ?thesis using release_step_keeps [OF assms(1), of j w'] assms(2)
    by (simp only: step.simps option.distinct split: if_splits)
qed (use assms(1,2) in \<open>auto split: if_splits
      intro: begin_claim_keeps write_step_keeps commit_step_keeps drop_sender_step_keeps
        clone_sender_step_keeps begin_recv_keeps receiver_step_keeps drop_receiver_step_keeps\<close>)

theorem reachable_inv:
  assumes "reachable rb n w g" "ring_ok rb" "top_seq g < 2 ^ 60"
  shows "protocol_inv w g"
  using assms
proof (induction rule: reachable.induct)
  case fresh
  then show ?case using protocol_inv_new by blast
next
  case (steps w g act w')
  have "top_seq g < 2 ^ 60" using observe_top [of g act w] steps.prems(2) by simp
  then have "protocol_inv w g" using steps.IH steps.prems(1) by blast
  then show ?case using step_keeps steps.hyps(2) steps.prems(2) by blast
qed

section \<open>Consequences\<close>

text \<open>Two sequence numbers of the last ring length share a slot only if they are equal.\<close>

lemma window_slots:
  assumes "protocol_inv w g" "top_seq g - size_of w < a" "a \<le> top_seq g"
    and "top_seq g - size_of w < b" "b \<le> top_seq g" "a \<noteq> b"
  shows "slot_index (w_states w) a \<noteq> slot_index (w_states w) b"
proof -
  have "\<bar>a - b\<bar> < size_of w" using assms by linarith
  then show ?thesis
    using protocol_invD(11) [OF assms(1)] assms(6) by (simp add: slot_index_def index_of_seq_eq_iff)
qed

lemma owned_window:
  assumes "protocol_inv w g" "i < length (w_senders w)" "s \<in> owned (w_senders w ! i)"
  shows "top_seq g - size_of w < s" "s \<le> top_seq g" "0 \<le> s" "s \<in> pending g"
proof -
  note D = protocol_invD [OF assms(1)]
  show "s \<in> pending g" using owned_pending [OF D(5) assms(2)] assms(3) by blast
  then show "top_seq g - size_of w < s" "s \<le> top_seq g" "0 \<le> s" using flags_invD(4) [OF D(1)] by auto
qed

lemma held_window:
  assumes inv: "protocol_inv w g" and j: "j < length (w_receivers w)" and pc: "w_receivers w ! j = RHold a b"
    and q: "a \<le> q" "q \<le> b"
  shows "top_seq g - size_of w < q" "q \<le> top_seq g" "0 \<le> q" "q \<notin> pending g"
    "get_ref_at (w_ring w) q = history g q"
proof -
  note D = protocol_invD [OF inv]
  have "w_receivers w ! j \<noteq> RGone" using pc by simp
  note L = receiver_live [OF inv j this]
  have "readable g q" "a = w_cursors w ! j + 1" using receiver_okD [OF inv j] pc q by auto
  then show win: "top_seq g - size_of w < q" "q \<le> top_seq g" "0 \<le> q" "q \<notin> pending g"
    using L(2) q by (auto simp: readable_def live_cursor_def)
  then show "get_ref_at (w_ring w) q = history g q" using D(2,3) by (simp add: data_inv_def)
qed

text \<open>Mutual exclusion on slots.\<close>

lemma senders_exclusive:
  assumes inv: "protocol_inv w g" and "i < length (w_senders w)" "j < length (w_senders w)" "i \<noteq> j"
    and "s \<in> owned (w_senders w ! i)" "q \<in> owned (w_senders w ! j)"
  shows "slot_index (w_states w) s \<noteq> slot_index (w_states w) q"
proof -
  have "owned (w_senders w ! i) \<inter> owned (w_senders w ! j) = {}"
    using protocol_invD(5) [OF inv] assms(2-4) by (simp add: owners_ok_def)
  then have "s \<noteq> q" using assms(5,6) by blast
  then show ?thesis
    using window_slots [OF inv] owned_window [OF inv assms(2,5)] owned_window [OF inv assms(3,6)] by blast
qed

lemma reader_exclusive:
  assumes inv: "protocol_inv w g" and "i < length (w_senders w)" "s \<in> owned (w_senders w ! i)"
    and "j < length (w_receivers w)" "w_receivers w ! j = RHold a b" "a \<le> q" "q \<le> b"
  shows "slot_index (w_states w) s \<noteq> slot_index (w_states w) q"
proof -
  note O = owned_window [OF inv assms(2,3)] and H = held_window [OF inv assms(4-7)]
  have "s \<noteq> q" using O(4) H(4) by auto
  then show ?thesis using window_slots [OF inv O(1,2) H(1,2)] by blast
qed

text \<open>What a receiver has taken.\<close>

lemma taken_prefix:
  assumes inv: "protocol_inv w g" and j: "j < length (w_receivers w)"
  obtains m where "- 1 \<le> m" "m \<le> top_seq g" "\<And>p. p \<in> pending g \<Longrightarrow> m < p"
    "received g ! j = map (history g) [0..m]"
  using receiver_okD [OF inv j] that by (auto simp: taken_ok_def has_taken_def split: if_splits)

lemma disconnected_drained:
  assumes inv: "protocol_inv w g" and j: "j < length (w_receivers w)"
    and r: "w_receivers w ! j = RIdle (Some ClaimShutdown)" and nt: "\<not> terminated g"
  shows "over w" "pending g = {}" "received g ! j = map (history g) [0..top_seq g]"
proof -
  have R: "over w" "w_cursors w ! j = top_seq g" using receiver_okD [OF inv j] r nt by auto
  show "over w" by fact
  show "pending g = {}" using over_nothing_pending [OF inv R(1) nt] .
  have "w_receivers w ! j \<noteq> RGone" using r by simp
  then show "received g ! j = map (history g) [0..top_seq g]"
    using receiver_live(3) [OF inv j] R(2) by (simp add: has_taken_def)
qed

text \<open>A compare-and-swap that fails was overtaken by another claim, or by a termination.\<close>

lemma cas_overtaken:
  assumes "protocol_inv w g" "i < length (w_senders w)" "w_senders w ! i = SCas n l a b" "w_claimed w \<noteq> l"
  shows "l < top_seq g \<and> w_claimed w = top_seq g \<or> terminated g \<and> has_shutdown (w_claimed w)"
  using sender_okD [OF assms(1,2)] claimed_live(1) [OF assms(1,2)] assms(3,4) by (auto simp: flagged_def)

text \<open>Claims never run more than one ring length ahead of a live receiver.\<close>

lemma claims_bounded:
  assumes "protocol_inv w g" "j < length (w_receivers w)" "w_receivers w ! j \<noteq> RGone"
  shows "w_cursors w ! j \<le> top_seq g" "top_seq g \<le> w_cursors w ! j + size_of w"
  using receiver_live(2) [OF assms] by (auto simp: live_cursor_def)

section \<open>The published history\<close>

lemma history_kept:
  assumes inv: "protocol_inv w g" and step: "step act w = Some w'" and q: "readable g q"
  shows "readable (observe act w g) q \<and> history (observe act w g) q = history g q"
proof (cases "\<exists>i. act = SenderStep i")
  case True
  then obtain i where act: "act = SenderStep i" by blast
  have i: "i < length (w_senders w)" using step act by (simp split: if_splits)
  note ok = sender_okD [OF inv i]
  show ?thesis
  proof (cases "w_senders w ! i")
    case (SCas n l a b)
    have "w_claimed w = l \<Longrightarrow> l = top_seq g" using SCas ok claimed_exact [OF inv] by simp
    then show ?thesis using act SCas ok q by (auto simp: readable_def)
  next
    case (SPublish k b)
    then have "k \<le> b \<Longrightarrow> k \<in> pending g" using owned_pending [OF protocol_invD(5) [OF inv] i] by auto
    then show ?thesis using act SPublish q by (auto simp: readable_def)
  qed (use act q in simp_all)
next
  case False
  then show ?thesis using q by (cases act) (auto simp: readable_def split: receiver_pc.splits sender_pc.splits)
qed

section \<open>Sizes and ranges\<close>

lemma sender_step_frame: "sender_step i w = Some w' \<Longrightarrow> w_cursors w' = w_cursors w"
  by (cases "w_senders w ! i") (auto simp: sender_step_defs Let_def split: if_splits sum.splits prod.splits)

lemma step_frame:
  assumes "step act w = Some w'"
  shows "length (w_cursors w') = length (w_cursors w)"
proof (cases act)
  case (SenderStep i)
  then show ?thesis using assms sender_step_frame [of i w w'] by (auto split: if_splits)
qed (use assms in \<open>auto simp: access_defs Let_def
    split: if_splits sender_pc.splits receiver_pc.splits prod.splits\<close>)

end
