(* ===== verification/ProtocolMethods.thy ===== *)
theory ProtocolMethods
  imports ProtocolCorrect
begin

text \<open>
  The accesses of \<open>Protocol\<close>, run one after the other without interference, are the methods of
  \<open>Publisher\<close> and \<open>Consumer\<close>: a claim, a receive and a close. So both models are of the same
  program, and a context that runs alone finishes its claim within as many accesses as there are
  receivers, plus three.
\<close>

section \<open>A small channel\<close>

text \<open>Two slots and one receiver, to evaluate.\<close>

definition small_ring :: "nat ring_buffer" where
  "small_ring = \<lparr>slots = [0, 0], rb_meta = \<lparr>index_mask = 1, buffer_size = 2\<rparr>\<rparr>"

lemma small_ring_ok: "ring_ok small_ring"
  by (simp add: ring_ok_def meta_ok_def small_ring_def is_power_of_two_iff) (rule exI [of _ 1], simp)

definition small_world :: "nat world" where
  "small_world = world_new small_ring 1"

section \<open>Claims\<close>

text \<open>A sending context alone, until its claim is decided.\<close>

fun settle_claim :: "nat \<Rightarrow> nat \<Rightarrow> 'a world \<Rightarrow> 'a world" where
  "settle_claim 0 i w = w"
| "settle_claim (Suc fuel) i w =
     (case w_senders w ! i of
        SClaim n l \<Rightarrow> settle_claim fuel i (the (sender_step i w))
      | SGate n l k m \<Rightarrow> settle_claim fuel i (the (sender_step i w))
      | SCas n l a b \<Rightarrow> settle_claim fuel i (the (sender_step i w))
      | _ \<Rightarrow> w)"

definition publisher_of :: "'a world \<Rightarrow> unit fanout_gate multi_publisher" where
  "publisher_of w =
     \<lparr>shared = \<lparr>claimed = w_claimed w, slot_states = w_states w,
        consumer_gate = \<lparr>fan_consumed = w_cursors w, fan_wakers = []\<rparr>,
        ss_buffer_size = buffer_size (st_meta (w_states w))\<rparr>,
      mp_meta = st_meta (w_states w)\<rparr>"

lemma set_sender_twice [simp]: "set_sender i x (set_sender i y w) = set_sender i x w"
  by (simp add: set_sender_def)

lemma settle_gate:
  assumes "i < length (w_senders w)"
  shows "k \<le> length (w_cursors w) \<Longrightarrow>
    settle_claim (length (w_cursors w) - k + fuel) i (set_sender i (SGate n l k m) w) =
    settle_claim fuel i (set_sender i (SGate n l (length (w_cursors w)) (fan_min_loop m (drop k (w_cursors w)))) w)"
proof (induction "length (w_cursors w) - k" arbitrary: k m)
  case 0
  then show ?case by simp
next
  case (Suc d)
  then have k: "k < length (w_cursors w)" by simp
  let ?m = "min m (cursor_load (w_cursors w ! k))"
  have "length (w_cursors w) - k + fuel = Suc (length (w_cursors w) - Suc k + fuel)" using k by simp
  moreover have "sender_step i (set_sender i (SGate n l k m) w) = Some (set_sender i (SGate n l (Suc k) ?m) w)"
    using assms k by (simp add: sender_step_defs)
  ultimately have "settle_claim (length (w_cursors w) - k + fuel) i (set_sender i (SGate n l k m) w) =
      settle_claim (length (w_cursors w) - Suc k + fuel) i (set_sender i (SGate n l (Suc k) ?m) w)"
    using assms by simp
  also have "\<dots> = settle_claim fuel i
      (set_sender i (SGate n l (length (w_cursors w)) (fan_min_loop ?m (drop (Suc k) (w_cursors w)))) w)"
    using Suc k by (intro Suc.hyps(1)) simp_all
  also have "fan_min_loop ?m (drop (Suc k) (w_cursors w)) = fan_min_loop m (drop k (w_cursors w))"
    using k by (simp flip: Cons_nth_drop_Suc)
  finally show ?case .
qed

text \<open>C22: A claim is wait-free when it is not disturbed, and its atomic accesses compute what
  \<open>try_claim_at_most\<close> computes: after as many accesses as there are receivers, plus three, the context
  either owns the range the method returns, with the cursor it leaves, or is idle with its error.\<close>

theorem claim_by_accesses:
  assumes i: "i < length (w_senders w)"
  shows "settle_claim (length (w_cursors w) + 3) i (begin_claim i limit w) =
    (case mp_try_claim_at_most (fan_barrier id) limit (publisher_of w) of
       (Inl e, _) \<Rightarrow> set_sender i (SIdle (Some e)) w
     | (Inr (a, b), p) \<Rightarrow> set_sender i (SOwn a b) (w\<lparr>w_claimed := claimed (shared p)\<rparr>))"
proof -
  define n where "n = min limit (buffer_size (st_meta (w_states w)))"
  let ?l = "w_claimed w" and ?N = "length (w_cursors w)"
  let ?m = "fan_min_loop SHUTDOWN_OPEN (w_cursors w)"
  have by_method: "mp_try_claim_at_most (fan_barrier id) limit (publisher_of w) =
      claim_loop (fan_barrier id) n ?l (publisher_of w)"
    by (simp add: mp_try_claim_at_most_def publisher_of_def n_def cursor_load_def)
  have gate: "max_consumed (fan_barrier id) (consumer_gate (shared (publisher_of w))) = gate_answer ?m"
    by (simp add: fan_barrier_def fan_max_consumed_def gate_answer_def publisher_of_def Let_def)
  have pub: "claimed (shared (publisher_of w)) = ?l" "mp_meta (publisher_of w) = st_meta (w_states w)"
    by (simp_all add: publisher_of_def)
  have loop_eq: "claim_loop (fan_barrier id) n ?l (publisher_of w) =
     (if has_shutdown ?l then (Inl ClaimShutdown, publisher_of w)
      else case claim_target (st_meta (w_states w)) n ?l (gate_answer ?m) of
          Inl e \<Rightarrow> (Inl e, publisher_of w)
        | Inr (a, b) \<Rightarrow> (Inr (a, b), (publisher_of w)\<lparr>shared := (shared (publisher_of w))\<lparr>claimed := b\<rparr>\<rparr>))"
    by (subst claim_loop.simps) (auto simp: gate pub split: sum.splits)
  have begin': "begin_claim i limit w = set_sender i (SClaim n ?l) w"
    by (simp add: begin_claim_def n_def cursor_load_def)
  show ?thesis
  proof (cases "has_shutdown ?l")
    case True
    have "settle_claim (Suc (?N + 2)) i (set_sender i (SClaim n ?l) w) = set_sender i (SIdle (Some ClaimShutdown)) w"
      using i True by (simp add: sender_step_defs numeral_2_eq_2)
    then show ?thesis using True by (simp add: by_method loop_eq begin' numeral_3_eq_3 numeral_2_eq_2)
  next
    case False
    have "settle_claim (Suc (?N + 2)) i (set_sender i (SClaim n ?l) w) =
        settle_claim (?N - 0 + 2) i (set_sender i (SGate n ?l 0 SHUTDOWN_OPEN) w)"
      using i False by (simp add: sender_step_defs)
    also have "\<dots> = settle_claim 2 i (set_sender i (SGate n ?l ?N ?m) w)"
      using settle_gate [OF i, of 0 2 n ?l SHUTDOWN_OPEN] by simp
    also have "\<dots> = (case claim_target (st_meta (w_states w)) n ?l (gate_answer ?m) of
        Inl e \<Rightarrow> set_sender i (SIdle (Some e)) w
      | Inr (a, b) \<Rightarrow> set_sender i (SOwn a b) (w\<lparr>w_claimed := b\<rparr>))"
      using i by (auto simp: numeral_2_eq_2 sender_step_defs set_sender_def split: sum.splits prod.splits)
    finally show ?thesis using False
      by (auto simp: by_method loop_eq begin' numeral_3_eq_3 numeral_2_eq_2 split: sum.splits)
  qed
qed

theorem claim_by_accesses_witness:
  "settle_claim 4 0 (begin_claim 0 5 small_world) = set_sender 0 (SOwn 0 1) (small_world\<lparr>w_claimed := 1\<rparr>)"
proof -
  have i: "0 < length (w_senders small_world)" and n: "length (w_cursors small_world) + 3 = 4" by code_simp+
  have "(case mp_try_claim_at_most (fan_barrier id) 5 (publisher_of small_world) of
      (Inl e, _) \<Rightarrow> None | (Inr ab, p) \<Rightarrow> Some (ab, claimed (shared p))) = Some ((0, 1), 1)"
    by code_simp
  then obtain p where p: "mp_try_claim_at_most (fan_barrier id) 5 (publisher_of small_world) = (Inr (0, 1), p)"
    "claimed (shared p) = 1"
    by (auto split: prod.splits sum.splits)
  from claim_by_accesses [OF i, of 5] show ?thesis unfolding n p(1) by (simp add: p(2))
qed

section \<open>Receives\<close>

fun settle_recv :: "nat \<Rightarrow> nat \<Rightarrow> 'a world \<Rightarrow> 'a world" where
  "settle_recv 0 j w = w"
| "settle_recv (Suc fuel) j w =
     (case w_receivers w ! j of
        RScan c k stop sd \<Rightarrow> settle_recv fuel j (the (receiver_step j w))
      | _ \<Rightarrow> w)"

definition sequencer_of :: "nat \<Rightarrow> 'a world \<Rightarrow> unit receiver_view" where
  "sequencer_of j w =
     cs_new \<lparr>gate_states = w_states w\<rparr> (w_cursors w ! j) (st_meta (w_states w)) ()"

lemma set_receiver_twice [simp]: "set_receiver j x (set_receiver j y w) = set_receiver j x w"
  by (simp add: set_receiver_def)

lemma settle_recv_done:
  assumes "j < length (w_receivers w)" "\<And>c k stop sd. r \<noteq> RScan c k stop sd"
  shows "settle_recv fuel j (set_receiver j r w) = set_receiver j r w"
proof (cases r)
  case (RScan c k stop sd)
  then show ?thesis using assms(2) by blast
qed (cases fuel; simp add: assms(1))+

lemma settle_recv_step:
  "receiver_step j w = Some w' \<Longrightarrow> settle_recv (Suc fuel) j w = settle_recv fuel j w'"
  by (cases "w_receivers w ! j") (simp_all add: receiver_step_def)

lemma settle_recv_answer:
  "j < length (w_receivers w) \<Longrightarrow>
     settle_recv fuel j (set_receiver j (recv_answer c l sd) w) = set_receiver j (recv_answer c l sd) w"
  by (rule settle_recv_done) (simp_all add: recv_answer_def)

lemma settle_scan:
  assumes j: "j < length (w_receivers w)"
  shows "settle_recv (Suc (nat (stop - k + 1))) j (set_receiver j (RScan c k stop sd) w) =
    (let s = scan_loop (w_states w) (k - 1) sd [k..stop]
     in set_receiver j (recv_answer c (ss_seq s) (ss_shutdown s)) w)"
proof (induction "nat (stop - k + 1)" arbitrary: k sd)
  case 0
  then have "stop < k" by simp
  moreover have "nat (stop - k + 1) = 0" using 0 by simp
  ultimately show ?case using j by (simp add: receiver_step_def)
next
  case (Suc d)
  then have k: "k \<le> stop" "nat (stop - k + 1) = Suc (nat (stop - (k + 1) + 1))" by linarith+
  let ?raw = "states (w_states w) ! slot_index (w_states w) k"
  let ?sd = "sd \<or> ?raw AND SHUTDOWN_BIT \<noteq> 0"
  have IH: "settle_recv (Suc (nat (stop - (k + 1) + 1))) j (set_receiver j (RScan c (k + 1) stop ?sd) w) =
      (let s = scan_loop (w_states w) (k + 1 - 1) ?sd [k + 1..stop]
       in set_receiver j (recv_answer c (ss_seq s) (ss_shutdown s)) w)"
    using Suc(2) k(2) by (intro Suc(1)) simp
  show ?case
  proof (cases "?raw AND MASK = available_flag (w_states w) k")
    case True
    then have "receiver_step j (set_receiver j (RScan c k stop sd) w) = Some (set_receiver j (RScan c (k + 1) stop ?sd) w)"
      using j k(1) by (simp add: receiver_step_def slot_state_of_def Let_def)
    from settle_recv_step [OF this] show ?thesis
      using IH True k(1) unfolding k(2) by (simp add: upto_step slot_state_of_def Let_def)
  next
    case False
    then have "receiver_step j (set_receiver j (RScan c k stop sd) w) = Some (set_receiver j (recv_answer c (k - 1) ?sd) w)"
      using j k(1) by (simp add: receiver_step_def slot_state_of_def Let_def)
    from settle_recv_step [OF this] show ?thesis
      using False k(1) settle_recv_answer [OF j] unfolding k(2) by (simp add: upto_step slot_state_of_def Let_def)
  qed
qed

text \<open>C23: A receive is wait-free: after at most one access per slot, plus one, the accesses have
  computed the range or the error that \<open>try_claim_at_most\<close> of the consumer returns.\<close>

theorem recv_by_accesses:
  assumes j: "j < length (w_receivers w)" and c: "- 1 \<le> w_cursors w ! j" "w_cursors w ! j < 2 ^ 61"
    and m: "meta_ok (st_meta (w_states w))" and limit: "1 \<le> limit"
  shows "settle_recv (nat (size_of w) + 1) j (begin_recv j limit w) =
    set_receiver j (case cs_try_claim_at_most max_published limit (sequencer_of j w) of
       Inl e \<Rightarrow> RIdle (Some e) | Inr (a, b) \<Rightarrow> RHold a b) w"
proof -
  define c n where "c = w_cursors w ! j" and "n = min limit (size_of w)"
  have size: "1 \<le> size_of w" "size_of w \<le> 2 ^ 30" using m by (simp_all add: meta_ok_def)
  have n: "1 \<le> n" "n \<le> size_of w" using limit size by (simp_all add: n_def)
  have add: "seq_add c 1 = c + 1" "seq_add c n = c + n" using c n size by (simp_all add: c_def)
  have begin': "begin_recv j limit w = set_receiver j (RScan c (c + 1) (c + n) False) w"
    using add by (simp add: begin_recv_def cursor_load_def Let_def c_def n_def)
  let ?s = "scan_loop (w_states w) c False [c + 1..c + n]"
  have more: "settle_recv (fuel + extra) j w1 = settle_recv fuel j w1"
    if "\<And>c k stop sd. w_receivers (settle_recv fuel j w1) ! j \<noteq> RScan c k stop sd" for fuel extra w1
    using that
  proof (induction fuel arbitrary: w1)
    case 0
    then show ?case by (cases extra; cases "w_receivers w1 ! j") auto
  next
    case (Suc fuel)
    then show ?case by (cases "w_receivers w1 ! j") auto
  qed
  have scan: "settle_recv (Suc (nat n)) j (begin_recv j limit w) =
      set_receiver j (recv_answer c (ss_seq ?s) (ss_shutdown ?s)) w"
    using settle_scan [OF j, of "c + n" "c + 1" c False] by (simp add: begin' Let_def)
  have "settle_recv (nat (size_of w) + 1) j (begin_recv j limit w) =
      settle_recv (Suc (nat n) + (nat (size_of w) - nat n)) j (begin_recv j limit w)"
    using n by simp
  also have "\<dots> = settle_recv (Suc (nat n)) j (begin_recv j limit w)"
    by (rule more) (unfold scan, simp add: j recv_answer_def)
  finally have accesses: "settle_recv (nat (size_of w) + 1) j (begin_recv j limit w) =
      set_receiver j (recv_answer c (ss_seq ?s) (ss_shutdown ?s)) w"
    using scan by simp
  have "cs_try_claim_at_most max_published limit (sequencer_of j w) =
      (if ss_seq ?s \<le> c then if ss_shutdown ?s then Inl ClaimShutdown else Inl ClaimEmpty
       else Inr (c + 1, ss_seq ?s))"
    using add c by (simp add: cs_try_claim_at_most_def sequencer_of_def cs_new_def cursor_load_def
        max_published_def scan_available_until_def Let_def c_def n_def)
  then show ?thesis unfolding accesses by (simp add: recv_answer_def add)
qed

theorem recv_by_accesses_witness:
  "settle_recv 3 0 (begin_recv 0 2 small_world) = set_receiver 0 (RIdle (Some ClaimEmpty)) small_world"
proof -
  have j: "0 < length (w_receivers small_world)" and c: "w_cursors small_world ! 0 = - 1"
    and m: "meta_ok (st_meta (w_states small_world))" and n: "nat (size_of small_world) + 1 = 3"
    and r: "cs_try_claim_at_most max_published 2 (sequencer_of 0 small_world) = Inl ClaimEmpty"
    by (code_simp, code_simp, simp add: small_world_def small_ring_def world_new_def new_all_empty_def meta_ok_def
        is_power_of_two.simps Let_def, code_simp, code_simp)
  from recv_by_accesses [OF j _ _ m, of 2] show ?thesis unfolding n r c by simp
qed

section \<open>Closing\<close>

fun settle_close :: "nat \<Rightarrow> nat \<Rightarrow> 'a world \<Rightarrow> 'a world" where
  "settle_close 0 i w = w"
| "settle_close (Suc fuel) i w =
     (if closing (w_senders w ! i) then settle_close fuel i (the (sender_step i w)) else w)"

lemma settle_close_step:
  "closing (w_senders w ! i) \<Longrightarrow> sender_step i w = Some w' \<Longrightarrow>
     settle_close (Suc fuel) i w = settle_close fuel i w'"
  by simp

lemma settle_close_done: "\<not> closing (w_senders w ! i) \<Longrightarrow> settle_close fuel i w = w"
  by (cases fuel) simp_all

lemma settle_close_scan:
  assumes i: "i < length (w_senders w)"
  shows "settle_close (Suc (nat (e - k + 1)) + fuel) i (set_sender i (SCloseScan raw k e pc) w) =
    settle_close (fuel + (nat (e - k + 1) - nat (scan_last_loop (w_states w) (k - 1) [k..e] - (k - 1)))) i
      (set_sender i (SCloseMark raw (seq_add (scan_last_loop (w_states w) (k - 1) [k..e]) 1) pc) w)"
proof (induction "nat (e - k + 1)" arbitrary: k)
  case 0
  then have k: "e < k" "nat (e - k + 1) = 0" by simp_all
  then have "sender_step i (set_sender i (SCloseScan raw k e pc) w) = Some (set_sender i (SCloseMark raw (seq_add (k - 1) 1) pc) w)"
    using i by (simp add: sender_step_defs slot_state_of_def)
  then show ?case using i k by simp
next
  case (Suc d)
  then have k: "k \<le> e" "nat (e - k + 1) = Suc (nat (e - (k + 1) + 1))" by linarith+
  show ?case
  proof (cases "states (w_states w) ! slot_index (w_states w) k AND MASK = available_flag (w_states w) k")
    case True
    have step: "sender_step i (set_sender i (SCloseScan raw k e pc) w) = Some (set_sender i (SCloseScan raw (k + 1) e pc) w)"
      using i k(1) True by (simp add: sender_step_defs slot_state_of_def)
    have eq: "scan_last_loop (w_states w) (k - 1) [k..e] = scan_last_loop (w_states w) (k + 1 - 1) [k + 1..e]"
      using k(1) True by (simp add: upto_step slot_state_of_def)
    let ?r = "scan_last_loop (w_states w) (k + 1 - 1) [k + 1..e]"
    have "k \<le> ?r" using last_run_bounds(1) [of "k + 1" "published (w_states w)" e]
      by (simp only: scan_last_loop_eq)
    then have fuel: "nat (e - k + 1) - nat (?r - (k - 1)) = nat (e - (k + 1) + 1) - nat (?r - (k + 1 - 1))"
      using k(1) by linarith
    have "settle_close (Suc (nat (e - k + 1)) + fuel) i (set_sender i (SCloseScan raw k e pc) w) =
        settle_close (Suc (nat (e - (k + 1) + 1)) + fuel) i (set_sender i (SCloseScan raw (k + 1) e pc) w)"
      using step i unfolding k(2) by simp
    then show ?thesis unfolding eq fuel using Suc(1) [of "k + 1"] Suc(2) k(2) by simp
  next
    case False
    have step: "sender_step i (set_sender i (SCloseScan raw k e pc) w) = Some (set_sender i (SCloseMark raw (seq_add (k - 1) 1) pc) w)"
      using i k(1) False by (simp add: sender_step_defs slot_state_of_def)
    have eq: "scan_last_loop (w_states w) (k - 1) [k..e] = k - 1"
      using k(1) False by (simp add: upto_step slot_state_of_def)
    have "settle_close (Suc (nat (e - k + 1)) + fuel) i (set_sender i (SCloseScan raw k e pc) w) =
        settle_close (nat (e - k + 1) + fuel) i (set_sender i (SCloseMark raw (seq_add (k - 1) 1) pc) w)"
      using settle_close_step [OF _ step, of "nat (e - k + 1) + fuel"] i by simp
    then show ?thesis unfolding eq by (simp add: add.commute)
  qed
qed

lemma settle_close_mark:
  assumes i: "i < length (w_senders w)" and pc: "\<not> closing pc"
  shows "settle_close (Suc (Suc fuel)) i (set_sender i (SCloseMark raw b pc) w) =
    set_sender i pc (w\<lparr>w_states := mark_shutdown (w_states w) b, w_claimed := raw OR SHUTDOWN_MASK\<rparr>)"
proof -
  let ?w = "w\<lparr>w_states := mark_shutdown (w_states w) b\<rparr>"
  have "sender_step i (set_sender i (SCloseMark raw b pc) w) = Some (set_sender i (SCloseStore raw pc) ?w)"
    using i by (simp add: sender_step_defs set_sender_def)
  moreover have "sender_step i (set_sender i (SCloseStore raw pc) ?w) =
      Some (set_sender i pc (?w\<lparr>w_claimed := raw OR SHUTDOWN_MASK\<rparr>))"
    using i by (simp add: sender_step_defs set_sender_def cursor_store_def)
  ultimately show ?thesis using i pc by (simp add: settle_close_done)
qed

text \<open>C24: The close of a channel ends after at most one access per slot, plus four, and leaves the
  slot states and the cursor that \<open>close\<close> leaves, whether the last sender closes it or a permit whose
  recycler panicked (then the context goes on as \<open>pc\<close>).\<close>

theorem close_by_accesses:
  assumes i: "i < length (w_senders w)" and c: "- 1 \<le> w_claimed w" "w_claimed w < 2 ^ 61"
    and m: "meta_ok (st_meta (w_states w))" and pc: "\<not> closing pc"
  shows "settle_close (nat (size_of w) + 4) i (set_sender i (SCloseLoad pc) w) =
    (let sh = close (fan_barrier id) (shared (publisher_of w))
     in set_sender i pc (w\<lparr>w_states := slot_states sh, w_claimed := claimed sh\<rparr>))"
proof -
  let ?t = "w_claimed w" and ?st = "w_states w" and ?n = "nat (size_of w)"
  have size: "1 \<le> size_of w" "size_of w \<le> 2 ^ 30" using m by (simp_all add: meta_ok_def)
  have ns: "\<not> has_shutdown ?t" using c(1) by (rule not_shutdown_ge)
  define b where "b = close_boundary (shared (publisher_of w))"
  have method_eq: "slot_states (close (fan_barrier id) (shared (publisher_of w))) = mark_shutdown ?st b"
    "claimed (close (fan_barrier id) (shared (publisher_of w))) = ?t OR SHUTDOWN_MASK"
    by (simp_all add: close_def notify_gate_def Let_def b_def cursor_load_def cursor_store_def publisher_of_def)
  define k where "k = max (?t - (size_of w - 1)) 0"
  have k: "max (wrap64 (?t - wrap64 (size_of w - 1))) 0 = k" using c size by (simp add: k_def)
  have "0 \<le> k" "k < 2 ^ 62" using c(2) size by (auto simp: k_def)
  then have k1: "wrap64 (k - 1) = k - 1" by simp
  have marked_end: "settle_close (fuel + 2) i (set_sender i (SCloseMark ?t b pc) w) =
      set_sender i pc (w\<lparr>w_states := mark_shutdown ?st b, w_claimed := ?t OR SHUTDOWN_MASK\<rparr>)" for fuel
    using settle_close_mark [OF i pc, of fuel] by (simp add: numeral_2_eq_2)
  have cl: "closing (w_senders (set_sender i (SCloseLoad pc) w) ! i)" using i by simp
  have "settle_close (?n + 4) i (set_sender i (SCloseLoad pc) w) =
      set_sender i pc (w\<lparr>w_states := mark_shutdown ?st b, w_claimed := ?t OR SHUTDOWN_MASK\<rparr>)"
  proof (cases "?t < 0")
    case True
    then have "?t = - 1" "b = seq_add ?t 1"
      using c(1) ns by (simp_all add: b_def close_boundary_def cursor_load_def publisher_of_def Let_def)
    then have "sender_step i (set_sender i (SCloseLoad pc) w) = Some (set_sender i (SCloseMark ?t b pc) w)"
      using i ns by (simp add: sender_step_defs cursor_load_def Let_def)
    from settle_close_step [OF cl this, of "?n + 1 + 2"] marked_end [of "?n + 1"]
    have "settle_close (Suc (?n + 1 + 2)) i (set_sender i (SCloseLoad pc) w) =
        set_sender i pc (w\<lparr>w_states := mark_shutdown ?st b, w_claimed := ?t OR SHUTDOWN_MASK\<rparr>)"
      by (simp only:)
    moreover have "?n + 4 = Suc (?n + 1 + 2)" by simp
    ultimately show ?thesis by (simp only:)
  next
    case False
    have b: "b = seq_add (scan_last_loop ?st (k - 1) [k..?t]) 1"
      unfolding b_def close_boundary_def cursor_load_def publisher_of_def Let_def scan_last_available_def
      using False ns by (simp add: k k1)
    have "sender_step i (set_sender i (SCloseLoad pc) w) = Some (set_sender i (SCloseScan ?t k ?t pc) w)"
      using i ns k False by (simp add: sender_step_defs cursor_load_def Let_def)
    from settle_close_step [OF cl this, of "?n + 3"]
    have "settle_close (?n + 4) i (set_sender i (SCloseLoad pc) w) =
        settle_close (?n + 3) i (set_sender i (SCloseScan ?t k ?t pc) w)"
      by (simp only: Suc_eq_plus1 add.assoc) simp
    also have "?n + 3 = Suc (nat (?t - k + 1)) + (?n - nat (?t - k + 1) + 2)"
      using size False by (simp add: k_def)
    finally show ?thesis
      unfolding settle_close_scan [OF i] b [symmetric] using marked_end by (simp add: add.commute add.left_commute)
  qed
  then show ?thesis by (simp only: method_eq Let_def)
qed

theorem close_by_accesses_witness:
  "w_claimed (settle_close 6 0 (set_sender 0 (SCloseLoad SGone) small_world)) = - 1 \<and>
   w_senders (settle_close 6 0 (set_sender 0 (SCloseLoad SGone) small_world)) = [SGone]"
proof -
  have i: "0 < length (w_senders small_world)" and c: "w_claimed small_world = - 1"
    and m: "meta_ok (st_meta (w_states small_world))" and n: "nat (size_of small_world) + 4 = 6"
    and s: "claimed (close (fan_barrier id) (shared (publisher_of small_world))) = - 1"
    and l: "w_senders (set_sender 0 SGone small_world) = [SGone]"
    by (code_simp, code_simp, simp add: small_world_def small_ring_def world_new_def new_all_empty_def meta_ok_def
        is_power_of_two.simps Let_def, code_simp, code_simp, code_simp)
  from close_by_accesses [OF i _ _ m, of SGone] show ?thesis unfolding n c using s l
    by (simp add: Let_def set_sender_def)
qed

end
