(* ===== verification/Schedules.thy ===== *)
theory Schedules
  imports ProtocolMethods
begin

text \<open>
  Concrete interleavings of the protocol on a ring of two slots with one receiver, evaluated: two
  senders that race for the same sequence number, a receiver that holds one slot while a sender
  fills the other, and a channel that is closed and drained. The properties of the protocol are
  applied to them.
\<close>

text \<open>Both contexts read \<open>claimed\<close> before either swaps it: context 1 loses.\<close>

definition racing :: "nat action list" where
  "racing = [CloneSenderCtx 0, BeginClaim 0 1, BeginClaim 1 1, SenderStep 0, SenderStep 1, SenderStep 0,
     SenderStep 1, SenderStep 0, SenderStep 1, SenderStep 0]"

text \<open>It tries again and gets the next sequence number.\<close>

definition retried :: "nat action list" where
  "retried = racing @ [SenderStep 1, SenderStep 1, SenderStep 1, SenderStep 1, SenderStep 1]"

definition reading :: "nat action list" where
  "reading = retried @ [Write 0 0 7, Commit 0, SenderStep 0, SenderStep 0, BeginRecv 0 1, ReceiverStep 0, ReceiverStep 0]"

definition drained :: "nat action list" where
  "drained = [BeginClaim 0 1, SenderStep 0, SenderStep 0, SenderStep 0, SenderStep 0, Write 0 0 7, Commit 0,
     SenderStep 0, SenderStep 0, DropSenderCtx 0, SenderStep 0, SenderStep 0, SenderStep 0, SenderStep 0,
     SenderStep 0, BeginRecv 0 2, ReceiverStep 0, ReceiverStep 0, Release 0, BeginRecv 0 2, ReceiverStep 0]"

definition outcome :: "nat action list \<Rightarrow> (sequence \<times> sender_pc list \<times> receiver_pc list \<times> cursor list \<times> nat list list \<times> sequence \<times> bool) option" where
  "outcome acts = map_option (\<lambda>(w, g). (w_claimed w, w_senders w, w_receivers w, w_cursors w, received g, top_seq g, terminated g))
     (execute acts (world_new small_ring 1, ghost_new 1))"

lemma outcomeE:
  assumes "outcome acts = Some (c, ss, rs, cs, xs, u, tm)"
  obtains w g where "reachable small_ring 1 w g" "w_claimed w = c" "w_senders w = ss" "w_receivers w = rs"
    "w_cursors w = cs" "received g = xs" "top_seq g = u" "terminated g = tm"
proof -
  obtain w g where e: "execute acts (world_new small_ring 1, ghost_new 1) = Some (w, g)"
    and o: "w_claimed w = c" "w_senders w = ss" "w_receivers w = rs" "w_cursors w = cs" "received g = xs"
      "top_seq g = u" "terminated g = tm"
    using assms by (auto simp: outcome_def)
  have "reachable small_ring 1 w g"
    using execute_reachable [of small_ring 1 "(world_new small_ring 1, ghost_new 1)" acts "(w, g)"] e
      reachable.fresh [of small_ring 1] by simp
  then show thesis using that o by blast
qed

lemma racing_outcome: "outcome racing = Some (0, [SOwn 0 0, SCas 1 (- 1) 0 0], [RIdle None], [- 1], [[]], 0, False)"
  by code_simp

lemma retried_outcome: "outcome retried = Some (1, [SOwn 0 0, SOwn 1 1], [RIdle None], [- 1], [[]], 1, False)"
  by code_simp

lemma reading_outcome: "outcome reading = Some (1, [SIdle None, SOwn 1 1], [RHold 0 0], [- 1], [[]], 1, False)"
  by code_simp

lemma drained_outcome:
  "outcome drained = Some (- (2 ^ 63), [SGone], [RIdle (Some ClaimShutdown)], [0], [[7]], 0, False)"
  by code_simp

lemma racing_top:
  "\<exists>w g. reachable small_ring 1 w g \<and> w_claimed w = 0 \<and> w_senders w = [SOwn 0 0, SCas 1 (- 1) 0 0] \<and>
     top_seq g < 2 ^ 60"
  by (rule outcomeE [OF racing_outcome]) force

lemma reading_top:
  "\<exists>w g. reachable small_ring 1 w g \<and> w_senders w = [SIdle None, SOwn 1 1] \<and> w_receivers w = [RHold 0 0] \<and>
     w_cursors w = [- 1] \<and> top_seq g < 2 ^ 60"
  by (rule outcomeE [OF reading_outcome]) force

lemma drained_top:
  "\<exists>w g. reachable small_ring 1 w g \<and> w_receivers w = [RIdle (Some ClaimShutdown)] \<and> received g = [[7]] \<and>
     top_seq g < 2 ^ 60 \<and> \<not> terminated g"
  by (rule outcomeE [OF drained_outcome]) force

end
