(* ===== verification/Terminations.thy ===== *)
theory Terminations
  imports Schedules
begin

text \<open>
  What a close does while other contexts go on claiming and publishing: the close of the last sender
  has the channel to itself, but the drop of a permit whose recycler panics does not. It ends within
  a bounded number of its own accesses, no claim succeeds after its store, and what a receiver is
  told afterwards is studied on two schedules.
\<close>

section \<open>A close under interference\<close>

text \<open>The accesses a close has left at most, and where its context goes on.\<close>

fun close_left :: "int \<Rightarrow> sender_pc \<Rightarrow> nat" where
  "close_left sz (SCloseLoad pc) = nat sz + 4"
| "close_left sz (SCloseScan raw k e pc) = nat (e - k + 1) + 3"
| "close_left sz (SCloseMark raw b pc) = 2"
| "close_left sz (SCloseStore raw pc) = 1"
| "close_left sz _ = 0"

fun close_end :: "sender_pc \<Rightarrow> sender_pc" where
  "close_end (SCloseLoad pc) = pc"
| "close_end (SCloseScan raw k e pc) = pc"
| "close_end (SCloseMark raw b pc) = pc"
| "close_end (SCloseStore raw pc) = pc"
| "close_end pc = pc"

lemma close_window:
  assumes "- 1 \<le> raw \<and> raw < 2 ^ 61 \<or> flagged raw" "1 \<le> sz" "sz \<le> 2 ^ 30"
    and "last_claimed = (if has_shutdown raw then raw AND VALUE_MASK else raw)"
  shows "last_claimed - max (wrap64 (last_claimed - wrap64 (sz - 1))) 0 + 1 \<le> sz"
proof -
  have "- 1 \<le> last_claimed \<and> last_claimed < 2 ^ 63"
    using assms(1,4) by (auto simp: and_VALUE_MASK flagged_def)
  then show ?thesis using assms(2,3) by (simp add: max_def)
qed

text \<open>The store of a close sets the flag, unless nothing was ever claimed.\<close>

lemma close_store_flags:
  assumes inv: "protocol_inv w g" and i: "i < length (w_senders w)" and pc: "w_senders w ! i = SCloseStore raw pc0"
    and top: "0 \<le> top_seq g"
  shows "has_shutdown (raw OR SHUTDOWN_MASK)"
proof -
  have "closable (top_seq g) raw"
    using sender_okD [OF inv i] pc top by (auto simp: closable_def split: if_splits)
  then show ?thesis using flagged_store protocol_invD(15) [OF inv] by (simp add: flagged_def)
qed

lemma close_progress:
  assumes inv: "protocol_inv w g" and i: "i < length (w_senders w)" and cl: "closing (w_senders w ! i)"
  obtains w' where "sender_step i w = Some w'"
    "closing (w_senders w' ! i) \<Longrightarrow> close_end (w_senders w' ! i) = close_end (w_senders w ! i) \<and>
      close_left (size_of w) (w_senders w' ! i) < close_left (size_of w) (w_senders w ! i)"
    "\<not> closing (w_senders w' ! i) \<Longrightarrow> w_senders w' ! i = close_end (w_senders w ! i) \<and>
      (0 \<le> top_seq g \<longrightarrow> has_shutdown (w_claimed w'))"
proof (cases "w_senders w ! i")
  case (SCloseLoad pc)
  note D = protocol_invD [OF inv]
  let ?raw = "w_claimed w"
  define l where "l = (if has_shutdown ?raw then ?raw AND VALUE_MASK else ?raw)"
  define k where "k = max (wrap64 (l - wrap64 (size_of w - 1))) 0"
  have "- 1 \<le> ?raw \<and> ?raw < 2 ^ 61 \<or> flagged ?raw"
    using claimed_live(1) [OF inv i] SCloseLoad D(14,15) by auto
  then have "l - k + 1 \<le> size_of w" using close_window [OF _ D(12,13) l_def] by (simp add: k_def)
  then have "nat (l - k + 1) + 3 < nat (size_of w) + 4" by linarith
  moreover have "sender_step i w = Some (set_sender i (if l < 0 then SCloseMark ?raw (seq_add l 1) pc
      else SCloseScan ?raw k l pc) w)"
    using SCloseLoad by (auto simp: sender_step_defs cursor_load_def Let_def l_def k_def)
  ultimately show thesis using that i SCloseLoad by (cases "l < 0") auto
next
  case (SCloseScan raw k e pc)
  let ?c = "k \<le> e \<and> states (w_states w) ! slot_index (w_states w) k AND MASK = available_flag (w_states w) k"
  have "sender_step i w = Some (set_sender i (if ?c then SCloseScan raw (k + 1) e pc
      else SCloseMark raw (seq_add (k - 1) 1) pc) w)"
    using SCloseScan by (auto simp: sender_step_defs slot_state_of_def)
  then show thesis using that i SCloseScan by (cases ?c) auto
next
  case (SCloseMark raw b pc)
  then show thesis using that i by (auto simp: sender_step_defs)
next
  case (SCloseStore raw pc)
  have "resumes pc" using sender_okD [OF inv i] SCloseStore by simp
  then have "\<not> closing pc" by (rule resumes_ok)
  then show thesis using that i SCloseStore close_store_flags [OF inv i SCloseStore]
    by (auto simp: sender_step_defs cursor_store_def)
qed (use cl in simp_all)

lemma step_meta: "step act w = Some w' \<Longrightarrow> st_meta (w_states w') = st_meta (w_states w)"
proof (cases act)
  case (SenderStep i)
  moreover assume "step act w = Some w'"
  ultimately show ?thesis
    by (cases "w_senders w ! i")
      (auto simp: sender_step_defs Let_def split: if_splits prod.splits sum.splits)
qed (auto simp: access_defs Let_def split: if_splits sender_pc.splits receiver_pc.splits prod.splits)

lemma others_keep_close:
  assumes "step act w = Some w'" "act \<noteq> SenderStep i" "i < length (w_senders w)" "closing (w_senders w ! i)"
  shows "w_senders w' ! i = w_senders w ! i \<and> i < length (w_senders w')"
proof (cases act)
  case (SenderStep j)
  then have "j \<noteq> i" "sender_step j w = Some w'" using assms(1,2) by (auto split: if_splits)
  then show ?thesis using assms(3)
    by (cases "w_senders w ! j") (auto simp: sender_step_defs Let_def split: if_splits prod.splits sum.splits)
qed (use assms in \<open>auto simp: access_defs Let_def nth_list_update nth_append idle_sender_def
      split: if_splits sender_pc.splits receiver_pc.splits prod.splits\<close>)

lemma execute_top: "execute acts (w, g) = Some (w', g') \<Longrightarrow> top_seq g \<le> top_seq g'"
proof (induction acts arbitrary: w g)
  case (Cons act acts)
  then obtain w1 where "execute acts (w1, observe act w g) = Some (w', g')" by (auto split: option.splits)
  then show ?case using Cons.IH observe_top [of g act w] by fastforce
qed simp

text \<open>In the course of \<open>acts\<close>, within \<open>N\<close> of its own accesses, context \<open>i\<close> gets to the end of its close.\<close>

definition closes_within :: "nat \<Rightarrow> nat \<Rightarrow> sender_pc \<Rightarrow> 'a action list \<Rightarrow> 'a world \<Rightarrow> 'a ghost \<Rightarrow> bool" where
  "closes_within i N pc acts w g \<longleftrightarrow>
     (\<exists>acts1 acts2 w1 g1. acts = acts1 @ acts2 \<and> execute acts1 (w, g) = Some (w1, g1) \<and>
       w_senders w1 ! i = pc \<and> (0 \<le> top_seq g \<longrightarrow> has_shutdown (w_claimed w1)) \<and>
       count_list acts1 (SenderStep i) \<le> N)"

lemma closes_within_step:
  assumes "step act w = Some w2" "closes_within i N pc acts w2 (observe act w g)"
    and "N + (if act = SenderStep i then 1 else 0) \<le> N'"
  shows "closes_within i N' pc (act # acts) w g"
proof -
  from assms(2) obtain acts1 acts2 w1 g1 where "acts = acts1 @ acts2" "execute acts1 (w2, observe act w g) = Some (w1, g1)"
    "w_senders w1 ! i = pc" "0 \<le> top_seq (observe act w g) \<longrightarrow> has_shutdown (w_claimed w1)"
    "count_list acts1 (SenderStep i) \<le> N"
    by (auto simp: closes_within_def)
  then show ?thesis using assms(1,3) observe_top [of g act w] unfolding closes_within_def
    by (intro exI [of _ "act # acts1"] exI [of _ acts2] exI [of _ w1] exI [of _ g1]) (auto split: if_splits)
qed

lemma closes_within_last:
  assumes "step act w = Some w2" "w_senders w2 ! i = pc" "0 \<le> top_seq g \<longrightarrow> has_shutdown (w_claimed w2)" "1 \<le> N"
  shows "closes_within i N pc (act # acts) w g"
  using assms unfolding closes_within_def
  by (intro exI [of _ "[act]"] exI [of _ acts] exI [of _ w2] exI [of _ "observe act w g"]) simp

lemma sender_step_length: "sender_step i w = Some w' \<Longrightarrow> length (w_senders w') = length (w_senders w)"
  by (cases "w_senders w ! i") (auto simp: sender_step_defs Let_def split: if_splits prod.splits sum.splits)

lemma close_run:
  assumes "protocol_inv w g" "i < length (w_senders w)" "closing (w_senders w ! i)"
    and "execute acts (w, g) = Some (w', g')" "top_seq g' < 2 ^ 60"
    and "close_left (size_of w) (w_senders w ! i) \<le> count_list acts (SenderStep i)"
  shows "closes_within i (close_left (size_of w) (w_senders w ! i)) (close_end (w_senders w ! i)) acts w g"
  using assms
proof (induction acts arbitrary: w g)
  case Nil
  then show ?case by (cases "w_senders w ! i") simp_all
next
  case (Cons act acts)
  let ?pc = "w_senders w ! i" and ?g = "observe act w g"
  obtain w2 where st: "step act w = Some w2" and ex: "execute acts (w2, ?g) = Some (w', g')"
    using Cons.prems(4) by (auto split: option.splits)
  have inv: "protocol_inv w2 ?g"
    using step_keeps [OF Cons.prems(1) st] execute_top [OF ex] Cons.prems(5) by simp
  note IH = Cons.IH [OF inv _ _ ex Cons.prems(5), unfolded step_meta [OF st]]
  show ?case
  proof (cases "act = SenderStep i")
    case False
    note keep = others_keep_close [OF st False Cons.prems(2,3)]
    have "close_left (size_of w) ?pc \<le> count_list acts (SenderStep i)" using Cons.prems(6) False by simp
    then show ?thesis using IH keep Cons.prems(3) False by (intro closes_within_step [OF st]) auto
  next
    case True
    then have s2: "sender_step i w = Some w2" using st Cons.prems(2) by simp
    obtain P: "closing (w_senders w2 ! i) \<Longrightarrow> close_end (w_senders w2 ! i) = close_end ?pc \<and>
        close_left (size_of w) (w_senders w2 ! i) < close_left (size_of w) ?pc"
      "\<not> closing (w_senders w2 ! i) \<Longrightarrow> w_senders w2 ! i = close_end ?pc \<and>
        (0 \<le> top_seq g \<longrightarrow> has_shutdown (w_claimed w2))"
      using close_progress [OF Cons.prems(1-3)] s2 by (metis option.inject)
    show ?thesis
    proof (cases "closing (w_senders w2 ! i)")
      case cl: True
      have "i < length (w_senders w2)" using sender_step_length [OF s2] Cons.prems(2) by simp
      moreover have "close_left (size_of w) (w_senders w2 ! i) \<le> count_list acts (SenderStep i)"
        using P(1) [OF cl] Cons.prems(6) True by simp
      ultimately show ?thesis using IH cl P(1) [OF cl] True by (intro closes_within_step [OF st]) auto
    next
      case False
      have "1 \<le> close_left (size_of w) ?pc" using Cons.prems(3) by (cases ?pc) simp_all
      then show ?thesis using closes_within_last [OF st] P(2) [OF False] by blast
    qed
  qed
qed

section \<open>No claim after a close\<close>

lemma flag_kept:
  assumes inv: "protocol_inv w g" and fl: "has_shutdown (w_claimed w)" and st: "step act w = Some w'"
  shows "has_shutdown (w_claimed w')" "top_seq (observe act w g) = top_seq g"
proof -
  have cas: "w_claimed w \<noteq> l" if "i < length (w_senders w)" "w_senders w ! i = SCas n l a b" for i n l a b
    using sender_okD [OF inv that(1)] that(2) fl by (auto simp: has_shutdown_def)
  show "top_seq (observe act w g) = top_seq g"
    using st cas by (cases act) (auto split: if_splits sender_pc.splits receiver_pc.splits)
  have top: "0 \<le> top_seq g"
    using inv fl protocol_invD(14) [OF inv] by (auto simp: protocol_inv_def closed_ok_def has_shutdown_def)
  show "has_shutdown (w_claimed w')"
  proof (cases "\<exists>i raw pc. act = SenderStep i \<and> w_senders w ! i = SCloseStore raw pc")
    case True
    then obtain i raw pc where a: "act = SenderStep i" "w_senders w ! i = SCloseStore raw pc" by blast
    then have "i < length (w_senders w)" using st by (simp split: if_splits)
    from close_store_flags [OF inv this a(2) top] show ?thesis
      using st a by (auto simp: sender_step_defs cursor_store_def split: if_splits)
  next
    case False
    have "w_claimed w' = w_claimed w"
    proof (cases act)
      case (SenderStep i)
      then have "i < length (w_senders w)" "sender_step i w = Some w'" using st by (simp_all split: if_splits)
      then show ?thesis using SenderStep False cas
        by (cases "w_senders w ! i")
          (auto simp: sender_step_defs compare_exchange_def Let_def split: if_splits prod.splits sum.splits)
    qed (use st in \<open>auto simp: access_defs Let_def
        split: if_splits sender_pc.splits receiver_pc.splits prod.splits\<close>)
    then show ?thesis using fl by simp
  qed
qed

section \<open>Schedules\<close>

text \<open>Context 1 owns sequence number 1 and its recycler panics, while context 0 still owns 0.\<close>

definition panicking :: "nat action list" where
  "panicking = retried @ [PanickedDrop 1]"

definition panicked :: "nat action list" where
  "panicked = panicking @ [SenderStep 1, SenderStep 1, SenderStep 1, SenderStep 1]"

lemma panicking_outcome:
  "outcome panicking = Some (1, [SOwn 0 0, SCloseLoad (SIdle None)], [RIdle None], [- 1], [[]], 1, True)"
  by code_simp

lemma panicked_outcome:
  "outcome panicked = Some (1 - 2 ^ 63, [SOwn 0 0, SIdle None], [RIdle None], [- 1], [[]], 1, True)"
  by code_simp

text \<open>
  A batch permit of context 0 panics; between the load and the store of its \<open>close\<close>, context 1 claims
  one more. Both ranges are committed, both contexts are dropped, and the receiver takes everything.
\<close>

definition raced :: "nat action list" where
  "raced = [CloneSenderCtx 0, BeginClaim 0 1, SenderStep 0, SenderStep 0, SenderStep 0, SenderStep 0,
     PanickedBatchPermit 0, SenderStep 0,
     BeginClaim 1 1, SenderStep 1, SenderStep 1, SenderStep 1, SenderStep 1,
     SenderStep 0, SenderStep 0, SenderStep 0,
     Write 0 0 7, Commit 0, SenderStep 0, SenderStep 0, Write 1 1 8, Commit 1, SenderStep 1, SenderStep 1,
     DropSenderCtx 0, DropSenderCtx 1, SenderStep 1, SenderStep 1, SenderStep 1, SenderStep 1, SenderStep 1,
     BeginRecv 0 2, ReceiverStep 0, ReceiverStep 0, ReceiverStep 0, Release 0]"

lemma raced_outcome:
  "outcome raced = Some (- (2 ^ 63), [SGone, SGone], [RIdle None], [1], [[7, 8]], 1, True)"
  by code_simp

text \<open>The close of \<open>panicking\<close>, with a commit of context 0 in its midst and two claims that are refused.\<close>

definition finishing :: "nat action list" where
  "finishing = [SenderStep 1, SenderStep 1, Write 0 0 7, Commit 0, SenderStep 0, SenderStep 1, SenderStep 1,
     BeginClaim 1 1, SenderStep 1, BeginClaim 1 1, SenderStep 1]"

lemma finishing_outcome:
  "outcome (panicking @ finishing) =
     Some (1 - 2 ^ 63, [SPublish 1 0, SIdle (Some ClaimShutdown)], [RIdle None], [- 1], [[]], 1, True)"
  by code_simp

lemma execute_append: "execute (as @ bs) wg = Option.bind (execute as wg) (execute bs)"
  by (induction as arbitrary: wg) (auto split: option.splits)

definition end_flags :: "nat action list \<Rightarrow> (bool \<times> bool \<times> int) option" where
  "end_flags acts = map_option (\<lambda>(w, g). (published (w_states w) 2, marked (w_states w) 2, size_of w))
     (execute acts (world_new small_ring 1, ghost_new 1))"

lemma panicking_flags: "end_flags panicking = Some (False, False, 2)"
  by code_simp

lemma raced_flags: "end_flags raced = Some (False, False, 2)"
  by code_simp

text \<open>Where the receiver can be afterwards: it finds nothing and no marker, again and again.\<close>

fun waiting :: "receiver_pc \<Rightarrow> bool" where
  "waiting (RIdle r) \<longleftrightarrow> r \<noteq> Some ClaimShutdown"
| "waiting (RScan c k stop sd) \<longleftrightarrow> c = 1 \<and> k = 2 \<and> 2 \<le> stop \<and> \<not> sd"
| "waiting (RHold a b) \<longleftrightarrow> False"
| "waiting RGone \<longleftrightarrow> True"

definition unheard :: "'a world \<Rightarrow> bool" where
  "unheard w \<longleftrightarrow> w_senders w = [SGone, SGone] \<and> \<not> published (w_states w) 2 \<and> \<not> marked (w_states w) 2 \<and>
     size_of w = 2 \<and> (\<exists>r c. w_receivers w = [r] \<and> w_cursors w = [c] \<and> waiting r \<and> (r = RGone \<or> c = 1))"

lemma unheard_step:
  assumes "unheard w" "step act w = Some w'"
  shows "unheard w'"
proof -
  note U = assms(1) [unfolded unheard_def]
  obtain r c where rc: "w_receivers w = [r]" "w_cursors w = [c]" "waiting r" "r = RGone \<or> c = 1" using U by blast
  have gone: "w_senders w ! i = SGone" if "i < length (w_senders w)" for i
    using U that by (auto simp: less_Suc_eq numeral_2_eq_2)
  have scan: "receiver_step 0 w = Some (set_receiver 0 (RIdle (Some ClaimEmpty)) w)"
    if "r = RScan 1 2 stop False" "2 \<le> stop" for stop
    using U rc that
    by (auto simp: receiver_step_def slot_state_of_def published_def marked_def recv_answer_def Let_def)
  have add: "seq_add 1 (min limit 2) = 1 + min limit 2" if "1 \<le> limit" for limit using that by simp
  show ?thesis
  proof (cases act)
    case (SenderStep i)
    then show ?thesis using assms(2) gone by (auto simp: sender_step_defs split: if_splits)
  next
    case (ReceiverStep j)
    then have "j = 0" "receiver_step 0 w = Some w'" using assms(2) rc by (auto split: if_splits)
    then show ?thesis using scan rc U by (cases r) (auto simp: unheard_def receiver_step_def)
  next
    case (BeginRecv j limit)
    then have b: "j = 0" "w' = begin_recv 0 limit w" "idle_receiver 0 w" "1 \<le> limit"
      using assms(2) rc by (auto split: if_splits)
    then have "c = 1" using rc by (auto simp: idle_receiver_def)
    then show ?thesis using b rc U add [OF b(4)] by (simp add: begin_recv_def cursor_load_def unheard_def)
  next
    case (Release j)
    then show ?thesis using assms(2) rc by (auto simp: release_step_def split: if_splits receiver_pc.splits)
  next
    case (DropReceiverCtx j)
    then show ?thesis using assms(2) rc U
      by (auto simp: drop_receiver_step_def unheard_def split: if_splits receiver_pc.splits)
  qed (use assms(2) gone in \<open>auto simp: access_defs idle_sender_def split: if_splits\<close>)
qed

lemma unheard_execute: "unheard w \<Longrightarrow> execute acts (w, g) = Some (w', g') \<Longrightarrow> unheard w'"
proof (induction acts arbitrary: w g)
  case (Cons act acts)
  then show ?case using unheard_step [of w act] by (fastforce split: option.splits)
qed simp

lemma unheard_receiver: "unheard w \<Longrightarrow> w_receivers w ! 0 \<noteq> RIdle (Some ClaimShutdown)"
  by (auto simp: unheard_def)

section \<open>Properties\<close>

text \<open>C15: Once \<open>claimed\<close> carries the shutdown flag, no claim succeeds any more and the flag is never
  cleared, whatever the contexts do that were in the middle of a claim, a commit or a close.\<close>

theorem termination_is_final:
  assumes "reachable rb n w g" "ring_ok rb" "top_seq g < 2 ^ 60"
    and "has_shutdown (w_claimed w)" "step act w = Some w'"
  shows "has_shutdown (w_claimed w') \<and> top_seq (observe act w g) = top_seq g"
  using flag_kept [OF reachable_inv [OF assms(1-3)] assms(4,5)] by blast

theorem termination_is_final_witness:
  "\<exists>w g w'. reachable small_ring 1 w g \<and> step (Commit 0) w = Some w' \<and> has_shutdown (w_claimed w')"
proof (rule outcomeE [OF panicked_outcome])
  fix w :: "nat world" and g
  assume r: "reachable small_ring 1 w g" and w: "w_claimed w = 1 - 2 ^ 63" "w_senders w = [SOwn 0 0, SIdle None]"
    and t: "top_seq g = 1"
  have "has_shutdown (w_claimed w)" "top_seq g < 2 ^ 60" using w t by (simp_all add: has_shutdown_def)
  moreover obtain w' where "step (Commit 0) w = Some w'" using w by (simp add: commit_step_def)
  ultimately show ?thesis using termination_is_final [OF r small_ring_ok, of "Commit 0" w'] r by blast
qed

text \<open>C17: A close ends whatever the other contexts do meanwhile: within at most one access per slot,
  plus four, of its own, it has set the shutdown flag, if anything was ever claimed, and its context
  goes on after it.\<close>

theorem close_ends_under_interference:
  assumes "reachable rb n w g" "ring_ok rb" "execute acts (w, g) = Some (w', g')" "top_seq g' < 2 ^ 60"
    and "i < length (w_senders w)" "w_senders w ! i = SCloseLoad pc"
    and "nat (size_of w) + 4 \<le> count_list acts (SenderStep i)"
  shows "\<exists>acts1 acts2 w1 g1. acts = acts1 @ acts2 \<and> execute acts1 (w, g) = Some (w1, g1) \<and>
    w_senders w1 ! i = pc \<and> (0 \<le> top_seq g \<longrightarrow> has_shutdown (w_claimed w1)) \<and>
    count_list acts1 (SenderStep i) \<le> nat (size_of w) + 4"
proof -
  have "top_seq g < 2 ^ 60" using execute_top [OF assms(3)] assms(4) by simp
  then show ?thesis
    using close_run [OF reachable_inv [OF assms(1,2)] assms(5) _ assms(3,4)] assms(6,7) by (simp add: closes_within_def)
qed

theorem close_ends_under_interference_witness:
  "\<exists>w g acts1 w1 g1. reachable small_ring 1 w g \<and> w_senders w ! 1 = SCloseLoad (SIdle None) \<and>
     execute acts1 (w, g) = Some (w1, g1) \<and> w_senders w1 ! 1 = SIdle None \<and> has_shutdown (w_claimed w1)"
proof -
  let ?start = "(world_new small_ring 1, ghost_new 1)"
  obtain w g where e: "execute panicking ?start = Some (w, g)" and t: "top_seq g = 1"
    and w: "w_senders w = [SOwn 0 0, SCloseLoad (SIdle None)]"
    using panicking_outcome by (auto simp: outcome_def)
  have run: "reachable small_ring 1 w g"
    using execute_reachable [of small_ring 1 ?start panicking "(w, g)"] e reachable.fresh [of small_ring 1] by simp
  obtain w' g' where f: "execute finishing (w, g) = Some (w', g')" and t': "top_seq g' = 1"
    using finishing_outcome e by (auto simp: outcome_def execute_append)
  have size: "size_of w = 2" using panicking_flags e by (simp add: end_flags_def)
  have n: "count_list finishing (SenderStep 1) = 6" by code_simp
  have "top_seq g' < 2 ^ 60" "1 < length (w_senders w)" "w_senders w ! 1 = SCloseLoad (SIdle None)"
    "nat (size_of w) + 4 \<le> count_list finishing (SenderStep 1)"
    using t' w size n by simp_all
  from close_ends_under_interference [OF run small_ring_ok f this] obtain acts1 w1 g1 where
    "execute acts1 (w, g) = Some (w1, g1)" "w_senders w1 ! 1 = SIdle None" "has_shutdown (w_claimed w1)"
    using t by auto
  moreover have "w_senders w ! 1 = SCloseLoad (SIdle None)" using w by simp
  ultimately show ?thesis using run by blast
qed

text \<open>C37: A termination that races with a claim can keep the receivers waiting for ever: \<open>close\<close> stores the
  position it loaded before the claim, the last close looks for the end of the items from there and
  marks a slot in front of it. All senders are gone, the receiver has taken everything, and no receive
  is ever told \<open>Disconnected\<close>.\<close>

theorem raced_termination_is_never_reported:
  "\<exists>w g. reachable small_ring 1 w g \<and> w_senders w = [SGone, SGone] \<and> received g = [[7, 8]] \<and> top_seq g = 1 \<and>
     (\<forall>acts. case execute acts (w, g) of
        None \<Rightarrow> True
      | Some (w', g') \<Rightarrow> w_receivers w' ! 0 \<noteq> RIdle (Some ClaimShutdown))"
proof -
  let ?start = "(world_new small_ring 1, ghost_new 1)"
  obtain w g where e: "execute raced ?start = Some (w, g)"
    and w: "w_senders w = [SGone, SGone]" "w_receivers w = [RIdle None]" "w_cursors w = [1]"
    and g: "received g = [[7, 8]]" "top_seq g = 1"
    using raced_outcome by (auto simp: outcome_def)
  have run: "reachable small_ring 1 w g"
    using execute_reachable [of small_ring 1 ?start raced "(w, g)"] e reachable.fresh [of small_ring 1] by simp
  have u: "unheard w" using raced_flags e w by (simp add: end_flags_def unheard_def)
  have "case execute acts (w, g) of None \<Rightarrow> True | Some (w', g') \<Rightarrow> w_receivers w' ! 0 \<noteq> RIdle (Some ClaimShutdown)"
    for acts
  proof (cases "execute acts (w, g)")
    case (Some p)
    then show ?thesis using unheard_receiver [OF unheard_execute [OF u, of acts g "fst p" "snd p"]]
      by (cases p) simp
  qed simp
  then show ?thesis using run w g by blast
qed

end
