(* ===== verification/SharedQueues.thy ===== *)
theory SharedQueues
  imports Prelude "HOL-Library.Sublist"
begin

text \<open>
  The specification of a channel under concurrency: one queue whose events are atomic. Places are
  reserved at its end, filled in any order, and every receiver takes filled places in their order.
  \<open>event_simulation\<close> is the interface of a program to such a specification: an invariant, an
  abstraction function and an event for some of its steps.
\<close>

section \<open>The queue\<close>

text \<open>A place is \<open>None\<close> while it is reserved; \<open>q_taken\<close> counts what each receiver took, \<open>None\<close> once it
  left. \<open>q_poisoned\<close>: a reservation was given up; \<open>q_ended\<close>: the receivers may be told that nothing
  follows; \<open>q_refusing\<close>: no more reservations.\<close>

record 'a shared_queue =
  q_capacity :: int
  q_items :: "'a option list"
  q_taken :: "nat option list"
  q_poisoned :: bool
  q_ended :: bool
  q_refusing :: bool

definition queue_new :: "int \<Rightarrow> nat \<Rightarrow> 'a shared_queue" where
  "queue_new cap receivers =
     \<lparr>q_capacity = cap, q_items = [], q_taken = replicate receivers (Some 0), q_poisoned = False,
      q_ended = False, q_refusing = False\<rparr>"

text \<open>What happens to the queue, and what the ends are told of it.\<close>

datatype 'a queue_event =
    Reserves nat nat
  | Publishes nat 'a
  | Poisons
  | Ends
  | Refuses
  | IsRefused
  | Takes nat "'a list"
  | FindsNothing nat
  | IsToldEnd nat
  | Leaves nat

text \<open>The next place of a receiver is not filled.\<close>

definition nothing_for :: "nat \<Rightarrow> 'a shared_queue \<Rightarrow> bool" where
  "nothing_for j q \<longleftrightarrow>
     (case q_taken q ! j of
        None \<Rightarrow> False
      | Some p \<Rightarrow> p = length (q_items q) \<or> p < length (q_items q) \<and> q_items q ! p = None)"

fun queue_step :: "'a queue_event \<Rightarrow> 'a shared_queue \<Rightarrow> 'a shared_queue option" where
  "queue_step (Reserves first n) q =
     (if first = length (q_items q) \<and> 1 \<le> n \<and> \<not> q_refusing q \<and> \<not> q_ended q \<and>
         (\<forall>p \<in> set (List.map_filter id (q_taken q)). int (length (q_items q) + n) \<le> int p + q_capacity q)
      then Some (q\<lparr>q_items := q_items q @ replicate n None\<rparr>) else None)"
| "queue_step (Publishes k v) q =
     (if k < length (q_items q) \<and> q_items q ! k = None then Some (q\<lparr>q_items := (q_items q)[k := Some v]\<rparr>) else None)"
| "queue_step Poisons q = (if q_ended q then None else Some (q\<lparr>q_poisoned := True\<rparr>))"
| "queue_step Ends q =
     (if q_poisoned q then Some q
      else if None \<in> set (q_items q) then None
      else Some (q\<lparr>q_ended := True\<rparr>))"
| "queue_step Refuses q = Some (q\<lparr>q_refusing := True\<rparr>)"
| "queue_step IsRefused q = (if q_refusing q \<or> (\<forall>p \<in> set (q_taken q). p = None) then Some q else None)"
| "queue_step (Takes j vs) q =
     (if j < length (q_taken q) \<and> vs \<noteq> []
      then case q_taken q ! j of
          None \<Rightarrow> None
        | Some p \<Rightarrow>
            if take (length vs) (drop p (q_items q)) = map Some vs
            then Some (q\<lparr>q_taken := (q_taken q)[j := Some (p + length vs)]\<rparr>) else None
      else None)"
| "queue_step (FindsNothing j) q = (if j < length (q_taken q) \<and> nothing_for j q then Some q else None)"
| "queue_step (IsToldEnd j) q =
     (if j < length (q_taken q) \<and> nothing_for j q \<and> (q_poisoned q \<or> q_ended q) then Some q else None)"
| "queue_step (Leaves j) q =
     (if j < length (q_taken q) \<and> q_taken q ! j \<noteq> None then Some (q\<lparr>q_taken := (q_taken q)[j := None]\<rparr>) else None)"

section \<open>Runs\<close>

fun run_steps :: "('e \<Rightarrow> 's \<Rightarrow> 's option) \<Rightarrow> 'e list \<Rightarrow> 's \<Rightarrow> 's option" where
  "run_steps f [] s = Some s"
| "run_steps f (e # es) s = Option.bind (f e s) (run_steps f es)"

lemma run_steps_append: "run_steps f (es @ es') s = Option.bind (run_steps f es s) (run_steps f es')"
  by (induction es arbitrary: s) (simp_all add: bind_eq_None_conv split: bind_split)

text \<open>The events of a run.\<close>

fun trace_of :: "('act \<Rightarrow> 's \<Rightarrow> 's option) \<Rightarrow> ('act \<Rightarrow> 's \<Rightarrow> 'e option) \<Rightarrow> 'act list \<Rightarrow> 's \<Rightarrow> 'e list" where
  "trace_of f event [] s = []"
| "trace_of f event (act # acts) s =
     (case f act s of
        None \<Rightarrow> []
      | Some s' \<Rightarrow> (case event act s of None \<Rightarrow> [] | Some e \<Rightarrow> [e]) @ trace_of f event acts s')"

text \<open>A program that implements a specification step by step: \<open>good\<close> is its invariant as long as it is
  \<open>small\<close>, and a step is either an event of the specification on the abstracted states or no change.\<close>

locale event_simulation =
  fixes prog_step :: "'act \<Rightarrow> 's \<Rightarrow> 's option" and event :: "'act \<Rightarrow> 's \<Rightarrow> 'e option"
    and spec_step :: "'e \<Rightarrow> 'q \<Rightarrow> 'q option" and abs :: "'s \<Rightarrow> 'q"
    and good :: "'s \<Rightarrow> bool" and small :: "'s \<Rightarrow> bool"
  assumes was_small: "prog_step act s = Some s' \<Longrightarrow> small s' \<Longrightarrow> small s"
    and good_kept: "good s \<Longrightarrow> prog_step act s = Some s' \<Longrightarrow> small s' \<Longrightarrow> good s'"
    and simulates: "good s \<Longrightarrow> prog_step act s = Some s' \<Longrightarrow> small s' \<Longrightarrow>
      (case event act s of None \<Rightarrow> abs s' = abs s | Some e \<Rightarrow> spec_step e (abs s) = Some (abs s'))"
begin

lemma run_was_small: "run_steps prog_step acts s = Some s' \<Longrightarrow> small s' \<Longrightarrow> small s"
  by (induction acts arbitrary: s) (auto simp: bind_eq_Some_conv dest: was_small)

lemma run_good: "run_steps prog_step acts s = Some s' \<Longrightarrow> small s' \<Longrightarrow> good s \<Longrightarrow> good s'"
  by (induction acts arbitrary: s) (auto simp: bind_eq_Some_conv dest: good_kept run_was_small)

lemma traces_included:
  "run_steps prog_step acts s = Some s' \<Longrightarrow> small s' \<Longrightarrow> good s \<Longrightarrow>
     run_steps spec_step (trace_of prog_step event acts s) (abs s) = Some (abs s')"
proof (induction acts arbitrary: s)
  case (Cons act acts)
  from Cons.prems(1) obtain s1 where s1: "prog_step act s = Some s1" "run_steps prog_step acts s1 = Some s'"
    by (auto simp: bind_eq_Some_conv)
  have "small s1" using run_was_small [OF s1(2) Cons.prems(2)] .
  then show ?case using Cons.IH [OF s1(2) Cons.prems(2)] good_kept [OF Cons.prems(3) s1(1)]
      simulates [OF Cons.prems(3) s1(1)] s1(1)
    by (cases "event act s") simp_all
qed simp

end

section \<open>What a receiver gets\<close>

fun takes_of :: "nat \<Rightarrow> 'a queue_event list \<Rightarrow> 'a list" where
  "takes_of j [] = []"
| "takes_of j (Takes i vs # es) = (if i = j then vs else []) @ takes_of j es"
| "takes_of j (e # es) = takes_of j es"

lemma takes_of_append [simp]: "takes_of j (es @ es') = takes_of j es @ takes_of j es'"
  by (induction j es rule: takes_of.induct) simp_all

abbreviation queue_run :: "'a queue_event list \<Rightarrow> 'a shared_queue \<Rightarrow> 'a shared_queue option" where
  "queue_run \<equiv> run_steps queue_step"

text \<open>After \<open>es\<close>, receiver \<open>j\<close> has taken a filled beginning of the places, as long as its position says.\<close>

definition delivered_so_far :: "nat \<Rightarrow> 'a list \<Rightarrow> 'a shared_queue \<Rightarrow> bool" where
  "delivered_so_far j vs q \<longleftrightarrow> j < length (q_taken q) \<and> prefix (map Some vs) (q_items q) \<and>
     (\<forall>p. q_taken q ! j = Some p \<longrightarrow> p = length vs)"

lemma prefix_map_Some_update: "prefix (map Some vs) xs \<Longrightarrow> xs ! k = None \<Longrightarrow> k < length xs \<Longrightarrow> prefix (map Some vs) (xs[k := y])"
proof -
  assume a: "prefix (map Some vs) xs" "xs ! k = None" "k < length xs"
  then obtain ys where ys: "xs = map Some vs @ ys" by (auto elim: prefixE)
  then have "length vs \<le> k" using a(2,3) by (metis length_map linorder_not_less nth_append nth_map option.distinct(1))
  then show ?thesis using ys by (simp add: list_update_append)
qed

lemma delivered_step:
  assumes "delivered_so_far j vs q" "queue_step e q = Some q'"
  shows "delivered_so_far j (vs @ takes_of j [e]) q'"
proof (cases e)
  case (Takes i us)
  with assms(2) obtain p where p: "i < length (q_taken q)" "q_taken q ! i = Some p"
    "take (length us) (drop p (q_items q)) = map Some us" "q' = q\<lparr>q_taken := (q_taken q)[i := Some (p + length us)]\<rparr>"
    by (auto split: if_splits option.splits)
  have "prefix (map Some (vs @ us)) (q_items q)" if "i = j"
  proof -
    have "p = length vs" "prefix (map Some vs) (q_items q)" using assms(1) p(2) that by (auto simp: delivered_so_far_def)
    then obtain ys where "q_items q = map Some vs @ ys" "take (length us) ys = map Some us"
      using p(3) by (auto elim!: prefixE)
    then show ?thesis by (metis map_append prefix_def append_take_drop_id append.assoc)
  qed
  then show ?thesis using assms(1) Takes p by (auto simp: delivered_so_far_def nth_list_update)
qed (use assms in \<open>auto simp: delivered_so_far_def nth_list_update prefix_map_Some_update split: if_splits\<close>)

lemma delivered_run:
  "delivered_so_far j vs q \<Longrightarrow> queue_run es q = Some q' \<Longrightarrow> delivered_so_far j (vs @ takes_of j es) q'"
proof (induction es arbitrary: vs q)
  case (Cons e es)
  then obtain q1 where q1: "queue_step e q = Some q1" "queue_run es q1 = Some q'" by (auto simp: bind_eq_Some_conv)
  have "takes_of j (e # es) = takes_of j [e] @ takes_of j es" using takes_of_append [of j "[e]" es] by simp
  then show ?case using Cons.IH [OF delivered_step [OF Cons.prems(1) q1(1)] q1(2)] by simp
qed simp

text \<open>The end is told when everything was taken, unless the queue was poisoned.\<close>

lemma ended_filled_step:
  "queue_step e q = Some q' \<Longrightarrow> q_ended q \<longrightarrow> None \<notin> set (q_items q) \<Longrightarrow> q_ended q' \<longrightarrow> None \<notin> set (q_items q')"
  by (cases e) (auto split: if_splits option.splits dest: set_update_subset_insert [THEN subsetD])

lemma ended_final:
  "queue_step e q = Some q' \<Longrightarrow> q_ended q \<Longrightarrow> None \<notin> set (q_items q) \<Longrightarrow> q_ended q' \<and> q_items q' = q_items q"
  by (cases e) (auto split: if_splits option.splits dest: nth_mem)

lemma run_ended_filled:
  "queue_run es q = Some q' \<Longrightarrow> q_ended q \<longrightarrow> None \<notin> set (q_items q) \<Longrightarrow> q_ended q' \<longrightarrow> None \<notin> set (q_items q')"
proof (induction es arbitrary: q)
  case (Cons e es)
  then show ?case using ended_filled_step [of e q] by (auto simp: bind_eq_Some_conv)
qed simp

lemma run_ended_final:
  "queue_run es q = Some q' \<Longrightarrow> q_ended q \<Longrightarrow> None \<notin> set (q_items q) \<Longrightarrow> q_items q' = q_items q"
proof (induction es arbitrary: q)
  case (Cons e es)
  then obtain q1 where "queue_step e q = Some q1" "queue_run es q1 = Some q'" by (auto simp: bind_eq_Some_conv)
  then show ?case using Cons.IH [of q1] ended_final [of e q q1] Cons.prems(2,3) by simp
qed simp

lemma run_unpoisoned: "queue_run es q = Some q' \<Longrightarrow> Poisons \<notin> set es \<Longrightarrow> q_poisoned q' = q_poisoned q"
proof (induction es arbitrary: q)
  case (Cons e es)
  then obtain q1 where q1: "queue_step e q = Some q1" "queue_run es q1 = Some q'" by (auto simp: bind_eq_Some_conv)
  then have "q_poisoned q1 = q_poisoned q" using Cons.prems(2) by (cases e) (auto split: if_splits option.splits)
  then show ?case using Cons.IH [OF q1(2)] Cons.prems(2) by simp
qed simp

lemma told_end_complete:
  assumes run: "queue_run (es @ IsToldEnd j # es') (queue_new cap n) = Some q" and ok: "Poisons \<notin> set es" and j: "j < n"
  shows "map Some (takes_of j es) = q_items q \<and> takes_of j es' = []"
proof -
  obtain q1 where q1: "queue_run es (queue_new cap n) = Some q1" "queue_step (IsToldEnd j) q1 = Some q1"
    "queue_run es' q1 = Some q"
    using run by (auto simp: run_steps_append bind_eq_Some_conv split: if_splits)
  have start: "delivered_so_far j [] (queue_new cap n)" using j by (simp add: delivered_so_far_def queue_new_def)
  have D: "delivered_so_far j (takes_of j es) q1" using delivered_run [OF start q1(1)] by simp
  have D': "delivered_so_far j (takes_of j es @ takes_of j es') q" using delivered_run [OF D q1(3)] .
  have "\<not> q_poisoned q1" using run_unpoisoned [OF q1(1) ok] by (simp add: queue_new_def)
  then have e: "q_ended q1" "nothing_for j q1" using q1(2) by (auto split: if_splits)
  have f: "None \<notin> set (q_items q1)" using run_ended_filled [OF q1(1)] e(1) by (simp add: queue_new_def)
  have "length (takes_of j es) = length (q_items q1)"
    using D e(2) f by (auto simp: nothing_for_def delivered_so_far_def split: option.splits) (metis nth_mem)
  then have all: "map Some (takes_of j es) = q_items q1" using D by (auto simp: delivered_so_far_def elim!: prefixE)
  moreover have same: "q_items q = q_items q1" using run_ended_final [OF q1(3) e(1) f] .
  ultimately have "takes_of j es' = []" using D' by (auto simp: delivered_so_far_def elim!: prefixE)
  then show ?thesis using all same by simp
qed

end
