(* ===== verification/SharedRefinement.thy ===== *)
theory SharedRefinement
  imports SharedQueues Terminations
begin

text \<open>
  Every access of the interleaved program (\<open>Protocol\<close>) is an event of the specification of
  \<open>SharedQueues\<close>, or invisible: the compare-and-swap of a claim reserves, the store of a slot state
  publishes, the store of a receiver's cursor takes, and the load of the state that a receiver finds
  missing is where it is told so. The traces of the program are traces of the specification.
\<close>

section \<open>Events and abstraction\<close>

text \<open>The event of a step, read off the memory and the local variables.\<close>

fun event_of :: "'a action \<Rightarrow> 'a world \<Rightarrow> 'a queue_event option" where
  "event_of (SenderStep i) w =
     (case w_senders w ! i of
        SClaim n l \<Rightarrow> if has_shutdown l then Some IsRefused else None
      | SGate n l k m \<Rightarrow>
          if k \<ge> length (w_cursors w) \<and> claim_target (st_meta (w_states w)) n l (gate_answer m) = Inl ClaimShutdown
          then Some IsRefused else None
      | SCas n l a b \<Rightarrow> if w_claimed w = l then Some (Reserves (nat a) (nat (b - a + 1))) else None
      | SPublish k b \<Rightarrow> if k \<le> b then Some (Publishes (nat k) (get_ref_at (w_ring w) k)) else None
      | SCloseMark raw b pc \<Rightarrow> if pc = SGone then Some Ends else None
      | SCloseStore raw pc \<Rightarrow> Some Refuses
      | _ \<Rightarrow> None)"
| "event_of (PanickedDrop i) w = Some Poisons"
| "event_of (PanickedBatchPermit i) w = Some Poisons"
| "event_of (ReceiverStep j) w =
     (case map_option (\<lambda>w'. w_receivers w' ! j) (receiver_step j w) of
        Some (RIdle (Some ClaimEmpty)) \<Rightarrow> Some (FindsNothing j)
      | Some (RIdle (Some ClaimShutdown)) \<Rightarrow> Some (IsToldEnd j)
      | _ \<Rightarrow> None)"
| "event_of (Release j) w =
     (case w_receivers w ! j of
        RHold a b \<Rightarrow> Some (Takes j (map (get_ref_at (w_ring w)) [a..b]))
      | _ \<Rightarrow> None)"
| "event_of (DropReceiverCtx j) w = Some (Leaves j)"
| "event_of _ w = None"

text \<open>The program with its auxiliary values, step by step.\<close>

definition observed_step :: "'a action \<Rightarrow> 'a world \<times> 'a ghost \<Rightarrow> ('a world \<times> 'a ghost) option" where
  "observed_step act wg = map_option (\<lambda>w'. (w', observe act (fst wg) (snd wg))) (step act (fst wg))"

lemma execute_run_steps: "execute acts wg = run_steps observed_step acts wg"
  by (induction acts arbitrary: wg) (simp_all add: observed_step_def split: option.splits)

definition trace :: "'a action list \<Rightarrow> 'a world \<Rightarrow> 'a queue_event list" where
  "trace = trace_of step event_of"

lemma observed_trace: "trace_of observed_step (\<lambda>act wg. event_of act (fst wg)) acts wg = trace acts (fst wg)"
  by (induction acts arbitrary: wg) (auto simp: trace_def observed_step_def split: option.splits)

definition items_of :: "'a ghost \<Rightarrow> 'a option list" where
  "items_of g = map (\<lambda>s. if s \<in> pending g then None else Some (history g s)) [0..top_seq g]"

definition taken_of :: "'a world \<Rightarrow> nat option list" where
  "taken_of w = map (\<lambda>c. if c = SHUTDOWN_OPEN then None else Some (nat (c + 1))) (w_cursors w)"

definition all_gone :: "'a world \<Rightarrow> bool" where
  "all_gone w \<longleftrightarrow> (\<forall>pc \<in> set (w_senders w). pc = SGone)"

definition shared_of :: "'a world \<times> 'a ghost \<Rightarrow> 'a shared_queue" where
  "shared_of wg = (case wg of (w, g) \<Rightarrow>
     \<lparr>q_capacity = size_of w, q_items = items_of g, q_taken = taken_of w, q_poisoned = terminated g,
      q_ended = (over w \<and> \<not> terminated g), q_refusing = (has_shutdown (w_claimed w) \<or> all_gone w)\<rparr>)"

text \<open>The invariant: what a claim has loaded with the flag set is still flagged.\<close>

definition loads_ok :: "'a world \<Rightarrow> bool" where
  "loads_ok w \<longleftrightarrow> (\<forall>i < length (w_senders w). \<forall>n l. w_senders w ! i = SClaim n l \<longrightarrow> has_shutdown l \<longrightarrow> has_shutdown (w_claimed w))"

definition linear_ok :: "'a world \<times> 'a ghost \<Rightarrow> bool" where
  "linear_ok wg \<longleftrightarrow> protocol_inv (fst wg) (snd wg) \<and> loads_ok (fst wg)"

lemma claim_loaded_now:
  assumes inv: "protocol_inv w g" and st: "step act w = Some w'"
    and i: "i < length (w_senders w')" "w_senders w' ! i = SClaim n l"
  shows "(i < length (w_senders w) \<and> (\<exists>n. w_senders w ! i = SClaim n l)) \<or> l = w_claimed w"
proof (cases act)
  case (SenderStep k)
  then have k: "k < length (w_senders w)" "sender_step k w = Some w'" using st by (simp_all split: if_splits)
  show ?thesis
  proof (cases "w_senders w ! k")
    case (SGate m l' x y)
    then show ?thesis using k i by (auto simp: sender_step_defs nth_list_update split: if_splits prod.splits sum.splits)
  next
    case (SCloseStore raw pc)
    then have "w_senders w' ! k = pc" "\<forall>m. m \<noteq> k \<longrightarrow> w_senders w' ! m = w_senders w ! m"
      "length (w_senders w') = length (w_senders w)" "resumes pc"
      using k sender_okD [OF inv k(1)] by (auto simp: sender_step_defs)
    then show ?thesis using i by (cases "i = k") auto
  qed (use k i in \<open>auto simp: sender_step_defs compare_exchange_def Let_def nth_list_update split: if_splits prod.splits\<close>)
qed (use st i in \<open>auto simp: access_defs Let_def nth_list_update nth_append cursor_load_def
    split: if_splits sender_pc.splits receiver_pc.splits prod.splits\<close>)


lemma loads_ok_step:
  assumes inv: "protocol_inv w g" and ok: "loads_ok w" and st: "step act w = Some w'"
  shows "loads_ok w'"
  unfolding loads_ok_def
proof (intro allI impI)
  fix i n l assume i: "i < length (w_senders w')" "w_senders w' ! i = SClaim n l" and l: "has_shutdown l"
  have "has_shutdown (w_claimed w)" using claim_loaded_now [OF inv st i] ok l by (auto simp: loads_ok_def)
  then show "has_shutdown (w_claimed w')" using flag_kept(1) [OF inv _ st] by blast
qed

section \<open>Invisible steps\<close>

lemma shared_of_eq:
  assumes "size_of w' = size_of w" "items_of g' = items_of g" "w_cursors w' = w_cursors w" "terminated g' = terminated g"
    and "terminated g \<or> over w' = over w"
    and "has_shutdown (w_claimed w') \<or> all_gone w' \<longleftrightarrow> has_shutdown (w_claimed w) \<or> all_gone w"
  shows "shared_of (w', g') = shared_of (w, g)"
  using assms by (auto simp: shared_of_def taken_of_def)

lemma one_moved:
  assumes "i < length (w_senders w)" "w_senders w' = (w_senders w)[i := pc]"
  shows "past_mark pc = past_mark (w_senders w ! i) \<Longrightarrow> over w' = over w"
    "(pc = SGone) = (w_senders w ! i = SGone) \<Longrightarrow> all_gone w' = all_gone w"
proof -
  have all: "(\<forall>x \<in> set (w_senders w'). P x) = (\<forall>x \<in> set (w_senders w). P x)" if "P pc = P (w_senders w ! i)" for P
  proof -
    have "(\<forall>k < length (w_senders w). P ((w_senders w)[i := pc] ! k)) = (\<forall>k < length (w_senders w). P (w_senders w ! k))"
      using that by (metis nth_list_update_eq nth_list_update_neq)
    then show ?thesis by (simp add: assms(2) all_set_conv_all_nth)
  qed
  show "past_mark pc = past_mark (w_senders w ! i) \<Longrightarrow> over w' = over w" using all [of past_mark] by (simp add: over_def)
  show "(pc = SGone) = (w_senders w ! i = SGone) \<Longrightarrow> all_gone w' = all_gone w"
    using all [of "\<lambda>pc. pc = SGone"] by (simp add: all_gone_def)
qed

lemma not_gone: "i < length (w_senders w) \<Longrightarrow> w_senders w ! i \<noteq> SGone \<Longrightarrow> \<not> all_gone w"
  unfolding all_gone_def using nth_mem by blast

lemma sender_moves:
  assumes "i < length (w_senders w)" "past_mark pc = past_mark (w_senders w ! i)"
    "(pc = SGone) = (w_senders w ! i = SGone)"
  shows "shared_of (set_sender i pc w, g) = shared_of (w, g)"
proof (rule shared_of_eq)
  note M = one_moved [OF assms(1), of "set_sender i pc w" pc]
  show "terminated g \<or> over (set_sender i pc w) = over w" using M(1) assms(2) by simp
  show "has_shutdown (w_claimed (set_sender i pc w)) \<or> all_gone (set_sender i pc w) \<longleftrightarrow>
      has_shutdown (w_claimed w) \<or> all_gone w" using M(2) assms(3) by simp
qed simp_all

lemma receiver_moves: "shared_of (set_receiver j r w, g) = shared_of (w, g)"
  by (rule shared_of_eq) (simp_all add: over_def all_gone_def)

section \<open>The steps of a sender\<close>

lemma nth_upto0: "0 \<le> s \<Longrightarrow> s \<le> t \<Longrightarrow> nat s < length [0..t] \<and> [0..t] ! nat s = (s :: int)"
  by (simp add: nth_upto)

lemma length_items: "- 1 \<le> top_seq g \<Longrightarrow> int (length (items_of g)) = top_seq g + 1"
  by (simp add: items_of_def)

lemma nth_items:
  "0 \<le> s \<Longrightarrow> s \<le> top_seq g \<Longrightarrow> nat s < length (items_of g) \<and>
     items_of g ! nat s = (if s \<in> pending g then None else Some (history g s))"
  using nth_upto0 [of s "top_seq g"] by (simp add: items_of_def)

text \<open>Claims.\<close>

lemma live_positions:
  "p \<in> set (List.map_filter id (taken_of w)) \<Longrightarrow> \<exists>c \<in> set (w_cursors w). c \<noteq> SHUTDOWN_OPEN \<and> p = nat (c + 1)"
  by (auto simp: taken_of_def List.map_filter_def split: if_splits)

lemma reserve_items:
  assumes "- 1 \<le> top_seq g" "a = top_seq g + 1" "a \<le> b" "\<And>p. p \<in> pending g \<Longrightarrow> p \<le> top_seq g"
  shows "items_of (g\<lparr>top_seq := max (top_seq g) b, pending := pending g \<union> {a..b}\<rparr>) =
    items_of g @ replicate (nat (b - a + 1)) None"
proof -
  have split: "[0..b] = [0..top_seq g] @ [a..b]" using assms(1-3) upto_split1 [of 0 a b] by simp
  let ?f = "\<lambda>s. if s \<in> pending g \<union> {a..b} then None else Some (history g s)"
  have "max (top_seq g) b = b" using assms(2,3) by simp
  then have "items_of (g\<lparr>top_seq := max (top_seq g) b, pending := pending g \<union> {a..b}\<rparr>) = map ?f [0..b]"
    by (simp add: items_of_def)
  also have "\<dots> = map ?f [0..top_seq g] @ map ?f [a..b]" using split by simp
  also have "map ?f [0..top_seq g] = items_of g" using assms(2) by (auto simp: items_of_def)
  also have "map ?f [a..b] = replicate (nat (b - a + 1)) None" by (rule replicate_eqI) auto
  finally show ?thesis .
qed

lemma cas_is_reserve:
  assumes inv: "protocol_inv w g" and i: "i < length (w_senders w)" "w_senders w ! i = SCas n l a b"
    and st: "sender_step i w = Some w'"
  shows "case event_of (SenderStep i) w of
      None \<Rightarrow> shared_of (w', observe (SenderStep i) w g) = shared_of (w, g)
    | Some e \<Rightarrow> queue_step e (shared_of (w, g)) = Some (shared_of (w', observe (SenderStep i) w g))"
proof (cases "w_claimed w = l")
  case False
  then have "w' = set_sender i (SClaim n (w_claimed w)) w" using st i by (simp add: sender_step_defs compare_exchange_def)
  then show ?thesis using False i sender_moves [OF i(1), of "SClaim n (w_claimed w)"] by simp
next
  case True
  note D = protocol_invD [OF inv]
  have ok: "1 \<le> n" "n \<le> size_of w" "a = l + 1" "a \<le> b" "b \<le> l + size_of w" "- 1 \<le> l"
    "\<forall>c \<in> set (w_cursors w). b - size_of w \<le> c"
    using sender_okD [OF inv i(1)] i(2) by auto
  have l: "l = top_seq g" using claimed_exact [OF inv] ok(6) True by simp
  have w': "w' = set_sender i (SOwn a b) (w\<lparr>w_claimed := b\<rparr>)"
    using st i True by (simp add: sender_step_defs compare_exchange_def)
  let ?g = "g\<lparr>top_seq := max (top_seq g) b, pending := pending g \<union> {a..b}\<rparr>"
  have no: "\<not> over w" "\<not> all_gone w" using not_over [OF i(1)] not_gone [OF i(1)] i(2) by simp_all
  have no': "\<not> over w'" "\<not> all_gone w'"
    using one_moved [OF i(1), of w' "SOwn a b"] no i(2) w' by auto
  have flag: "\<not> has_shutdown l" "\<not> has_shutdown b" using ok by (auto simp: has_shutdown_def)
  have len: "length (items_of g) = nat a" using length_items [OF D(14)] ok(3) l by simp
  have room: "int (length (items_of g) + nat (b - a + 1)) \<le> int p + size_of w"
    if p: "p \<in> set (List.map_filter id (taken_of w))" for p
  proof -
    obtain c where "c \<in> set (w_cursors w)" "p = nat (c + 1)" using live_positions [OF p] by blast
    then have "b + 1 \<le> int p + size_of w" using ok(7) by force
    then show ?thesis using len ok(3,4,6) by simp
  qed
  have "items_of ?g = items_of g @ replicate (nat (b - a + 1)) None"
    using reserve_items [of g a b] D(14) ok(3,4) l flags_invD(4) [OF D(1)] by blast
  moreover have "taken_of w' = taken_of w" "size_of w' = size_of w" "w_claimed w' = b"
    by (simp_all add: w' taken_of_def)
  ultimately show ?thesis
    using i True no no' flag len room ok(4) by (simp add: shared_of_def)
qed

text \<open>Publications.\<close>

lemma publish_items:
  assumes "k \<in> pending g" "0 \<le> k" "k \<le> top_seq g"
  shows "items_of (g\<lparr>pending := pending g - {k}, history := (history g)(k := v)\<rparr>) = (items_of g)[nat k := Some v]"
proof (rule nth_equalityI)
  fix i assume "i < length (items_of (g\<lparr>pending := pending g - {k}, history := (history g)(k := v)\<rparr>))"
  then have s: "0 \<le> int i" "int i \<le> top_seq g" by (simp_all add: items_of_def)
  show "items_of (g\<lparr>pending := pending g - {k}, history := (history g)(k := v)\<rparr>) ! i = (items_of g)[nat k := Some v] ! i"
    using nth_items [OF s] nth_items [of "int i" "g\<lparr>pending := pending g - {k}, history := (history g)(k := v)\<rparr>"] s assms(2)
    by (auto simp: nth_list_update)
qed (simp add: items_of_def)

lemma publish_is_publish:
  assumes inv: "protocol_inv w g" and i: "i < length (w_senders w)" "w_senders w ! i = SPublish k b"
    and st: "sender_step i w = Some w'"
  shows "case event_of (SenderStep i) w of
      None \<Rightarrow> shared_of (w', observe (SenderStep i) w g) = shared_of (w, g)
    | Some e \<Rightarrow> queue_step e (shared_of (w, g)) = Some (shared_of (w', observe (SenderStep i) w g))"
proof (cases "k \<le> b")
  case False
  then have "w' = set_sender i (SIdle None) w" using st i by (simp add: sender_step_defs)
  then show ?thesis using False i sender_moves [OF i(1), of "SIdle None"] by simp
next
  case True
  have "k \<in> owned (w_senders w ! i)" using i(2) True by simp
  note k = owned_window(2-) [OF inv i(1) this]
  let ?v = "get_ref_at (w_ring w) k"
  let ?w = "w\<lparr>w_states := publish (w_states w) k\<rparr>" and ?g = "g\<lparr>pending := pending g - {k}, history := (history g)(k := ?v)\<rparr>"
  have w': "w' = set_sender i (SPublish (k + 1) b) ?w" using st i True by (simp add: sender_step_defs)
  have "shared_of (w', ?g) = shared_of (?w, ?g)" unfolding w' by (rule sender_moves) (use i in simp_all)
  also have "\<dots> = (shared_of (w, g))\<lparr>q_items := (q_items (shared_of (w, g)))[nat k := Some ?v]\<rparr>"
    using publish_items [OF k(3,2,1), of ?v] by (simp add: shared_of_def taken_of_def over_def all_gone_def)
  finally show ?thesis using i True nth_items [OF k(2,1)] k(3) by (simp add: shared_of_def)
qed


text \<open>Claims that are refused, before the compare-and-swap.\<close>

lemma refused_by_flag:
  assumes "loads_ok w" "i < length (w_senders w)" "w_senders w ! i = SClaim n l" "has_shutdown l"
  shows "queue_step IsRefused (shared_of (w, g)) = Some (shared_of (w, g))"
proof -
  have "has_shutdown (w_claimed w)" using assms by (auto simp: loads_ok_def)
  then show ?thesis by (simp add: shared_of_def)
qed

lemma claim_target_shutdown:
  "claim_target m n l c = Inl ClaimShutdown \<longleftrightarrow> ss_shutdown c"
  by (simp add: claim_target_def Let_def)

lemma refused_by_gate:
  assumes inv: "protocol_inv w g" and i: "i < length (w_senders w)" "w_senders w ! i = SGate n l k m"
    and "k \<ge> length (w_cursors w)" "ss_shutdown (gate_answer m)"
  shows "queue_step IsRefused (shared_of (w, g)) = Some (shared_of (w, g))"
proof -
  have "\<forall>q < length (w_cursors w). SHUTDOWN_OPEN \<le> w_cursors w ! q"
    using sender_okD [OF inv i(1)] i(2) assms(4,5) by (auto simp: gate_answer_def is_shutdown_open_def)
  then have "\<forall>q < length (w_cursors w). w_cursors w ! q = SHUTDOWN_OPEN"
    using cursor_bounds(3) [OF inv] by (meson order_antisym)
  then have "\<forall>p \<in> set (taken_of w). p = None" by (auto simp: taken_of_def in_set_conv_nth)
  then show ?thesis by (simp add: shared_of_def)
qed

text \<open>Closing: the mark, and the store of the flag.\<close>

lemma mark_is_end:
  assumes inv: "protocol_inv w g" and i: "i < length (w_senders w)" "w_senders w ! i = SCloseMark raw b pc"
    and st: "sender_step i w = Some w'" and inv': "protocol_inv w' g"
  shows "case event_of (SenderStep i) w of
      None \<Rightarrow> shared_of (w', g) = shared_of (w, g)
    | Some e \<Rightarrow> queue_step e (shared_of (w, g)) = Some (shared_of (w', g))"
proof -
  let ?w = "w\<lparr>w_states := mark_shutdown (w_states w) b\<rparr>"
  have w': "w' = set_sender i (SCloseStore raw pc) ?w" using st i by (simp add: sender_step_defs)
  have frame: "size_of w' = size_of w" "taken_of w' = taken_of w" "w_claimed w' = w_claimed w"
    by (simp_all add: w' taken_of_def)
  have gone: "all_gone w' = all_gone w" using one_moved(2) [OF i(1), of w' "SCloseStore raw pc"] i(2) by (simp add: w')
  have no: "\<not> over w" using not_over [OF i(1)] i(2) by simp
  show ?thesis
  proof (cases "pc = SGone \<and> \<not> terminated g")
    case False
    have "over w' = over w" if "pc \<noteq> SGone" using one_moved(1) [OF i(1), of w' "SCloseStore raw pc"] i(2) that
      by (simp add: w')
    then have "shared_of (w', g) = shared_of (w, g)" using False frame gone by (auto simp: shared_of_def)
    moreover have "q_poisoned (shared_of (w, g))" if "pc = SGone" using False that by (simp add: shared_of_def)
    ultimately show ?thesis using i(2) by simp
  next
    case True
    then have "\<forall>j < length (w_senders w). j \<noteq> i \<longrightarrow> w_senders w ! j = SGone"
      using closing_cases [OF inv i(1)] i(2) by simp
    then have ov: "over w'" using True i(1) by (auto simp: w' over_def in_set_conv_nth nth_list_update)
    then have "pending g = {}" using over_nothing_pending [OF inv'] True by blast
    then have "None \<notin> set (items_of g)" by (auto simp: items_of_def)
    then show ?thesis using i(2) True ov no frame gone by (simp add: shared_of_def)
  qed
qed

lemma store_refuses:
  assumes inv: "protocol_inv w g" and i: "i < length (w_senders w)" "w_senders w ! i = SCloseStore raw pc"
    and st: "sender_step i w = Some w'"
  shows "queue_step Refuses (shared_of (w, g)) = Some (shared_of (w', g))"
proof -
  let ?w = "w\<lparr>w_claimed := raw OR SHUTDOWN_MASK\<rparr>"
  have w': "w' = set_sender i pc ?w" using st i by (simp add: sender_step_defs cursor_store_def)
  have "resumes pc" using sender_okD [OF inv i(1)] i(2) by simp
  then have "past_mark pc = past_mark (w_senders w ! i)" using i(2) by (cases pc) auto
  then have ov: "over w' = over w" using one_moved(1) [OF i(1), of w' pc] by (simp add: w')
  have "has_shutdown (w_claimed w') \<or> all_gone w'"
  proof (cases "0 \<le> top_seq g")
    case True
    then show ?thesis using close_store_flags [OF inv i(1,2)] by (simp add: w')
  next
    case False
    then have "\<not> terminated g" using terminated_top [OF inv] by blast
    then have "pc = SGone" "\<forall>j < length (w_senders w). j \<noteq> i \<longrightarrow> w_senders w ! j = SGone"
      using closing_cases [OF inv i(1)] i(2) by simp_all
    then show ?thesis using i(1) by (auto simp: w' all_gone_def in_set_conv_nth nth_list_update)
  qed
  then show ?thesis using ov by (simp add: shared_of_def w' taken_of_def)
qed

lemma sender_step_simulates:
  assumes inv: "protocol_inv w g" and loads: "loads_ok w" and i: "i < length (w_senders w)"
    and st: "sender_step i w = Some w'" and inv': "protocol_inv w' (observe (SenderStep i) w g)"
  shows "case event_of (SenderStep i) w of
      None \<Rightarrow> shared_of (w', observe (SenderStep i) w g) = shared_of (w, g)
    | Some e \<Rightarrow> queue_step e (shared_of (w, g)) = Some (shared_of (w', observe (SenderStep i) w g))"
proof (cases "w_senders w ! i")
  case (SClaim n l)
  then obtain pc where "w' = set_sender i pc w" "\<not> past_mark pc" "pc \<noteq> SGone"
    using st by (auto simp: sender_step_defs split: if_splits)
  then have "shared_of (w', g) = shared_of (w, g)" using sender_moves [OF i, of pc] SClaim by simp
  then show ?thesis using SClaim refused_by_flag [OF loads i SClaim, of g] by simp
next
  case (SGate n l k m)
  then obtain pc where "w' = set_sender i pc w" "\<not> past_mark pc" "pc \<noteq> SGone"
    using st by (auto simp: sender_step_defs split: if_splits sum.splits prod.splits)
  then have "shared_of (w', g) = shared_of (w, g)" using sender_moves [OF i, of pc] SGate by simp
  then show ?thesis using SGate refused_by_gate [OF inv i SGate] by (simp add: claim_target_shutdown)
next
  case (SCas n l a b)
  then show ?thesis using cas_is_reserve [OF inv i SCas st] by blast
next
  case (SPublish k b)
  then show ?thesis using publish_is_publish [OF inv i SPublish st] by blast
next
  case (SCloseLoad pc)
  then obtain pc' where "w' = set_sender i pc' w" "\<not> past_mark pc'" "pc' \<noteq> SGone"
    using st by (auto simp: sender_step_defs Let_def split: if_splits)
  then show ?thesis using sender_moves [OF i, of pc'] SCloseLoad by simp
next
  case (SCloseScan raw k e pc)
  then obtain pc' where "w' = set_sender i pc' w" "\<not> past_mark pc'" "pc' \<noteq> SGone"
    using st by (auto simp: sender_step_defs split: if_splits prod.splits)
  then show ?thesis using sender_moves [OF i, of pc'] SCloseScan by simp
next
  case (SCloseMark raw b pc)
  then have "observe (SenderStep i) w g = g" by simp
  then show ?thesis using mark_is_end [OF inv i SCloseMark st] inv' by (simp only:)
next
  case (SCloseStore raw pc)
  then show ?thesis using store_refuses [OF inv i SCloseStore st] by simp
qed (use st in \<open>simp_all add: sender_step_defs\<close>)


section \<open>The steps of a receiver\<close>

lemma taken_at:
  assumes "protocol_inv w g" "j < length (w_receivers w)" "w_receivers w ! j \<noteq> RGone"
  shows "j < length (taken_of w) \<and> taken_of w ! j = Some (nat (w_cursors w ! j + 1))"
  using receiver_live(1) [OF assms] receiver_okD [OF assms(1,2)] by (simp add: taken_of_def)

text \<open>A look that ends without an item found the next slot state unpublished.\<close>

lemma look_finds_nothing:
  assumes inv: "protocol_inv w g" and j: "j < length (w_receivers w)" and st: "receiver_step j w = Some w'"
    and r: "w_receivers w' ! j = RIdle (Some e)"
  shows "nothing_for j (shared_of (w, g)) \<and> j < length (taken_of w) \<and> shared_of (w', g) = shared_of (w, g)"
proof -
  obtain c k stop sd where pc: "w_receivers w ! j = RScan c k stop sd"
    using st by (auto simp: receiver_step_def split: receiver_pc.splits)
  note S = scanning [OF inv j pc]
  have T: "j < length (taken_of w)" "taken_of w ! j = Some (nat (c + 1))"
    using taken_at [OF inv j] pc S(1) by simp_all
  have empty: "recv_answer c l d = RIdle (Some e) \<Longrightarrow> l \<le> c" for l d
    using S(3,5) by (auto simp: recv_answer_def split: if_splits)
  have "k = c + 1 \<and> \<not> published (w_states w) k"
    using st pc r j S(6,8)
    by (auto simp: receiver_step_def Let_def slot_state_of_def published_def dest!: empty split: if_splits)
  then have miss: "\<not> readable g (c + 1)" using S(8) S(12) [of k] by auto
  have "nothing_for j (shared_of (w, g))"
  proof (cases "c = top_seq g")
    case True
    then have "nat (c + 1) = length (items_of g)" using length_items [OF protocol_invD(14) [OF inv]] by linarith
    then show ?thesis using T(2) by (simp add: nothing_for_def shared_of_def)
  next
    case False
    then show ?thesis using T(2) nth_items [of "c + 1" g] miss S(3,4)
      by (simp add: nothing_for_def shared_of_def readable_def)
  qed
  moreover obtain r' where "w' = set_receiver j r' w"
    using st pc by (auto simp: receiver_step_def Let_def split: if_splits prod.splits)
  ultimately show ?thesis using T(1) receiver_moves [of j r' w g] by simp
qed

lemma receiver_step_simulates:
  assumes inv: "protocol_inv w g" and j: "j < length (w_receivers w)" and st: "receiver_step j w = Some w'"
    and inv': "protocol_inv w' g"
  shows "case event_of (ReceiverStep j) w of
      None \<Rightarrow> shared_of (w', g) = shared_of (w, g)
    | Some e \<Rightarrow> queue_step e (shared_of (w, g)) = Some (shared_of (w', g))"
proof -
  obtain r where w': "w' = set_receiver j r w"
    using st by (auto simp: receiver_step_def Let_def split: receiver_pc.splits if_splits prod.splits)
  have same: "shared_of (w', g) = shared_of (w, g)" unfolding w' by (rule receiver_moves)
  have r: "w_receivers w' ! j = r" "j < length (w_receivers w')" using w' j by simp_all
  show ?thesis
  proof (cases "\<exists>e. r = RIdle (Some e)")
    case False
    then have "event_of (ReceiverStep j) w = None" using st r(1) by (cases r) (auto split: option.splits)
    then show ?thesis using same by simp
  next
    case True
    then obtain e where e: "r = RIdle (Some e)" by blast
    have N: "nothing_for j (shared_of (w, g)) \<and> j < length (taken_of w)"
      using look_finds_nothing [OF inv j st] r(1) e by simp
    show ?thesis
    proof (cases e)
      case ClaimEmpty
      then show ?thesis using st r(1) e N same by (simp add: shared_of_def)
    next
      case ClaimShutdown
      then have "terminated g \<or> over w'" using receiver_okD [OF inv' r(2)] r(1) e by auto
      then have "q_poisoned (shared_of (w, g)) \<or> q_ended (shared_of (w, g))" by (auto simp: w' over_def shared_of_def)
      moreover have "j < length (q_taken (shared_of (w, g)))" using N by (simp add: shared_of_def)
      ultimately show ?thesis using st r(1) e ClaimShutdown N same by simp
    qed
  qed
qed

lemma taken_update:
  "j < length (w_cursors w) \<Longrightarrow> taken_of (set_receiver j r (w\<lparr>w_cursors := (w_cursors w)[j := c]\<rparr>)) =
     (taken_of w)[j := if c = SHUTDOWN_OPEN then None else Some (nat (c + 1))]"
  by (simp add: taken_of_def map_update)

lemma release_takes:
  assumes inv: "protocol_inv w g" and j: "j < length (w_receivers w)" and st: "release_step j w = Some w'"
  shows "case event_of (Release j) w of
      None \<Rightarrow> shared_of (w', observe (Release j) w g) = shared_of (w, g)
    | Some e \<Rightarrow> queue_step e (shared_of (w, g)) = Some (shared_of (w', observe (Release j) w g))"
proof -
  obtain a b where pc: "w_receivers w ! j = RHold a b" using st by (auto simp: release_step_def split: receiver_pc.splits)
  then have live: "w_receivers w ! j \<noteq> RGone" by simp
  note D = protocol_invD [OF inv]
  let ?vs = "map (get_ref_at (w_ring w)) [a..b]"
  have w': "w' = set_receiver j (RIdle None) (w\<lparr>w_cursors := (w_cursors w)[j := b]\<rparr>)"
    using st pc by (simp add: release_step_def cursor_store_def)
  have ab: "a = w_cursors w ! j + 1" "a \<le> b" using receiver_okD [OF inv j] pc by auto
  note H = held_window [OF inv j pc]
  have b: "0 \<le> a" "b \<le> top_seq g" "b \<noteq> SHUTDOWN_OPEN" using H(2,3) [of b] H(3) [of a] ab(2) D(15)
    by (auto simp: SHUTDOWN_OPEN_def)
  have T: "j < length (taken_of w)" "taken_of w ! j = Some (nat a)" using taken_at [OF inv j live] ab(1) by simp_all
  have "take (length ?vs) (drop (nat a) (items_of g)) = map Some ?vs"
  proof (rule nth_equalityI)
    have len: "int (length (items_of g)) = top_seq g + 1" using length_items [OF D(14)] .
    then show "length (take (length ?vs) (drop (nat a) (items_of g))) = length (map Some ?vs)"
      using b ab(2) by simp
    fix q assume "q < length (take (length ?vs) (drop (nat a) (items_of g)))"
    then have q: "a \<le> a + int q" "a + int q \<le> b" using len b by simp_all
    have "nat (a + int q) = nat a + q" using b(1) by linarith
    then have "items_of g ! (nat a + q) = Some (history g (a + int q))"
      using nth_items [of "a + int q" g] H(2-4) [OF q] by simp
    then show "take (length ?vs) (drop (nat a) (items_of g)) ! q = map Some ?vs ! q"
      using q H(5) [OF q] len b by (simp add: nth_upto)
  qed
  moreover have "nat a + length ?vs = nat (b + 1)" "?vs \<noteq> []" using ab(2) b(1) by simp_all
  moreover have "taken_of w' = (taken_of w)[j := Some (nat (b + 1))]"
    using taken_update [of j w "RIdle None" b] T(1) b(3) w' by (simp add: taken_of_def)
  moreover have "items_of (observe (Release j) w g) = items_of g" using pc by (simp add: items_of_def)
  ultimately show ?thesis using pc T by (simp add: shared_of_def w' over_def all_gone_def)
qed

lemma drop_leaves:
  assumes inv: "protocol_inv w g" and j: "j < length (w_receivers w)" and st: "drop_receiver_step j w = Some w'"
  shows "queue_step (Leaves j) (shared_of (w, g)) = Some (shared_of (w', g))"
proof -
  have live: "w_receivers w ! j \<noteq> RGone" and
    w': "w' = set_receiver j RGone (w\<lparr>w_cursors := (w_cursors w)[j := SHUTDOWN_OPEN]\<rparr>)"
    using st by (auto simp: drop_receiver_step_def cursor_store_def split: receiver_pc.splits)
  note T = taken_at [OF inv j live]
  have "taken_of w' = (taken_of w)[j := None]"
    using taken_update [of j w RGone SHUTDOWN_OPEN] T w' by (simp add: taken_of_def)
  then show ?thesis using T by (simp add: shared_of_def w' over_def all_gone_def)
qed

section \<open>The simulation\<close>

text \<open>The steps of a sending context outside its methods.\<close>

lemma drop_sender_invisible:
  assumes inv: "protocol_inv w g" and i: "i < length (w_senders w)" and st: "drop_sender_step i w = Some w'"
  shows "shared_of (w', g) = shared_of (w, g)"
proof -
  obtain r where pc: "w_senders w ! i = SIdle r" using st by (auto simp: drop_sender_step_def split: sender_pc.splits)
  show ?thesis
  proof (cases "list_all (\<lambda>pc. pc = SGone) ((w_senders w)[i := SGone])")
    case True
    then have "w' = set_sender i (SCloseLoad SGone) w" using st pc by (simp add: drop_sender_step_def)
    then show ?thesis using sender_moves [OF i, of "SCloseLoad SGone"] pc by simp
  next
    case False
    then have w': "w' = set_sender i SGone w" using st pc by (simp add: drop_sender_step_def)
    obtain k where k: "k < length (w_senders w)" "k \<noteq> i" "w_senders w ! k \<noteq> SGone"
      using False unfolding list_all_length by (metis length_list_update nth_list_update_eq nth_list_update_neq)
    then have k': "k < length (w_senders w')" "w_senders w' ! k = w_senders w ! k" by (simp_all add: w')
    have "\<not> all_gone w" "\<not> all_gone w'" using not_gone [OF k(1,3)] not_gone [of k w'] k k' by simp_all
    moreover have "terminated g \<or> \<not> over w \<and> \<not> over w'"
    proof (cases "closing (w_senders w ! k)")
      case True
      then show ?thesis using closing_other [OF inv i _ k(1)] pc k(2) by simp
    next
      case False
      then have "\<not> past_mark (w_senders w ! k)" using k(3) by (cases "w_senders w ! k") auto
      then show ?thesis using not_over [OF k(1)] not_over [of k w'] k' by simp
    qed
    ultimately show ?thesis by (intro shared_of_eq) (auto simp: w')
  qed
qed

lemma clone_invisible:
  assumes i: "i < length (w_senders w)" and st: "clone_sender_step i w = Some w'"
  shows "shared_of (w', g) = shared_of (w, g)"
proof -
  obtain r where pc: "w_senders w ! i = SIdle r" and w': "w' = w\<lparr>w_senders := w_senders w @ [SIdle None]\<rparr>"
    using st by (auto simp: clone_sender_step_def split: sender_pc.splits)
  have "\<not> over w" "\<not> all_gone w" using not_over [OF i] not_gone [OF i] pc by simp_all
  then show ?thesis by (intro shared_of_eq) (auto simp: w' over_def all_gone_def)
qed

lemma panic_poisons:
  assumes i: "i < length (w_senders w)" "w_senders w ! i = SOwn a b" and w': "w' = set_sender i pc w"
    and pc: "\<not> past_mark pc" "pc \<noteq> SGone"
    and g': "terminated g'" "items_of g' = items_of g"
  shows "queue_step Poisons (shared_of (w, g)) = Some (shared_of (w', g'))"
proof -
  have "\<not> over w" "\<not> all_gone w" using not_over [OF i(1)] not_gone [OF i(1)] i(2) by simp_all
  moreover have "\<not> over w'" "\<not> all_gone w'" using not_over [of i w'] not_gone [of i w'] pc i(1) w' by simp_all
  ultimately show ?thesis using g' by (simp add: shared_of_def w' taken_of_def)
qed

lemma step_simulates:
  assumes inv: "protocol_inv w g" and loads: "loads_ok w" and st: "step act w = Some w'"
    and inv': "protocol_inv w' (observe act w g)"
  shows "case event_of act w of
      None \<Rightarrow> shared_of (w', observe act w g) = shared_of (w, g)
    | Some e \<Rightarrow> queue_step e (shared_of (w, g)) = Some (shared_of (w', observe act w g))"
proof (cases act)
  case (BeginClaim i limit)
  then show ?thesis using st sender_moves [of i w]
    by (auto simp: begin_claim_def idle_sender_def split: if_splits sender_pc.splits)
next
  case (SenderStep i)
  then show ?thesis using st sender_step_simulates [OF inv loads] inv' by (simp only: step.simps split: if_splits) blast
next
  case (Write i s v)
  then obtain rb where "w' = w\<lparr>w_ring := rb\<rparr>" using st by (auto simp: write_step_def split: if_splits sender_pc.splits)
  then have "shared_of (w', g) = shared_of (w, g)" by (intro shared_of_eq) (simp_all add: over_def all_gone_def)
  then show ?thesis using Write by simp
next
  case (Commit i)
  then show ?thesis using st sender_moves [of i w]
    by (auto simp: commit_step_def split: if_splits sender_pc.splits)
next
  case (PanickedDrop i)
  then obtain a b where "i < length (w_senders w)" "w_senders w ! i = SOwn a b"
    "w' = set_sender i (SCloseLoad (SIdle None)) w"
    using st by (auto simp: panicked_drop_step_def split: if_splits sender_pc.splits)
  then show ?thesis using PanickedDrop panic_poisons [of i w a b w' _ "observe act w g" g]
    by (simp add: items_of_def)
next
  case (PanickedBatchPermit i)
  then obtain a b where "i < length (w_senders w)" "w_senders w ! i = SOwn a b"
    "w' = set_sender i (SCloseLoad (SOwn a b)) w"
    using st by (auto simp: panicked_batch_permit_step_def split: if_splits sender_pc.splits)
  then show ?thesis using PanickedBatchPermit panic_poisons [of i w a b w' _ "observe act w g" g]
    by (simp add: items_of_def)
next
  case (DropSenderCtx i)
  then show ?thesis using st drop_sender_invisible [OF inv] by (simp split: if_splits)
next
  case (CloneSenderCtx i)
  then show ?thesis using st clone_invisible by (auto split: if_splits)
next
  case (BeginRecv j limit)
  then show ?thesis using st receiver_moves by (auto simp: begin_recv_def Let_def split: if_splits)
next
  case (ReceiverStep j)
  then show ?thesis using st receiver_step_simulates [OF inv] inv' by (simp only: step.simps observe.simps split: if_splits) blast
next
  case (Release j)
  then show ?thesis using st release_takes [OF inv] by (simp only: step.simps split: if_splits) blast
next
  case (DropReceiverCtx j)
  then show ?thesis using st drop_leaves [OF inv] by (simp del: queue_step.simps split: if_splits)
qed


interpretation channel: event_simulation observed_step "\<lambda>act wg. event_of act (fst wg)" queue_step shared_of linear_ok
  "\<lambda>wg. top_seq (snd wg) < 2 ^ 60"
proof
  fix act :: "'a action" and wg wg' :: "'a world \<times> 'a ghost"
  assume st: "observed_step act wg = Some wg'" and small: "top_seq (snd wg') < 2 ^ 60"
  have st': "step act (fst wg) = Some (fst wg')" "snd wg' = observe act (fst wg) (snd wg)"
    using st by (auto simp: observed_step_def)
  show "top_seq (snd wg) < 2 ^ 60" using small st'(2) observe_top [of "snd wg" act "fst wg"] by simp
  assume good: "linear_ok wg"
  then have inv: "protocol_inv (fst wg) (snd wg)" "loads_ok (fst wg)" by (simp_all add: linear_ok_def)
  have inv': "protocol_inv (fst wg') (observe act (fst wg) (snd wg))"
    using step_keeps [OF inv(1) st'(1)] small st'(2) by simp
  then show "linear_ok wg'" using loads_ok_step [OF inv st'(1)] st'(2) by (simp add: linear_ok_def)
  show "case event_of act (fst wg) of None \<Rightarrow> shared_of wg' = shared_of wg
      | Some e \<Rightarrow> queue_step e (shared_of wg) = Some (shared_of wg')"
    using step_simulates [OF inv st'(1) inv'] st'(2) by (metis prod.collapse)
qed

lemma fresh_shared: "shared_of (world_new rb n, ghost_new n) = queue_new (buffer_size (rb_meta rb)) n"
  by (simp add: shared_of_def world_new_def ghost_new_def queue_new_def items_of_def taken_of_def over_def all_gone_def
      cursor_new_def cursor_default_def INIT_def SHUTDOWN_OPEN_def has_shutdown_def new_all_empty_def Let_def)

lemma trace_run:
  assumes "execute acts (world_new rb n, ghost_new n) = Some (w, g)" "ring_ok rb" "top_seq g < 2 ^ 60"
  shows "queue_run (trace acts (world_new rb n)) (queue_new (buffer_size (rb_meta rb)) n) = Some (shared_of (w, g))"
proof -
  have "linear_ok (world_new rb n, ghost_new n)"
    using protocol_inv_new [OF assms(2)] by (simp add: linear_ok_def loads_ok_def world_new_def)
  then show ?thesis
    using channel.traces_included [of acts "(world_new rb n, ghost_new n)" "(w, g)"] assms
    by (simp add: execute_run_steps observed_trace fresh_shared)
qed

section \<open>Properties\<close>

text \<open>C3: The concurrent channel is a queue with atomic events: whatever the interleaving of the accesses
  of senders and receivers, the events they produce, in their order, are a run of the specification
  from the empty queue, and the memory then stands for the queue that this run reaches.\<close>

theorem channel_linearizes:
  assumes "execute acts (world_new rb n, ghost_new n) = Some (w, g)" "ring_ok rb" "top_seq g < 2 ^ 60"
  shows "queue_run (trace acts (world_new rb n)) (queue_new (buffer_size (rb_meta rb)) n) = Some (shared_of (w, g))"
  by (rule trace_run [OF assms])

text \<open>C9: The end of the stream is told when nothing is missing: if in an execution a receiver is told
  Disconnected and no permit panicked before, it had taken all that was ever reserved, everything
  was published, and it takes nothing afterwards.\<close>

theorem told_end_after_everything:
  assumes "execute acts (world_new rb n, ghost_new n) = Some (w, g)" "ring_ok rb" "top_seq g < 2 ^ 60" "j < n"
    and "trace acts (world_new rb n) = es @ IsToldEnd j # es'" "Poisons \<notin> set es"
  shows "map Some (takes_of j es) = q_items (shared_of (w, g)) \<and> takes_of j es' = []"
  using told_end_complete [of es j es'] trace_run [OF assms(1-3)] assms(4-6) by simp

section \<open>At concrete inputs\<close>

lemma drained_trace:
  "trace drained (world_new small_ring 1) =
     [Reserves 0 1, Publishes 0 7, Ends, Refuses, Takes 0 [7], IsToldEnd 0]"
  by code_simp

lemma raced_trace:
  "trace raced (world_new small_ring 1) =
     [Reserves 0 1, Poisons, Reserves 1 1, Refuses, Publishes 0 7, Publishes 1 8, Ends, Refuses, Takes 0 [7, 8]]"
  by code_simp


lemma drainedE:
  obtains w g where "execute drained (world_new small_ring 1, ghost_new 1) = Some (w, g)" "top_seq g < 2 ^ 60"
  using drained_outcome that by (auto simp: outcome_def)

theorem channel_linearizes_witness:
  "queue_run [Reserves 0 1, Publishes 0 (7 :: nat), Ends, Refuses, Takes 0 [7], IsToldEnd 0]
     (queue_new (buffer_size (rb_meta small_ring)) 1) \<noteq> None"
proof -
  obtain w g where w: "execute drained (world_new small_ring 1, ghost_new 1) = Some (w, g)" "top_seq g < 2 ^ 60"
    by (rule drainedE)
  show ?thesis using channel_linearizes [OF w(1) small_ring_ok w(2)] unfolding drained_trace
    by (simp only: option.distinct not_False_eq_True)
qed

theorem told_end_after_everything_witness:
  "case execute drained (world_new small_ring 1, ghost_new 1) of
     None \<Rightarrow> False | Some wg \<Rightarrow> q_items (shared_of wg) = [Some 7]"
proof -
  obtain w g where w: "execute drained (world_new small_ring 1, ghost_new 1) = Some (w, g)" "top_seq g < 2 ^ 60"
    by (rule drainedE)
  have "trace drained (world_new small_ring 1) = [Reserves 0 1, Publishes 0 7, Ends, Refuses, Takes 0 [7]] @ IsToldEnd 0 # []"
    unfolding drained_trace by simp
  from told_end_after_everything [OF w(1) small_ring_ok w(2) _ this] w(1) show ?thesis by simp
qed

end
