(* ===== verification/Refusals.thy ===== *)
theory Refusals
  imports SharedRefinement
begin

text \<open>
  A claim that is refused for lack of room is no single event: its gate reads the cursors of the
  receivers one after the other, while claims and receives go on. It is refused rightly all the same:
  there was a moment while it read the cursors at which the queue was full.
\<close>

fun in_gate :: "i64 \<Rightarrow> sequence \<Rightarrow> sender_pc \<Rightarrow> bool" where
  "in_gate n l (SGate n' l' k m) \<longleftrightarrow> n' = n \<and> l' = l"
| "in_gate n l _ \<longleftrightarrow> False"

definition reads_gate :: "nat \<Rightarrow> i64 \<Rightarrow> sequence \<Rightarrow> 'a world \<Rightarrow> bool" where
  "reads_gate i n l w \<longleftrightarrow> i < length (w_senders w) \<and> in_gate n l (w_senders w ! i)"

text \<open>From the state after \<open>acts1\<close> on, context \<open>i\<close> is in the gate of one and the same claim.\<close>

definition in_gate_since :: "nat \<Rightarrow> i64 \<Rightarrow> sequence \<Rightarrow> 'a action list \<Rightarrow> 'a action list \<Rightarrow> 'a world \<times> 'a ghost \<Rightarrow> bool" where
  "in_gate_since i n l acts1 acts2 wg \<longleftrightarrow>
     (\<forall>as. prefix as acts2 \<longrightarrow> (case execute (acts1 @ as) wg of None \<Rightarrow> False | Some (w, g) \<Rightarrow> reads_gate i n l w))"

lemma gate_before:
  assumes inv: "protocol_inv w g" and st: "step act w = Some w'" and i: "i < length (w_senders w')"
    and pc: "w_senders w' ! i = SGate n l k m" and m: "m \<noteq> SHUTDOWN_OPEN"
  shows "\<exists>k' m'. i < length (w_senders w) \<and> w_senders w ! i = SGate n l k' m' \<and>
    (m = m' \<or> k' < length (w_cursors w) \<and> m = w_cursors w ! k')"
proof (cases act)
  case (SenderStep q)
  then have q: "q < length (w_senders w)" "sender_step q w = Some w'" using st by (simp_all split: if_splits)
  show ?thesis
  proof (cases "w_senders w ! q")
    case (SGate n' l' x y)
    then show ?thesis using q i pc
      by (auto simp: sender_step_defs nth_list_update cursor_load_def min_def split: if_splits prod.splits sum.splits)
  next
    case (SCloseStore raw r)
    then have "resumes r" using sender_okD [OF inv q(1)] by simp
    then show ?thesis using SCloseStore q i pc by (auto simp: sender_step_defs nth_list_update split: if_splits)
  qed (use q i pc m in \<open>auto simp: sender_step_defs compare_exchange_def Let_def nth_list_update split: if_splits prod.splits\<close>)
qed (use st i pc in \<open>auto simp: access_defs Let_def nth_list_update nth_append
    split: if_splits sender_pc.splits receiver_pc.splits prod.splits\<close>)

lemma in_gate_since_snoc:
  assumes "in_gate_since i n l acts1 acts2 wg" "execute (acts1 @ acts2 @ [act]) wg = Some (w, g)" "reads_gate i n l w"
  shows "in_gate_since i n l acts1 (acts2 @ [act]) wg"
  using assms by (auto simp: in_gate_since_def prefix_snoc)

lemma in_gate_since_here:
  assumes "execute acts wg = Some (w, g)" "reads_gate i n l w"
  shows "in_gate_since i n l acts [] wg"
  using assms by (simp add: in_gate_since_def)

text \<open>What a gate has read so far is the cursor of a receiver at a moment since the claim loaded \<open>claimed\<close>.\<close>

lemma gate_saw:
  assumes run: "execute acts (w0, g0) = Some (w, g)" and good: "linear_ok (w0, g0)" and small: "top_seq g < 2 ^ 60"
    and start: "\<And>i. \<not> reads_gate i n l w0"
    and pc: "i < length (w_senders w)" "w_senders w ! i = SGate n l k m" "m \<noteq> SHUTDOWN_OPEN"
  shows "\<exists>acts1 acts2 w1 g1 j. acts = acts1 @ acts2 \<and> execute acts1 (w0, g0) = Some (w1, g1) \<and>
    j < length (w_cursors w1) \<and> w_cursors w1 ! j = m \<and> l \<le> top_seq g1 \<and> in_gate_since i n l acts1 acts2 (w0, g0)"
  using run small pc
proof (induction acts arbitrary: w g k m rule: rev_induct)
  case Nil
  then show ?case using start [of i] by (simp add: reads_gate_def)
next
  case (snoc act acts)
  obtain w' g' where e: "execute acts (w0, g0) = Some (w', g')" and st: "step act w' = Some w" "g = observe act w' g'"
    using snoc.prems(1) by (auto simp: execute_append bind_eq_Some_conv split: option.splits)
  have top: "top_seq g' < 2 ^ 60" using snoc.prems(2) observe_top [of g' act w'] st(2) by simp
  have inv: "protocol_inv w' g'"
    using channel.run_good [of acts "(w0, g0)" "(w', g')"] e top good by (simp add: execute_run_steps linear_ok_def)
  obtain k' m' where b: "i < length (w_senders w')" "w_senders w' ! i = SGate n l k' m'"
    "m = m' \<or> k' < length (w_cursors w') \<and> m = w_cursors w' ! k'"
    using gate_before [OF inv st(1) snoc.prems(3-5)] by blast
  have now: "reads_gate i n l w" "reads_gate i n l w'" using snoc.prems(3,4) b(1,2) by (simp_all add: reads_gate_def)
  show ?case
  proof (cases "m = m'")
    case True
    then obtain acts1 acts2 w1 g1 j where IH: "acts = acts1 @ acts2" "execute acts1 (w0, g0) = Some (w1, g1)"
      "j < length (w_cursors w1)" "w_cursors w1 ! j = m" "l \<le> top_seq g1" "in_gate_since i n l acts1 acts2 (w0, g0)"
      using snoc.IH [OF e top b(1,2)] snoc.prems(5) by blast
    have "in_gate_since i n l acts1 (acts2 @ [act]) (w0, g0)"
      using in_gate_since_snoc [OF IH(6) _ now(1)] snoc.prems(1) IH(1) by simp
    then show ?thesis using IH by (intro exI [of _ acts1] exI [of _ "acts2 @ [act]"]) auto
  next
    case False
    then have m: "k' < length (w_cursors w')" "w_cursors w' ! k' = m" using b(3) by auto
    have "l \<le> top_seq g'" using sender_okD [OF inv b(1)] b(2) by simp
    moreover have "in_gate_since i n l acts ([] @ [act]) (w0, g0)"
      using in_gate_since_snoc [OF in_gate_since_here [OF e now(2)] _ now(1)] snoc.prems(1) by simp
    ultimately show ?thesis using e m by (intro exI [of _ acts] exI [of _ "[act]"]) auto
  qed
qed

text \<open>Full for one of its receivers.\<close>

definition is_full :: "'a shared_queue \<Rightarrow> bool" where
  "is_full q \<longleftrightarrow> (\<exists>p \<in> set (List.map_filter id (q_taken q)). int (length (q_items q)) = int p + q_capacity q)"

lemma in_map_filter_id: "Some p \<in> set xs \<Longrightarrow> p \<in> set (List.map_filter id xs)"
  by (force simp: List.map_filter_def)

lemma full_now:
  assumes inv: "protocol_inv w g" and j: "j < length (w_cursors w)" and m: "w_cursors w ! j \<noteq> SHUTDOWN_OPEN"
    and full: "w_cursors w ! j + size_of w \<le> top_seq g"
  shows "is_full (shared_of (w, g))"
proof -
  have "live_cursor (size_of w) (top_seq g) (pending g) (w_cursors w ! j)" using cursor_bounds(1) [OF inv j] m by blast
  then have "top_seq g = w_cursors w ! j + size_of w" "- 1 \<le> w_cursors w ! j" using full by (simp_all add: live_cursor_def)
  moreover have "Some (nat (w_cursors w ! j + 1)) \<in> set (taken_of w)" using j m by (force simp: taken_of_def)
  then have "nat (w_cursors w ! j + 1) \<in> set (List.map_filter id (taken_of w))" by (rule in_map_filter_id)
  ultimately show ?thesis using length_items [OF protocol_invD(14) [OF inv]]
    by (auto simp: is_full_def shared_of_def intro!: bexI [of _ "nat (w_cursors w ! j + 1)"])
qed

lemma gate_refuses_full:
  assumes inv: "protocol_inv w g" and i: "i < length (w_senders w)" "w_senders w ! i = SGate n l k m"
    and r: "claim_target (st_meta (w_states w)) n l (gate_answer m) = Inl ClaimEmpty"
  shows "m \<noteq> SHUTDOWN_OPEN \<and> m + size_of w \<le> l"
proof -
  note D = protocol_invD [OF inv]
  have live: "m \<noteq> SHUTDOWN_OPEN"
    using r by (auto simp: claim_target_def gate_answer_def is_shutdown_open_def Let_def)
  have ok: "- 1 \<le> m" "m < 2 ^ 61" "- 1 \<le> l" "l < 2 ^ 61" "1 \<le> n"
    using sender_okD [OF inv i(1)] i(2) live D(15) by auto
  have "gate_answer m = \<lparr>ss_seq = m, ss_shutdown = False\<rparr>"
    using live by (simp add: gate_answer_def is_shutdown_open_def)
  then have "(let room = m - l + size_of w
      in if room < 1 then Inl ClaimEmpty else Inr (l + 1, l + min room n)) = (Inl ClaimEmpty :: try_claim_error + sequence \<times> sequence)"
    using r claim_target_eq [OF D(11) ok(3,4,1,2), of n] ok(5) by simp
  then have "m + size_of w \<le> l" by (simp add: Let_def split: if_splits)
  with live show ?thesis ..
qed


lemma execute_size: "execute acts (w, g) = Some (w', g') \<Longrightarrow> size_of w' = size_of w"
proof (induction acts arbitrary: w g)
  case (Cons act acts)
  then obtain w1 where w1: "step act w = Some w1" "execute acts (w1, observe act w g) = Some (w', g')"
    by (auto split: option.splits)
  then show ?case using Cons.IH [OF w1(2)] step_meta [OF w1(1)] by simp
qed simp

lemma refused_in_gate:
  assumes inv: "protocol_inv w g" and st: "step (SenderStep i) w = Some w'"
    and r: "w_senders w' ! i = SIdle (Some ClaimEmpty)"
  obtains n l k m where "i < length (w_senders w)" "w_senders w ! i = SGate n l k m"
    "claim_target (st_meta (w_states w)) n l (gate_answer m) = Inl ClaimEmpty"
proof -
  have i: "i < length (w_senders w)" "sender_step i w = Some w'" using st by (simp_all split: if_splits)
  show thesis
  proof (cases "w_senders w ! i")
    case (SGate n l k m)
    then show ?thesis using that [OF i(1) SGate] i r
      by (auto simp: sender_step_defs split: if_splits sum.splits prod.splits)
  next
    case (SCloseStore raw pc)
    then have "resumes pc" using sender_okD [OF inv i(1)] by simp
    then show ?thesis using SCloseStore i r by (auto simp: sender_step_defs)
  qed (use i r in \<open>auto simp: sender_step_defs compare_exchange_def Let_def split: if_splits prod.splits\<close>)
qed

text \<open>C10: No claim is refused for lack of room wrongly: when in an execution a claim answers Full, there was
  a moment, after it had loaded \<open>claimed\<close> and while it read the receivers' cursors, at which the queue
  was full: everything up to a whole capacity behind some receiver was reserved.\<close>

theorem refused_claim_saw_full_queue:
  assumes run: "execute acts (world_new rb n, ghost_new n) = Some (w, g)" and rb: "ring_ok rb" and small: "top_seq g < 2 ^ 60"
    and st: "step (SenderStep i) w = Some w'" and r: "w_senders w' ! i = SIdle (Some ClaimEmpty)"
  shows "\<exists>acts1 acts2 w1 g1 limit l. acts = acts1 @ acts2 \<and> execute acts1 (world_new rb n, ghost_new n) = Some (w1, g1) \<and>
    is_full (shared_of (w1, g1)) \<and> in_gate_since i limit l acts1 acts2 (world_new rb n, ghost_new n)"
proof -
  let ?start = "(world_new rb n, ghost_new n)"
  have good: "linear_ok ?start"
    using protocol_inv_new [OF rb] by (simp add: linear_ok_def loads_ok_def world_new_def)
  have inv: "protocol_inv w g"
    using channel.run_good [of acts ?start "(w, g)"] run small good by (simp add: execute_run_steps linear_ok_def)
  obtain limit l k m where pc: "i < length (w_senders w)" "w_senders w ! i = SGate limit l k m"
    "claim_target (st_meta (w_states w)) limit l (gate_answer m) = Inl ClaimEmpty"
    by (rule refused_in_gate [OF inv st r])
  have m: "m \<noteq> SHUTDOWN_OPEN" "m + size_of w \<le> l" using gate_refuses_full [OF inv pc] by simp_all
  have "\<not> reads_gate q limit l (world_new rb n)" for q by (auto simp: reads_gate_def world_new_def)
  then obtain acts1 acts2 w1 g1 j where G: "acts = acts1 @ acts2" "execute acts1 ?start = Some (w1, g1)"
    "j < length (w_cursors w1)" "w_cursors w1 ! j = m" "l \<le> top_seq g1" "in_gate_since i limit l acts1 acts2 ?start"
    using gate_saw [OF run good small _ pc(1,2) m(1)] by blast
  have rest: "execute acts2 (w1, g1) = Some (w, g)" using run G(1,2) by (simp add: execute_append)
  have "top_seq g1 < 2 ^ 60" using execute_top [OF rest] small by simp
  then have inv1: "protocol_inv w1 g1"
    using channel.run_good [of acts1 ?start "(w1, g1)"] G(2) good by (simp add: execute_run_steps linear_ok_def)
  have "is_full (shared_of (w1, g1))"
    using full_now [OF inv1 G(3)] G(4,5) m execute_size [OF rest] by simp
  then show ?thesis using G by blast
qed


text \<open>The ring is filled, and the next claim has read the cursor of the receiver, which took nothing.\<close>

definition filled_up :: "nat action list" where
  "filled_up = [BeginClaim 0 2, SenderStep 0, SenderStep 0, SenderStep 0, SenderStep 0, Write 0 0 7, Write 0 1 8,
     Commit 0, SenderStep 0, SenderStep 0, SenderStep 0, BeginClaim 0 1, SenderStep 0, SenderStep 0]"

lemma filled_up_outcome: "outcome filled_up = Some (1, [SGate 1 1 1 (- 1)], [RIdle None], [- 1], [[]], 1, False)"
  by code_simp

lemma filled_up_refused:
  "outcome (filled_up @ [SenderStep 0]) = Some (1, [SIdle (Some ClaimEmpty)], [RIdle None], [- 1], [[]], 1, False)"
  by code_simp

theorem refused_claim_saw_full_queue_witness:
  "\<exists>acts1 acts2 w1 g1 limit l. filled_up = acts1 @ acts2 \<and>
     execute acts1 (world_new small_ring 1, ghost_new 1) = Some (w1, g1) \<and> is_full (shared_of (w1, g1)) \<and>
     in_gate_since 0 limit l acts1 acts2 (world_new small_ring 1, ghost_new 1)"
proof -
  let ?start = "(world_new small_ring 1, ghost_new 1)"
  obtain w g where e: "execute filled_up ?start = Some (w, g)" and t: "top_seq g = 1"
    using filled_up_outcome by (auto simp: outcome_def)
  obtain w' g' where e': "execute (filled_up @ [SenderStep 0]) ?start = Some (w', g')"
    and r: "w_senders w' ! 0 = SIdle (Some ClaimEmpty)"
    using filled_up_refused by (auto simp: outcome_def)
  have "step (SenderStep 0) w = Some w'" using e' e
    by (simp add: execute_append del: step.simps observe.simps split: option.splits)
  from refused_claim_saw_full_queue [OF e small_ring_ok _ this r] t show ?thesis by simp
qed

end
