(* ===== verification/AsyncProtocol.thy ===== *)
theory AsyncProtocol
  imports Terminations Wakeups
begin

text \<open>
  The interleaved program with its async receivers. Beside the accesses of \<open>Protocol\<close> there are
  those of \<open>notify\<close> (\<open>con_ex.rs\<close>, \<open>con_fanout.rs\<close>): after the last store of a commit and of a close a
  sender wakes the receivers, one after the other; and those of a poll (\<open>claim_at_most_async\<close> of
  \<open>consumer.rs\<close>): a look, which is a load of the cursor and a scan, the registration of the waker, and a
  second look. \<open>register\<close> and \<open>wake\<close> of the third-party \<open>AtomicWaker\<close> are parameters, each one atomic.
\<close>

section \<open>The state\<close>

text \<open>Where the poll of a receiver is, with the limit of its claim and the task it is polled by.\<close>

datatype 't task_pc =
    TaskIdle
  | FirstLook i64 't
  | Registering i64 't
  | Registered i64 't
  | SecondLook i64 't
  | TaskPending 't

text \<open>\<open>notifying\<close>: the receiver that a sending context wakes next.\<close>

record ('a, 'w, 't) async_world =
  base :: "'a world"
  wakers :: "'w list"
  notifying :: "nat option list"
  tasks :: "'t task_pc list"

definition async_new :: "'a ring_buffer \<Rightarrow> nat \<Rightarrow> 'w \<Rightarrow> ('a, 'w, 't) async_world" where
  "async_new rb receivers w =
     \<lparr>base = world_new rb receivers, wakers = replicate receivers w, notifying = [None],
      tasks = replicate receivers TaskIdle\<rparr>"

section \<open>Steps\<close>

datatype ('a, 't) async_action =
    Access "'a action"
  | NotifyStep nat
  | BeginPoll nat i64 't
  | PollStep nat
  | RegisterStep nat
  | BeginSecondLook nat
  | DropFuture nat

fun sender_of :: "'a action \<Rightarrow> nat option" where
  "sender_of (BeginClaim i limit) = Some i"
| "sender_of (SenderStep i) = Some i"
| "sender_of (Write i s v) = Some i"
| "sender_of (Commit i) = Some i"
| "sender_of (PanickedDrop i) = Some i"
| "sender_of (PanickedBatchPermit i) = Some i"
| "sender_of (DropSenderCtx i) = Some i"
| "sender_of (CloneSenderCtx i) = Some i"
| "sender_of _ = None"

fun receiver_of :: "'a action \<Rightarrow> nat option" where
  "receiver_of (BeginRecv j limit) = Some j"
| "receiver_of (ReceiverStep j) = Some j"
| "receiver_of (Release j) = Some j"
| "receiver_of (DropReceiverCtx j) = Some j"
| "receiver_of _ = None"

text \<open>The steps after which a context calls \<open>notify\<close>: the last store of a commit or of a close is done.\<close>

fun notifies_after :: "'a action \<Rightarrow> 'a world \<Rightarrow> bool" where
  "notifies_after (SenderStep i) w \<longleftrightarrow>
     (case w_senders w ! i of
        SPublish k b \<Rightarrow> b < k
      | SCloseStore raw pc \<Rightarrow> True
      | _ \<Rightarrow> False)"
| "notifies_after _ w \<longleftrightarrow> False"

definition notifying_after :: "'a action \<Rightarrow> 'a world \<Rightarrow> nat option list \<Rightarrow> nat option list" where
  "notifying_after act w ns =
     (case act of
        CloneSenderCtx i \<Rightarrow> ns @ [None]
      | SenderStep i \<Rightarrow> if notifies_after act w then ns[i := Some 0] else ns
      | _ \<Rightarrow> ns)"

text \<open>An access of a context that is not in \<open>notify\<close>, or of a receiver that is not polled.\<close>

definition access_step :: "'a action \<Rightarrow> ('a, 'w, 't) async_world \<Rightarrow> ('a, 'w, 't) async_world option" where
  "access_step act s =
     (if (\<forall>i \<in> set_option (sender_of act). notifying s ! i = None) \<and>
         (\<forall>j \<in> set_option (receiver_of act). tasks s ! j = TaskIdle)
      then map_option (\<lambda>w. s\<lparr>base := w, notifying := notifying_after act (base s) (notifying s)\<rparr>) (step act (base s))
      else None)"

definition notify_step :: "('w \<Rightarrow> 'w) \<Rightarrow> nat \<Rightarrow> ('a, 'w, 't) async_world \<Rightarrow> ('a, 'w, 't) async_world option" where
  "notify_step wake i s =
     (case notifying s ! i of
        None \<Rightarrow> None
      | Some j \<Rightarrow>
          Some (if j < length (wakers s)
                then s\<lparr>wakers := (wakers s)[j := wake (wakers s ! j)], notifying := (notifying s)[i := Some (Suc j)]\<rparr>
                else s\<lparr>notifying := (notifying s)[i := None]\<rparr>))"

text \<open>A look of the task: the accesses of the consumer's \<open>try_claim_at_most\<close>.\<close>

definition begin_look :: "nat \<Rightarrow> i64 \<Rightarrow> 't task_pc \<Rightarrow> ('a, 'w, 't) async_world \<Rightarrow> ('a, 'w, 't) async_world option" where
  "begin_look j limit pc s =
     map_option (\<lambda>w. s\<lparr>base := w, tasks := (tasks s)[j := pc]\<rparr>) (step (BeginRecv j limit) (base s))"

text \<open>After an access of the scan: it goes on, or has found nothing, or the poll is ready.\<close>

fun task_after :: "receiver_pc \<Rightarrow> 't task_pc \<Rightarrow> 't task_pc" where
  "task_after (RScan c k stop sd) pc = pc"
| "task_after (RIdle (Some ClaimEmpty)) (FirstLook limit t) = Registering limit t"
| "task_after (RIdle (Some ClaimEmpty)) (SecondLook limit t) = TaskPending t"
| "task_after _ _ = TaskIdle"

definition look_step :: "nat \<Rightarrow> ('a, 'w, 't) async_world \<Rightarrow> ('a, 'w, 't) async_world option" where
  "look_step j s =
     map_option (\<lambda>w. s\<lparr>base := w, tasks := (tasks s)[j := task_after (w_receivers w ! j) (tasks s ! j)]\<rparr>)
       (step (ReceiverStep j) (base s))"

text \<open>A pending future is polled again, by the same task or another, or dropped.\<close>

fun is_pending :: "'t task_pc \<Rightarrow> bool" where
  "is_pending (TaskPending t) \<longleftrightarrow> True"
| "is_pending _ \<longleftrightarrow> False"

definition may_poll :: "'t task_pc \<Rightarrow> bool" where
  "may_poll pc \<longleftrightarrow> pc = TaskIdle \<or> is_pending pc"

fun async_step :: "('w \<Rightarrow> 't \<Rightarrow> 'w) \<Rightarrow> ('w \<Rightarrow> 'w) \<Rightarrow> ('a, 't) async_action \<Rightarrow>
    ('a, 'w, 't) async_world \<Rightarrow> ('a, 'w, 't) async_world option" where
  "async_step register wake (Access act) s = access_step act s"
| "async_step register wake (NotifyStep i) s =
     (if i < length (notifying s) then notify_step wake i s else None)"
| "async_step register wake (BeginPoll j limit t) s =
     (if j < length (tasks s) \<and> may_poll (tasks s ! j) then begin_look j limit (FirstLook limit t) s else None)"
| "async_step register wake (PollStep j) s =
     (if j < length (tasks s)
      then case tasks s ! j of FirstLook limit t \<Rightarrow> look_step j s | SecondLook limit t \<Rightarrow> look_step j s | _ \<Rightarrow> None
      else None)"
| "async_step register wake (RegisterStep j) s =
     (if j < length (tasks s)
      then case tasks s ! j of
          Registering limit t \<Rightarrow> Some (s\<lparr>wakers := (wakers s)[j := register (wakers s ! j) t],
            tasks := (tasks s)[j := Registered limit t]\<rparr>)
        | _ \<Rightarrow> None
      else None)"
| "async_step register wake (BeginSecondLook j) s =
     (if j < length (tasks s)
      then case tasks s ! j of Registered limit t \<Rightarrow> begin_look j limit (SecondLook limit t) s | _ \<Rightarrow> None
      else None)"
| "async_step register wake (DropFuture j) s =
     (if j < length (tasks s) \<and> is_pending (tasks s ! j) then Some (s\<lparr>tasks := (tasks s)[j := TaskIdle]\<rparr>) else None)"

text \<open>The access of the base program in a step, if there is one.\<close>

fun access_of :: "('a, 't) async_action \<Rightarrow> ('a, 'w, 't) async_world \<Rightarrow> 'a action option" where
  "access_of (Access act) s = Some act"
| "access_of (BeginPoll j limit t) s = Some (BeginRecv j limit)"
| "access_of (PollStep j) s = Some (ReceiverStep j)"
| "access_of (BeginSecondLook j) s =
     (case tasks s ! j of Registered limit t \<Rightarrow> Some (BeginRecv j limit) | _ \<Rightarrow> None)"
| "access_of _ s = None"

definition async_observe :: "('a, 't) async_action \<Rightarrow> ('a, 'w, 't) async_world \<Rightarrow> 'a ghost \<Rightarrow> 'a ghost" where
  "async_observe act s g = (case access_of act s of None \<Rightarrow> g | Some acc \<Rightarrow> observe acc (base s) g)"

inductive async_reachable ::
  "('w \<Rightarrow> 't \<Rightarrow> 'w) \<Rightarrow> ('w \<Rightarrow> 'w) \<Rightarrow> 'a ring_buffer \<Rightarrow> nat \<Rightarrow> ('a, 'w, 't) async_world \<Rightarrow> 'a ghost \<Rightarrow> bool"
  for register wake rb receivers where
  fresh: "async_reachable register wake rb receivers (async_new rb receivers w) (ghost_new receivers)"
| steps: "async_reachable register wake rb receivers s g \<Longrightarrow> async_step register wake act s = Some s' \<Longrightarrow>
    async_reachable register wake rb receivers s' (async_observe act s g)"

text \<open>Runs of a schedule, to evaluate.\<close>

fun async_execute :: "('w \<Rightarrow> 't \<Rightarrow> 'w) \<Rightarrow> ('w \<Rightarrow> 'w) \<Rightarrow> ('a, 't) async_action list \<Rightarrow>
    ('a, 'w, 't) async_world \<times> 'a ghost \<Rightarrow> (('a, 'w, 't) async_world \<times> 'a ghost) option" where
  "async_execute register wake [] sg = Some sg"
| "async_execute register wake (act # acts) sg =
     (case async_step register wake act (fst sg) of
        None \<Rightarrow> None
      | Some s' \<Rightarrow> async_execute register wake acts (s', async_observe act (fst sg) (snd sg)))"

lemma async_execute_reachable:
  "async_reachable register wake rb n (fst sg) (snd sg) \<Longrightarrow> async_execute register wake acts sg = Some sg' \<Longrightarrow>
     async_reachable register wake rb n (fst sg') (snd sg')"
proof (induction acts arbitrary: sg)
  case (Cons act acts)
  from Cons.prems(2) obtain s' where s': "async_step register wake act (fst sg) = Some s'"
    "async_execute register wake acts (s', async_observe act (fst sg) (snd sg)) = Some sg'"
    by (auto split: option.splits)
  then show ?case
    using Cons.IH [of "(s', async_observe act (fst sg) (snd sg))"] async_reachable.steps [OF Cons.prems(1)] by simp
qed simp

lemma async_execute_append:
  "async_execute register wake (as @ bs) sg =
     Option.bind (async_execute register wake as sg) (async_execute register wake bs)"
  by (induction as arbitrary: sg) (auto split: option.splits)

end
