(* ===== verification/AsyncCorrect.thy ===== *)
theory AsyncCorrect
  imports AsyncProtocol Schedules
begin

text \<open>
  No wake-up is lost, access by access: the invariant of \<open>AsyncProtocol\<close> says that a task which was
  told to wait has been woken, or will be by a sender that is in a commit or a close, as soon as
  there is something for it.
\<close>

section \<open>Steps of the base program\<close>

lemma async_access:
  "async_step register wake act s = Some s' \<Longrightarrow>
     (case access_of act s of None \<Rightarrow> base s' = base s | Some acc \<Rightarrow> step acc (base s) = Some (base s'))"
  by (cases act) (auto simp: access_step_def notify_step_def begin_look_def look_step_def
      split: if_splits task_pc.splits option.splits)

lemma base_reachable:
  "async_reachable register wake rb n s g \<Longrightarrow> reachable rb n (base s) g"
proof (induction rule: async_reachable.induct)
  case (fresh w)
  then show ?case using reachable.fresh by (simp add: async_new_def)
next
  case (steps s g act s')
  then show ?case using async_access [OF steps.hyps(2)] reachable.steps [OF steps.IH]
    by (cases "access_of act s") (simp_all add: async_observe_def)
qed

text \<open>In the last stores of a commit or a close, before \<open>notify\<close>.\<close>

fun storing :: "sender_pc \<Rightarrow> bool" where
  "storing (SPublish k b) \<longleftrightarrow> True"
| "storing (SCloseStore raw pc) \<longleftrightarrow> True"
| "storing _ \<longleftrightarrow> False"

definition told :: "'a world \<Rightarrow> sequence \<Rightarrow> bool" where
  "told w n \<longleftrightarrow> published (w_states w) n \<or> marked (w_states w) n"

text \<open>A slot changes only under a context that is storing.\<close>

lemma told_by_storing:
  assumes "step act w = Some w'" "told w' n" "\<not> told w n"
  shows "\<exists>i < length (w_senders w). act = SenderStep i \<and> storing (w_senders w' ! i) \<and> \<not> notifies_after act w"
proof (cases act)
  case (SenderStep i)
  then have i: "i < length (w_senders w)" "sender_step i w = Some w'" using assms(1) by (simp_all split: if_splits)
  have "w_states w' = w_states w \<or> storing (w_senders w' ! i) \<and> \<not> notifies_after act w"
    using i SenderStep
    by (cases "w_senders w ! i") (auto simp: sender_step_defs Let_def split: if_splits prod.splits sum.splits)
  then show ?thesis using assms(2,3) i(1) SenderStep by (auto simp: told_def)
qed (use assms in \<open>auto simp: access_defs Let_def told_def
    split: if_splits sender_pc.splits receiver_pc.splits prod.splits\<close>)

lemma storing_until_notify:
  assumes "step act w = Some w'" "i < length (w_senders w)" "storing (w_senders w ! i)"
  shows "storing (w_senders w' ! i) \<or> act = SenderStep i \<and> notifies_after act w"
proof (cases act)
  case (SenderStep k)
  then have k: "k < length (w_senders w)" "sender_step k w = Some w'" using assms(1) by (simp_all split: if_splits)
  show ?thesis
  proof (cases "k = i")
    case True
    then show ?thesis using k SenderStep assms(3) by (cases "w_senders w ! i") (auto simp: sender_step_defs)
  next
    case False
    then have "w_senders w' ! i = w_senders w ! i" using k
      by (cases "w_senders w ! k") (auto simp: sender_step_defs Let_def split: if_splits prod.splits sum.splits)
    then show ?thesis using assms(3) by simp
  qed
qed (use assms in \<open>auto simp: access_defs Let_def nth_list_update nth_append idle_sender_def
    split: if_splits sender_pc.splits receiver_pc.splits prod.splits\<close>)

lemma step_lengths:
  assumes "step act w = Some w'"
  shows "length (w_receivers w') = length (w_receivers w)" "length (w_cursors w') = length (w_cursors w)"
    "length (w_senders w') = length (w_senders w) + (case act of CloneSenderCtx i \<Rightarrow> 1 | _ \<Rightarrow> 0)"
proof -
  have "length (w_receivers w') = length (w_receivers w) \<and>
    length (w_senders w') = length (w_senders w) + (case act of CloneSenderCtx i \<Rightarrow> 1 | _ \<Rightarrow> 0)"
  proof (cases act)
    case (SenderStep i)
    then have "sender_step i w = Some w'" using assms by (simp split: if_splits)
    then show ?thesis using SenderStep
      by (cases "w_senders w ! i") (auto simp: sender_step_defs Let_def split: if_splits prod.splits sum.splits)
  qed (use assms in \<open>auto simp: access_defs Let_def split: if_splits sender_pc.splits receiver_pc.splits prod.splits\<close>)
  then show "length (w_receivers w') = length (w_receivers w)"
    "length (w_senders w') = length (w_senders w) + (case act of CloneSenderCtx i \<Rightarrow> 1 | _ \<Rightarrow> 0)" by simp_all
  show "length (w_cursors w') = length (w_cursors w)" using step_frame [OF assms] .
qed

lemma cursor_kept:
  assumes "step act w = Some w'" "receiver_of act \<noteq> Some j \<or> (\<exists>limit. act = BeginRecv j limit) \<or> act = ReceiverStep j"
  shows "w_cursors w' ! j = w_cursors w ! j"
proof (cases act)
  case (SenderStep i)
  then have "sender_step i w = Some w'" using assms(1) by (simp split: if_splits)
  then show ?thesis using sender_step_frame by metis
qed (use assms in \<open>auto simp: access_defs Let_def split: if_splits sender_pc.splits receiver_pc.splits prod.splits\<close>)

section \<open>The invariant\<close>

text \<open>A sender will wake receiver \<open>j\<close> before it goes on.\<close>

definition will_wake :: "('a, 'w, 't) async_world \<Rightarrow> nat \<Rightarrow> bool" where
  "will_wake s j \<longleftrightarrow> (\<exists>i < length (w_senders (base s)).
     case notifying s ! i of None \<Rightarrow> storing (w_senders (base s) ! i) | Some m \<Rightarrow> m \<le> j)"

lemma will_wake_same: "base s' = base s \<Longrightarrow> notifying s' = notifying s \<Longrightarrow> will_wake s' j = will_wake s j"
  by (simp add: will_wake_def cong: option.case_cong)

text \<open>The task that the last registration of a poll was for.\<close>

fun registered :: "'t task_pc \<Rightarrow> 't option" where
  "registered (Registered limit t) = Some t"
| "registered (SecondLook limit t) = Some t"
| "registered (TaskPending t) = Some t"
| "registered _ = None"

definition shape_ok :: "('a, 'w, 't) async_world \<Rightarrow> bool" where
  "shape_ok s \<longleftrightarrow> length (notifying s) = length (w_senders (base s)) \<and>
     length (wakers s) = length (w_receivers (base s)) \<and> length (tasks s) = length (w_receivers (base s))"

definition task_ok ::
  "('w \<Rightarrow> 't \<Rightarrow> bool) \<Rightarrow> ('w \<Rightarrow> 't \<Rightarrow> bool) \<Rightarrow> ('a, 'w, 't) async_world \<Rightarrow> nat \<Rightarrow> bool" where
  "task_ok armed woken s j \<longleftrightarrow>
     (\<forall>t. registered (tasks s ! j) = Some t \<longrightarrow> armed (wakers s ! j) t \<or> woken (wakers s ! j) t) \<and>
     (\<forall>t. tasks s ! j = TaskPending t \<longrightarrow> told (base s) (w_cursors (base s) ! j + 1) \<longrightarrow>
        woken (wakers s ! j) t \<or> will_wake s j)"

lemma notifying_after_access:
  assumes "step act w = Some w'" "length ns = length (w_senders w)"
  shows "length (notifying_after act w ns) = length (w_senders w')"
    "i < length (w_senders w) \<Longrightarrow> notifying_after act w ns ! i =
      (if act = SenderStep i \<and> notifies_after act w then Some 0 else ns ! i)"
  using assms step_lengths(3) [OF assms(1)]
  by (cases act; auto simp: notifying_after_def nth_append nth_list_update split: if_splits)+

text \<open>Who will wake keeps to it.\<close>

lemma will_wake_access:
  assumes sh: "shape_ok s" and st: "step act (base s) = Some w'" and w: "will_wake s j"
    and s': "base s' = w'" "notifying s' = notifying_after act (base s) (notifying s)"
  shows "will_wake s' j"
proof -
  have len: "length (notifying s) = length (w_senders (base s))" using sh by (simp add: shape_ok_def)
  obtain i where i: "i < length (w_senders (base s))"
    "case notifying s ! i of None \<Rightarrow> storing (w_senders (base s) ! i) | Some m \<Rightarrow> m \<le> j"
    using w by (auto simp: will_wake_def)
  note N = notifying_after_access [OF st len]
  have i': "i < length (w_senders w')" using i(1) step_lengths(3) [OF st] by simp
  have "case notifying s' ! i of None \<Rightarrow> storing (w_senders w' ! i) | Some m \<Rightarrow> m \<le> j"
  proof (cases "act = SenderStep i \<and> notifies_after act (base s)")
    case True
    then have "notifying s' ! i = Some 0" using N(2) [OF i(1)] s'(2) by metis
    then show ?thesis by simp
  next
    case False
    then have n: "notifying s' ! i = notifying s ! i"
      using N(2) [OF i(1)] s'(2) by metis
    show ?thesis
    proof (cases "notifying s ! i")
      case None
      then have "storing (w_senders w' ! i)" using storing_until_notify [OF st i(1)] i(2) False by auto
      then show ?thesis using n None by simp
    next
      case (Some m)
      then show ?thesis using n i(2) by simp
    qed
  qed
  then show ?thesis using i' s'(1) by (auto simp: will_wake_def)
qed

lemma told_will_wake:
  assumes sh: "shape_ok s" and st: "step act (base s) = Some w'" and t: "told w' n" "\<not> told (base s) n"
    and idle: "\<And>i. sender_of act = Some i \<Longrightarrow> notifying s ! i = None"
    and s': "base s' = w'" "notifying s' = notifying_after act (base s) (notifying s)"
  shows "will_wake s' j"
proof -
  have len: "length (notifying s) = length (w_senders (base s))" using sh by (simp add: shape_ok_def)
  obtain i where i: "i < length (w_senders (base s))" "act = SenderStep i" "storing (w_senders w' ! i)"
    "\<not> notifies_after act (base s)"
    using told_by_storing [OF st t] by blast
  have "notifying s' ! i = None"
    using notifying_after_access(2) [OF st len i(1)] idle [of i] i(2,4) s'(2) by simp
  moreover have "i < length (w_senders w')" using i(1) step_lengths(3) [OF st] by simp
  ultimately show ?thesis using i(3) s'(1) by (auto simp: will_wake_def intro!: exI [of _ i])
qed

section \<open>Preservation\<close>

text \<open>A look that found nothing: the slot was neither published nor marked.\<close>

lemma empty_look:
  assumes inv: "protocol_inv w g" and st: "step (ReceiverStep j) w = Some w'"
    and r: "w_receivers w' ! j = RIdle (Some ClaimEmpty)"
  shows "\<not> told w' (w_cursors w' ! j + 1)"
proof -
  have j: "j < length (w_receivers w)" "receiver_step j w = Some w'" using st by (simp_all split: if_splits)
  obtain c k stop sd where pc: "w_receivers w ! j = RScan c k stop sd"
    using j(2) by (auto simp: receiver_step_def split: receiver_pc.splits)
  note S = scanning [OF inv j(1) pc]
  have empty: "recv_answer c l d = RIdle (Some ClaimEmpty) \<longleftrightarrow> l \<le> c \<and> \<not> d" for l d
    by (simp add: recv_answer_def)
  have same: "w_states w' = w_states w" "w_cursors w' = w_cursors w"
    using j(2) pc by (auto simp: receiver_step_def Let_def split: if_splits prod.splits)
  have "k = c + 1 \<and> \<not> published (w_states w) k \<and> \<not> marked (w_states w) k"
    using j pc r S(6,8)
    by (auto simp: receiver_step_def Let_def slot_state_of_def published_def marked_def empty split: if_splits)
  then show ?thesis using same S(1) by (auto simp: told_def)
qed

text \<open>What a step of the base program does to a task that it leaves where it is.\<close>

lemma task_kept:
  assumes sh: "shape_ok s" and st: "step act (base s) = Some (base s')"
    and idle: "\<And>i. sender_of act = Some i \<Longrightarrow> notifying s ! i = None"
    and n: "notifying s' = notifying_after act (base s) (notifying s)"
    and same: "wakers s' = wakers s" "tasks s' ! j = tasks s ! j"
    and cur: "\<And>t. tasks s ! j = TaskPending t \<Longrightarrow> w_cursors (base s') ! j = w_cursors (base s) ! j"
    and ok: "task_ok armed woken s j"
  shows "task_ok armed woken s' j"
proof -
  have "woken (wakers s' ! j) t \<or> will_wake s' j"
    if p: "tasks s' ! j = TaskPending t" and tl: "told (base s') (w_cursors (base s') ! j + 1)" for t
  proof (cases "told (base s) (w_cursors (base s) ! j + 1)")
    case True
    then show ?thesis using ok p same will_wake_access [OF sh st _ refl n] by (auto simp: task_ok_def)
  next
    case False
    then show ?thesis using told_will_wake [OF sh st _ _ idle refl n] tl cur p same(2) by metis
  qed
  then show ?thesis using ok same by (auto simp: task_ok_def)
qed

lemma shape_kept:
  assumes "shape_ok s" "async_step register wake act s = Some s'"
  shows "shape_ok s'"
  using assms
  by (cases act) (auto simp: shape_ok_def access_step_def notify_step_def begin_look_def look_step_def step_lengths
      notifying_after_access simp del: step.simps split: if_splits task_pc.splits option.splits)


lemma will_wake_notified:
  assumes sh: "shape_ok s" and i: "i < length (notifying s)" "notify_step wake i s = Some s'" and w: "will_wake s j"
    and j: "j < length (wakers s)"
  shows "will_wake s' j \<or> wakers s' ! j = wake (wakers s ! j)"
proof -
  obtain k where k: "k < length (w_senders (base s))"
    "case notifying s ! k of None \<Rightarrow> storing (w_senders (base s) ! k) | Some m \<Rightarrow> m \<le> j"
    using w by (auto simp: will_wake_def)
  obtain m where m: "notifying s ! i = Some m" using i(2) by (auto simp: notify_step_def split: option.splits)
  have b: "base s' = base s" using i(2) m by (auto simp: notify_step_def split: if_splits)
  show ?thesis
  proof (cases "k = i")
    case False
    then have "notifying s' ! k = notifying s ! k" using i(2) m by (auto simp: notify_step_def split: if_splits)
    then have "will_wake s' j" unfolding will_wake_def using k b by (intro exI [of _ k]) (simp split: option.splits)
    then show ?thesis ..
  next
    case True
    then have le: "m \<le> j" using k(2) m by simp
    then have m': "m < length (wakers s)" using j by simp
    show ?thesis
    proof (cases "m = j")
      case True
      then show ?thesis using i(2) m j by (auto simp: notify_step_def split: if_splits)
    next
      case False
      then have "notifying s' ! i = Some (Suc m)" "Suc m \<le> j"
        using i m m' le by (auto simp: notify_step_def split: if_splits)
      then show ?thesis using k(1) True b by (auto simp: will_wake_def intro!: exI [of _ i])
    qed
  qed
qed

lemma notify_keeps:
  assumes w: "atomic_waker register wake armed woken" and sh: "shape_ok s"
    and i: "i < length (notifying s)" "notify_step wake i s = Some s'"
    and j: "j < length (tasks s)" and ok: "task_ok armed woken s j"
  shows "task_ok armed woken s' j"
proof -
  have same: "base s' = base s" "tasks s' = tasks s" "wakers s' ! j \<in> {wakers s ! j, wake (wakers s ! j)}"
    using i(2) by (auto simp: notify_step_def nth_list_update split: option.splits if_splits)
  have l: "j < length (wakers s)" using sh j by (simp add: shape_ok_def)
  have keeps: "armed (wakers s ! j) t \<or> woken (wakers s ! j) t \<Longrightarrow>
      armed (wakers s' ! j) t \<or> woken (wakers s' ! j) t" "woken (wakers s ! j) t \<Longrightarrow> woken (wakers s' ! j) t"
    "armed (wakers s ! j) t \<or> woken (wakers s ! j) t \<Longrightarrow> wakers s' ! j = wake (wakers s ! j) \<Longrightarrow>
      woken (wakers s' ! j) t" for t
    using w same(3) by (auto simp: atomic_waker_def)
  have a: "registered (tasks s' ! j) = Some t \<longrightarrow> armed (wakers s' ! j) t \<or> woken (wakers s' ! j) t" for t
    using ok keeps(1) same(2) by (auto simp: task_ok_def)
  have "woken (wakers s' ! j) t \<or> will_wake s' j"
    if "tasks s' ! j = TaskPending t" "told (base s') (w_cursors (base s') ! j + 1)" for t
  proof -
    have p: "woken (wakers s ! j) t \<or> will_wake s j" "armed (wakers s ! j) t \<or> woken (wakers s ! j) t"
      using ok that same by (auto simp: task_ok_def)
    show ?thesis using p(1) will_wake_notified [OF sh i _ l] keeps(2) keeps(3) [OF p(2)] by blast
  qed
  then show ?thesis using a by (simp add: task_ok_def)
qed

text \<open>A look: the poll that ends it pending has found nothing.\<close>

lemma begin_look_keeps:
  assumes sh: "shape_ok s" and st: "begin_look k limit pc s = Some s'" "k < length (tasks s)"
    and pc: "\<And>t. registered pc = Some t \<Longrightarrow> registered (tasks s ! k) = Some t" "\<not> is_pending pc"
    and j: "j < length (tasks s)" and ok: "task_ok armed woken s j"
  shows "task_ok armed woken s' j"
proof -
  have st': "step (BeginRecv k limit) (base s) = Some (base s')" "wakers s' = wakers s"
    "notifying s' = notifying s" "tasks s' = (tasks s)[k := pc]"
    using st(1) by (auto simp: begin_look_def simp del: step.simps)
  show ?thesis
  proof (cases "j = k")
    case True
    then show ?thesis using ok pc st' j by (auto simp: task_ok_def)
  next
    case False
    show ?thesis
    proof (rule task_kept [OF sh st'(1)])
      show "w_cursors (base s') ! j = w_cursors (base s) ! j" using cursor_kept [OF st'(1)] False by simp
    qed (use False st' ok in \<open>simp_all add: notifying_after_def\<close>)
  qed
qed

lemma look_keeps:
  assumes sh: "shape_ok s" and st: "look_step k s = Some s'" "k < length (tasks s)"
    and pc: "tasks s ! k = FirstLook limit t \<or> tasks s ! k = SecondLook limit t"
    and inv: "protocol_inv (base s) g"
    and j: "j < length (tasks s)" and ok: "task_ok armed woken s j"
  shows "task_ok armed woken s' j"
proof -
  have st': "step (ReceiverStep k) (base s) = Some (base s')" "wakers s' = wakers s"
    "notifying s' = notifying s" "tasks s' = (tasks s)[k := task_after (w_receivers (base s') ! k) (tasks s ! k)]"
    using st(1) by (auto simp: look_step_def simp del: step.simps)
  show ?thesis
  proof (cases "j = k")
    case True
    let ?r = "w_receivers (base s') ! k"
    have "registered (task_after ?r (tasks s ! k)) = Some u \<Longrightarrow> registered (tasks s ! k) = Some u"
      "task_after ?r (tasks s ! k) = TaskPending u \<Longrightarrow> ?r = RIdle (Some ClaimEmpty)"
      for u
      using pc by (cases "(?r, tasks s ! k)" rule: task_after.cases; auto)+
    then show ?thesis using True ok st' j empty_look [OF inv st'(1)] by (auto simp: task_ok_def)
  next
    case False
    show ?thesis
    proof (rule task_kept [OF sh st'(1)])
      show "w_cursors (base s') ! j = w_cursors (base s) ! j" using cursor_kept [OF st'(1)] False by simp
    qed (use False st' ok in \<open>simp_all add: notifying_after_def\<close>)
  qed
qed

lemma access_keeps:
  assumes sh: "shape_ok s" and st: "access_step act s = Some s'" and ok: "task_ok armed woken s j"
  shows "task_ok armed woken s' j"
proof -
  have st': "step act (base s) = Some (base s')" "wakers s' = wakers s" "tasks s' = tasks s"
    "notifying s' = notifying_after act (base s) (notifying s)"
    and idle: "\<And>i. sender_of act = Some i \<Longrightarrow> notifying s ! i = None"
      "\<And>j. receiver_of act = Some j \<Longrightarrow> tasks s ! j = TaskIdle"
    using st by (auto simp: access_step_def simp del: step.simps split: if_splits)
  show ?thesis
  proof (rule task_kept [OF sh st'(1) idle(1) st'(4,2)])
    show "w_cursors (base s') ! j = w_cursors (base s) ! j" if "tasks s ! j = TaskPending t" for t
      using cursor_kept [OF st'(1)] idle(2) [of j] that by auto
  qed (use st' ok in simp_all)
qed

lemma async_step_keeps:
  assumes w: "atomic_waker register wake armed woken" and sh: "shape_ok s"
    and ok: "\<forall>j < length (tasks s). task_ok armed woken s j"
    and inv: "protocol_inv (base s) g" and st: "async_step register wake act s = Some s'"
    and j: "j < length (tasks s)"
  shows "task_ok armed woken s' j"
proof (cases act)
  case (Access acc)
  then have "access_step acc s = Some s'" using st by simp
  then show ?thesis using access_keeps [OF sh] ok j by blast
next
  case (NotifyStep i)
  then show ?thesis using st ok j notify_keeps [OF w sh _ _ j] by (simp split: if_splits)
next
  case (BeginPoll k limit t)
  then have l: "begin_look k limit (FirstLook limit t) s = Some s'" "k < length (tasks s)" using st
    by (auto split: if_splits)
  show ?thesis by (rule begin_look_keeps [OF sh l _ _ j]) (use ok j in simp_all)
next
  case (PollStep k)
  then obtain limit t where "tasks s ! k = FirstLook limit t \<or> tasks s ! k = SecondLook limit t" "k < length (tasks s)"
    "look_step k s = Some s'" using st by (auto split: if_splits task_pc.splits)
  then show ?thesis using ok j look_keeps [OF sh _ _ _ inv j] by blast
next
  case (RegisterStep k)
  then obtain limit t where s': "s' = s\<lparr>wakers := (wakers s)[k := register (wakers s ! k) t],
      tasks := (tasks s)[k := Registered limit t]\<rparr>" using st by (auto split: if_splits task_pc.splits)
  have "will_wake s' j = will_wake s j" by (rule will_wake_same) (simp_all add: s')
  moreover have "j < length (wakers s)" "task_ok armed woken s j" using sh ok j by (simp_all add: shape_ok_def)
  moreover have "base s' = base s" "wakers s' ! j = (if j = k then register (wakers s ! k) t else wakers s ! j)"
    "tasks s' ! j = (if j = k then Registered limit t else tasks s ! j)"
    using s' j \<open>j < length (wakers s)\<close> by auto
  ultimately show ?thesis using w by (auto simp: task_ok_def atomic_waker_def)
next
  case (BeginSecondLook k)
  then obtain limit t where l: "tasks s ! k = Registered limit t" "begin_look k limit (SecondLook limit t) s = Some s'"
    "k < length (tasks s)" using st by (auto split: if_splits task_pc.splits)
  show ?thesis by (rule begin_look_keeps [OF sh l(2,3) _ _ j]) (use ok j l(1) in simp_all)
next
  case (DropFuture k)
  then have s': "s' = s\<lparr>tasks := (tasks s)[k := TaskIdle]\<rparr>" using st by (simp split: if_splits)
  have "will_wake s' j = will_wake s j" by (rule will_wake_same) (simp_all add: s')
  moreover have "task_ok armed woken s j" using ok j by simp
  moreover have "base s' = base s" "wakers s' = wakers s" "tasks s' ! j = (if j = k then TaskIdle else tasks s ! j)"
    using s' j by auto
  ultimately show ?thesis by (auto simp: task_ok_def)
qed

section \<open>Every execution\<close>

lemma async_invariant:
  assumes w: "atomic_waker register wake armed woken"
    and "async_reachable register wake rb n s g" "ring_ok rb" "top_seq g < 2 ^ 60"
  shows "shape_ok s \<and> (\<forall>j < length (tasks s). task_ok armed woken s j)"
  using assms(2-)
proof (induction rule: async_reachable.induct)
  case (fresh w)
  then show ?case by (auto simp: async_new_def shape_ok_def task_ok_def world_new_def)
next
  case (steps s g act s')
  have top: "top_seq g < 2 ^ 60"
    using steps.prems(2) observe_top [of g _ "base s"]
    by (cases "access_of act s") (auto simp: async_observe_def intro: le_less_trans)
  then have IH: "shape_ok s" "\<forall>j < length (tasks s). task_ok armed woken s j" using steps.IH steps.prems(1) by blast+
  have inv: "protocol_inv (base s) g"
    using reachable_inv [OF base_reachable [OF steps.hyps(1)] steps.prems(1) top] .
  have "length (tasks s') = length (tasks s)" using steps.hyps(2)
    by (cases act) (auto simp: access_step_def notify_step_def begin_look_def look_step_def simp del: step.simps
      split: if_splits task_pc.splits option.splits)
  then show ?case using shape_kept [OF IH(1) steps.hyps(2)] async_step_keeps [OF w IH inv steps.hyps(2)] by simp
qed

text \<open>A context that is in \<open>notify\<close>, or in the last stores before it, wakes if it is left to run.\<close>

lemma notify_runs:
  assumes "i < length (notifying s)" "notifying s ! i = Some m" "m \<le> j" "j < length (wakers s)"
  shows "\<exists>s'. async_execute register wake (replicate (Suc (j - m)) (NotifyStep i)) (s, g) = Some (s', g) \<and>
    wakers s' ! j = wake (wakers s ! j)"
  using assms
proof (induction "j - m" arbitrary: m s)
  case 0
  then have "m = j" by simp
  then show ?case using 0 by (simp add: notify_step_def async_observe_def)
next
  case (Suc d)
  let ?s = "s\<lparr>wakers := (wakers s)[m := wake (wakers s ! m)], notifying := (notifying s)[i := Some (Suc m)]\<rparr>"
  have st: "async_step register wake (NotifyStep i) s = Some ?s" using Suc.prems Suc.hyps(2)
    by (simp add: notify_step_def)
  have "\<exists>s'. async_execute register wake (replicate (Suc (j - Suc m)) (NotifyStep i)) (?s, g) = Some (s', g) \<and>
    wakers s' ! j = wake (wakers ?s ! j)"
    by (rule Suc.hyps(1)) (use Suc.prems Suc.hyps(2) in auto)
  moreover have "Suc (j - m) = Suc (Suc (j - Suc m))" "m \<noteq> j" using Suc.hyps(2) by auto
  ultimately show ?case using st by (simp add: async_observe_def)
qed

lemma store_step:
  assumes "i < length (w_senders (base s))" "notifying s ! i = None" "storing (w_senders (base s) ! i)"
  shows "\<exists>s'. async_step register wake (Access (SenderStep i)) s = Some s' \<and> wakers s' = wakers s \<and>
    notifying s' = notifying_after (SenderStep i) (base s) (notifying s) \<and>
    sender_step i (base s) = Some (base s')"
  using assms by (cases "w_senders (base s) ! i") (auto simp: access_step_def sender_step_defs)

lemma storing_runs:
  assumes "i < length (w_senders (base s))" "i < length (notifying s)" "notifying s ! i = None"
    "storing (w_senders (base s) ! i)"
  shows "\<exists>n s' g'. async_execute register wake (replicate n (Access (SenderStep i))) (s, g) = Some (s', g') \<and>
    wakers s' = wakers s \<and> length (notifying s') = length (notifying s) \<and> notifying s' ! i = Some 0"
  using assms
proof (induction "case w_senders (base s) ! i of SPublish k b \<Rightarrow> nat (b + 1 - k) | _ \<Rightarrow> 0" arbitrary: s g
    rule: less_induct)
  case less
  obtain s' where s': "async_step register wake (Access (SenderStep i)) s = Some s'" "wakers s' = wakers s"
    "notifying s' = notifying_after (SenderStep i) (base s) (notifying s)" "sender_step i (base s) = Some (base s')"
    using store_step [OF less.prems(1,3,4)] by blast
  let ?g = "async_observe (Access (SenderStep i)) s g"
  show ?case
  proof (cases "notifies_after (SenderStep i) (base s)")
    case True
    then have "notifying s' ! i = Some 0" "length (notifying s') = length (notifying s)"
      using s'(3) less.prems(2) by (simp_all add: notifying_after_def del: notifies_after.simps)
    then show ?thesis using s'(1,2) by (intro exI [of _ 1]) (simp del: async_step.simps)
  next
    case False
    then obtain k b where pc: "w_senders (base s) ! i = SPublish k b" "k \<le> b"
      using less.prems(4) by (cases "w_senders (base s) ! i") auto
    have n: "notifying s' = notifying s" using s'(3) False by (simp add: notifying_after_def del: notifies_after.simps)
    have pc': "w_senders (base s') ! i = SPublish (k + 1) b" "i < length (w_senders (base s'))"
      using s'(4) [symmetric] pc less.prems(1) by (auto simp: sender_step_defs set_sender_def)
    have "\<exists>n s'' g'. async_execute register wake (replicate n (Access (SenderStep i))) (s', ?g) = Some (s'', g') \<and>
      wakers s'' = wakers s' \<and> length (notifying s'') = length (notifying s') \<and> notifying s'' ! i = Some 0"
      by (rule less.hyps) (use pc pc' n less.prems in simp_all)
    then obtain m s'' g' where "async_execute register wake (replicate m (Access (SenderStep i))) (s', ?g) =
        Some (s'', g')" "wakers s'' = wakers s'" "length (notifying s'') = length (notifying s')" "notifying s'' ! i = Some 0"
      by blast
    then show ?thesis using s'(1,2) n by (intro exI [of _ "Suc m"]) (simp del: async_step.simps)
  qed
qed

lemma will_wake_runs:
  assumes sh: "shape_ok s" and w: "will_wake s j" and j: "j < length (wakers s)"
  shows "\<exists>i acts s' g'. set acts \<subseteq> {Access (SenderStep i), NotifyStep i} \<and>
    async_execute register wake acts (s, g) = Some (s', g') \<and> wakers s' ! j = wake (wakers s ! j)"
proof -
  obtain i where i: "i < length (w_senders (base s))"
    "case notifying s ! i of None \<Rightarrow> storing (w_senders (base s) ! i) | Some m \<Rightarrow> m \<le> j"
    using w by (auto simp: will_wake_def)
  have i': "i < length (notifying s)" using i(1) sh by (simp add: shape_ok_def)
  show ?thesis
  proof (cases "notifying s ! i")
    case None
    then obtain n s1 g1 where n: "async_execute register wake (replicate n (Access (SenderStep i))) (s, g) = Some (s1, g1)"
      "wakers s1 = wakers s" "length (notifying s1) = length (notifying s)" "notifying s1 ! i = Some 0"
      using storing_runs [OF i(1) i' None, of register wake g] i(2) by auto
    obtain s2 where "async_execute register wake (replicate (Suc (j - 0)) (NotifyStep i)) (s1, g1) = Some (s2, g1)"
      "wakers s2 ! j = wake (wakers s1 ! j)"
      using notify_runs [of i s1 0 j register wake g1] n i' j by auto
    then show ?thesis using n
      by (intro exI [of _ i] exI [of _ "replicate n (Access (SenderStep i)) @ replicate (Suc j) (NotifyStep i)"]
          exI [of _ s2] exI [of _ g1]) (auto simp: async_execute_append simp del: replicate_Suc)
  next
    case (Some m)
    then have "m \<le> j" using i(2) by simp
    then obtain s' where "async_execute register wake (replicate (Suc (j - m)) (NotifyStep i)) (s, g) = Some (s', g)"
      "wakers s' ! j = wake (wakers s ! j)" using notify_runs [OF i' Some _ j] by blast
    then show ?thesis
      by (intro exI [of _ i] exI [of _ "replicate (Suc (j - m)) (NotifyStep i)"] exI [of _ s'] exI [of _ g])
        (auto simp del: replicate_Suc)
  qed
qed

text \<open>C20: No wake-up is lost, access by access: in every state that interleaved senders and async
  receivers reach, a task whose last poll was pending, and whose next sequence number is published or
  marked as the end of the stream, has been woken, or some sender is still between its store and the
  wake of that receiver. When no sender is, the task has been woken.\<close>

theorem async_no_lost_wakeup:
  assumes "atomic_waker register wake armed woken"
    and "async_reachable register wake rb n s g" "ring_ok rb" "top_seq g < 2 ^ 60"
    and "j < length (tasks s)" "tasks s ! j = TaskPending t" "told (base s) (w_cursors (base s) ! j + 1)"
  shows "woken (wakers s ! j) t \<or> will_wake s j"
  using async_invariant [OF assms(1-4)] assms(5-) by (auto simp: task_ok_def)

text \<open>C21: The wake of an async receiver arrives: from every state that interleaved senders and receivers
  reach, a pending task for which there is something gets woken by the remaining steps of a single
  sender: what is left of its stores, and the wakes up to that receiver.\<close>

theorem async_wake_arrives:
  assumes "atomic_waker register wake armed woken"
    and "async_reachable register wake rb n s g" "ring_ok rb" "top_seq g < 2 ^ 60"
    and "j < length (tasks s)" "tasks s ! j = TaskPending t" "told (base s) (w_cursors (base s) ! j + 1)"
  shows "\<exists>i acts s' g'. set acts \<subseteq> {Access (SenderStep i), NotifyStep i} \<and>
    async_execute register wake acts (s, g) = Some (s', g') \<and> woken (wakers s' ! j) t"
proof -
  have sh: "shape_ok s" and ok: "task_ok armed woken s j" using async_invariant [OF assms(1-4)] assms(5) by blast+
  have j: "j < length (wakers s)" using sh assms(5) by (simp add: shape_ok_def)
  show ?thesis
  proof (cases "woken (wakers s ! j) t")
    case True
    then show ?thesis by (intro exI [of _ 0] exI [of _ "[]"] exI [of _ s] exI [of _ g]) simp
  next
    case False
    then have "will_wake s j" "armed (wakers s ! j) t" using ok assms(6,7) by (auto simp: task_ok_def)
    then have "woken (wake (wakers s ! j)) t" using assms(1) by (simp add: atomic_waker_def)
    then show ?thesis using will_wake_runs [OF sh \<open>will_wake s j\<close> j] by metis
  qed
qed

section \<open>At concrete inputs\<close>

text \<open>A poll that ends pending, and a commit of which the store is done and the wake is not.\<close>

definition told_to_wait :: "(nat, nat) async_action list" where
  "told_to_wait = [BeginPoll 0 1 5, PollStep 0, RegisterStep 0, BeginSecondLook 0, PollStep 0] @
     map Access [BeginClaim 0 1, SenderStep 0, SenderStep 0, SenderStep 0, SenderStep 0, Write 0 0 7, Commit 0,
       SenderStep 0]"

definition async_run :: "(nat, nat) async_action list \<Rightarrow>
    ((nat, nat option \<times> nat list, nat) async_world \<times> nat ghost) option" where
  "async_run acts = async_execute sample_register sample_wake acts
     (async_new small_ring 1 (None, []), ghost_new 1)"

lemma told_to_wait_outcome:
  "map_option (\<lambda>(s, g). (tasks s, wakers s, notifying s, w_cursors (base s), top_seq g, told (base s) 0))
     (async_run told_to_wait) = Some ([TaskPending 5], [(Some 5, [])], [None], [- 1], 0, True)"
  by code_simp

lemma told_to_waitE:
  obtains s g where "async_run told_to_wait = Some (s, g)"
    "async_reachable sample_register sample_wake small_ring 1 s g" "top_seq g < 2 ^ 60"
    "0 < length (tasks s)" "tasks s ! 0 = TaskPending 5" "told (base s) (w_cursors (base s) ! 0 + 1)"
proof -
  obtain s g where e: "async_run told_to_wait = Some (s, g)" and o: "tasks s = [TaskPending 5]" "w_cursors (base s) = [- 1]"
    "top_seq g = 0" "told (base s) 0"
    using told_to_wait_outcome by auto
  have "async_reachable sample_register sample_wake small_ring 1 (async_new small_ring 1 (None, [])) (ghost_new 1)"
    by (rule async_reachable.fresh)
  then have "async_reachable sample_register sample_wake small_ring 1 s g"
    using async_execute_reachable [of sample_register sample_wake small_ring 1
        "(async_new small_ring 1 (None, []), ghost_new 1)" told_to_wait "(s, g)"] e
    by (simp add: async_run_def)
  then show thesis using that [OF e] o by simp
qed

theorem async_no_lost_wakeup_witness:
  "case async_run told_to_wait of None \<Rightarrow> False | Some (s, g) \<Rightarrow> 5 \<in> set (snd (wakers s ! 0)) \<or> will_wake s 0"
proof -
  obtain s g where w: "async_run told_to_wait = Some (s, g)"
    "async_reachable sample_register sample_wake small_ring 1 s g" "top_seq g < 2 ^ 60"
    "0 < length (tasks s)" "tasks s ! 0 = TaskPending 5" "told (base s) (w_cursors (base s) ! 0 + 1)"
    using told_to_waitE .
  show ?thesis using async_no_lost_wakeup [OF sample_waker w(2) small_ring_ok w(3-6)] w(1) by simp
qed

theorem async_wake_arrives_witness:
  "case async_run told_to_wait of None \<Rightarrow> False | Some (s, g) \<Rightarrow>
     (\<exists>i acts s' g'. set acts \<subseteq> {Access (SenderStep i), NotifyStep i} \<and>
       async_execute sample_register sample_wake acts (s, g) = Some (s', g') \<and> 5 \<in> set (snd (wakers s' ! 0)))"
proof -
  obtain s g where w: "async_run told_to_wait = Some (s, g)"
    "async_reachable sample_register sample_wake small_ring 1 s g" "top_seq g < 2 ^ 60"
    "0 < length (tasks s)" "tasks s ! 0 = TaskPending 5" "told (base s) (w_cursors (base s) ! 0 + 1)"
    using told_to_waitE .
  show ?thesis using async_wake_arrives [OF sample_waker w(2) small_ring_ok w(3-6)] w(1) by simp
qed

end
