(* ===== verification/Interface.thy ===== *)
theory Interface
  imports Channels
begin

text \<open>
  The traits of the crate (\<open>sequencers/mod.rs\<close>, \<open>slot_states.rs\<close>, \<open>guards.rs\<close>, \<open>sender.rs\<close>,
  \<open>receiver.rs\<close>) and their implementations, down to the public ones of \<open>mpsc.rs\<close> and \<open>fanout.rs\<close>. A
  trait is the record of its methods, a supertrait the record it extends, an associated type a type
  variable, and an implementation a value of the record. Methods take the memory they work on (\<open>'c\<close>)
  and return it; the newtypes around the inner guards are the inner guards.

  \<open>waker.rs\<close> wraps \<open>atomic_waker::AtomicWaker\<close>, a third-party type, whose methods are a record too.
\<close>

section \<open>Waker\<close>

record ('w, 't) atomic_waker_methods =
  aw_new :: 'w
  aw_wake :: "'w \<Rightarrow> 'w"
  aw_register :: "'w \<Rightarrow> 't \<Rightarrow> 'w"

definition waker_new :: "('w, 't) atomic_waker_methods \<Rightarrow> 'w" where
  "waker_new A = aw_new A"

definition waker_wake :: "('w, 't) atomic_waker_methods \<Rightarrow> 'w \<Rightarrow> 'w" where
  "waker_wake A w = aw_wake A w"

definition waker_register :: "('w, 't) atomic_waker_methods \<Rightarrow> 'w \<Rightarrow> 't \<Rightarrow> 'w" where
  "waker_register A w t = aw_register A w t"

section \<open>Sequencers and barriers\<close>

record 'q sequencer =
  sq_try_claim :: "'q \<Rightarrow> (try_claim_error + sequence) \<times> 'q"
  sq_try_claim_at_most :: "i64 \<Rightarrow> 'q \<Rightarrow> (try_claim_error + sequence \<times> sequence) \<times> 'q"
  sq_commit :: "sequence \<Rightarrow> 'q \<Rightarrow> 'q"
  sq_commit_range :: "sequence \<Rightarrow> sequence \<Rightarrow> 'q \<Rightarrow> 'q"

record 'q producer_sequencer = "'q sequencer" +
  sq_terminate :: "'q \<Rightarrow> 'q"

text \<open>One poll; the other threads do \<open>before\<close> and \<open>after\<close> its registration.\<close>

record ('q, 't) consuming_sequencer = "'q sequencer" +
  sq_claim_at_most_async :: "('q \<Rightarrow> 'q) \<Rightarrow> ('q \<Rightarrow> 'q) \<Rightarrow> i64 \<Rightarrow> 't \<Rightarrow> 'q \<Rightarrow>
    (try_claim_error + sequence \<times> sequence) poll \<times> 'q"

record 'p producer_barrier_methods =
  pb_max_published :: "'p \<Rightarrow> sequence \<Rightarrow> sequence \<Rightarrow> slot_state"

record 'g slot_state_group_methods =
  sg_publish_range :: "'g \<Rightarrow> sequence \<Rightarrow> sequence \<Rightarrow> 'g"
  sg_publish :: "'g \<Rightarrow> sequence \<Rightarrow> 'g"
  sg_scan_available_until :: "'g \<Rightarrow> sequence \<Rightarrow> sequence \<Rightarrow> slot_state"

definition u32_slot_state_group :: "u32_slot_states slot_state_group_methods" where
  "u32_slot_state_group = \<lparr>sg_publish_range = publish_range, sg_publish = publish,
     sg_scan_available_until = scan_available_until\<rparr>"

definition multi_pub_barrier :: "multi_pub_gate producer_barrier_methods" where
  "multi_pub_barrier = \<lparr>pb_max_published = max_published\<rparr>"

definition multi_publisher_sequencer :: "'g consumer_barrier \<Rightarrow> 'g multi_publisher producer_sequencer" where
  "multi_publisher_sequencer B = \<lparr>sq_try_claim = mp_try_claim B, sq_try_claim_at_most = mp_try_claim_at_most B,
     sq_commit = mp_commit B, sq_commit_range = mp_commit_range B, sq_terminate = mp_terminate B\<rparr>"

text \<open>The consumer's claims only look.\<close>

definition default_consumer_sequencer ::
  "'p producer_barrier_methods \<Rightarrow> ('w, 't) atomic_waker_methods \<Rightarrow>
     (('p, 'w) consumer_sequencer, 't) consuming_sequencer" where
  "default_consumer_sequencer G A =
     \<lparr>sq_try_claim = (\<lambda>c. (cs_try_claim (pb_max_published G) c, c)),
      sq_try_claim_at_most = (\<lambda>limit c. (cs_try_claim_at_most (pb_max_published G) limit c, c)),
      sq_commit = cs_commit, sq_commit_range = cs_commit_range,
      sq_claim_at_most_async = (\<lambda>before after. claim_at_most_async (pb_max_published G) (waker_register A) before after)\<rparr>"

section \<open>Guards\<close>

text \<open>The second component of \<open>update_in_place\<close>: the update function panicked.\<close>

record ('c, 'p, 'a) chan_write_permit =
  wp_write :: "'a \<Rightarrow> 'p \<Rightarrow> 'c \<Rightarrow> 'c"
  wp_update_in_place :: "('a \<Rightarrow> 'a \<times> bool) \<Rightarrow> 'p \<Rightarrow> 'c \<Rightarrow> 'c \<times> bool"

record ('c, 'ps, 'p) chan_write_permits =
  wps_total_reserved :: "'ps \<Rightarrow> usize"
  wps_next :: "'ps \<Rightarrow> 'p option \<times> 'ps"
  wps_commit :: "'ps \<Rightarrow> 'c \<Rightarrow> 'c"

text \<open>\<open>ChanReadRef: Deref\<close>.\<close>

record ('c, 'r, 'a) deref_methods =
  rr_deref :: "'r \<Rightarrow> 'c \<Rightarrow> 'a"

record ('c, 'r, 'a) chan_read_ref = "('c, 'r, 'a) deref_methods" +
  rr_finish :: "'r \<Rightarrow> 'c \<Rightarrow> 'c"

record ('c, 'rs, 'it) chan_read_refs =
  rrs_iter :: "'rs \<Rightarrow> 'it"
  rrs_finish :: "'rs \<Rightarrow> 'c \<Rightarrow> 'c"

definition write_permit_impl ::
  "'g consumer_barrier \<Rightarrow> (('g, 'a) sender_impl, 'a write_permit, 'a) chan_write_permit" where
  "write_permit_impl B = \<lparr>wp_write = write_permit_write B, wp_update_in_place = write_permit_update_in_place B\<rparr>"

definition batch_write_permit_impl ::
  "'g consumer_barrier \<Rightarrow> 'a write_permits \<Rightarrow> (('g, 'a) sender_impl, batch_write_permit, 'a) chan_write_permit" where
  "batch_write_permit_impl B ps =
     \<lparr>wp_write = batch_permit_write B ps, wp_update_in_place = batch_permit_update_in_place B ps\<rparr>"

definition write_permits_impl ::
  "'g consumer_barrier \<Rightarrow> (('g, 'a) sender_impl, 'a write_permits, batch_write_permit) chan_write_permits" where
  "write_permits_impl B = \<lparr>wps_total_reserved = permits_total_reserved, wps_next = permits_next,
     wps_commit = permits_commit B\<rparr>"

definition read_ref_impl :: "'a ring_buffer \<Rightarrow> ('w receiver_view, read_ref, 'a) chan_read_ref" where
  "read_ref_impl rb = \<lparr>rr_deref = (\<lambda>r c. read_ref_deref rb r), rr_finish = read_ref_finish\<rparr>"

definition read_refs_impl :: "('w receiver_view, read_refs, read_batch_iter) chan_read_refs" where
  "read_refs_impl = \<lparr>rrs_iter = read_refs_iter, rrs_finish = read_refs_finish\<rparr>"

section \<open>Senders and receivers\<close>

record ('c, 'a, 'p, 'ps) chan_sender =
  tx_try_send :: "'a \<Rightarrow> 'c \<Rightarrow> ('a try_send_error + unit) \<times> 'c"
  tx_try_reserve :: "'a recycler \<Rightarrow> 'c \<Rightarrow> (try_reserve_error + 'p) \<times> 'c"
  tx_try_send_at_most :: "usize \<Rightarrow> 'a recycler \<Rightarrow> 'c \<Rightarrow> (try_send_at_most_error + 'ps) \<times> 'c"

text \<open>The async methods are one poll; \<open>Ready None\<close> is the end of the stream.\<close>

record ('c, 'r, 'rs, 't) chan_receiver =
  rx_try_recv :: "'c \<Rightarrow> try_recv_error + 'r"
  rx_try_recv_at_most :: "usize \<Rightarrow> 'c \<Rightarrow> try_recv_error + 'rs"
  rx_recv_async :: "('c \<Rightarrow> 'c) \<Rightarrow> ('c \<Rightarrow> 'c) \<Rightarrow> 't \<Rightarrow> 'c \<Rightarrow> 'r option poll \<times> 'c"
  rx_recv_at_most_async :: "('c \<Rightarrow> 'c) \<Rightarrow> ('c \<Rightarrow> 'c) \<Rightarrow> usize \<Rightarrow> 't \<Rightarrow> 'c \<Rightarrow> 'rs option poll \<times> 'c"

definition sender_impl_methods ::
  "'g consumer_barrier \<Rightarrow> (('g, 'a) sender_impl, 'a, 'a write_permit, 'a write_permits) chan_sender" where
  "sender_impl_methods B = \<lparr>tx_try_send = sd_try_send B, tx_try_reserve = sd_try_reserve B,
     tx_try_send_at_most = sd_try_send_at_most B\<rparr>"

definition receiver_impl_methods ::
  "('w, 't) atomic_waker_methods \<Rightarrow> ('w receiver_view, read_ref, read_refs, 't) chan_receiver" where
  "receiver_impl_methods A = \<lparr>rx_try_recv = rv_try_recv, rx_try_recv_at_most = rv_try_recv_at_most,
     rx_recv_async = rv_recv_async (waker_register A),
     rx_recv_at_most_async = rv_recv_at_most_async (waker_register A)\<rparr>"

section \<open>Polls on a channel\<close>

text \<open>
  \<open>claim_at_most_async\<close> on the memory of a channel: between the first look of receiver \<open>i\<close> and its
  registration the others do \<open>before\<close> to that memory, and between the registration and the second
  look \<open>after\<close>. The public async methods poll it as \<open>ReceiverImpl\<close> does.
\<close>

definition register_waker where
  "register_waker (T :: ('g, 'w) topology) register i ctx (ch :: ('g, 'a) channel) =
     set_gate (set_waker T i (register (waker_at T (gate_of ch) i) ctx) (gate_of ch)) ch"

definition poll_claim where
  "poll_claim (T :: ('g, 'w) topology) register before after limit i ctx (ch :: ('g, 'a) channel) =
     (case cs_try_claim_at_most max_published limit (view T i ch) of
        Inr r \<Rightarrow> (Ready (Inr r), ch)
      | Inl ClaimShutdown \<Rightarrow> (Ready (Inl ClaimShutdown), ch)
      | Inl ClaimEmpty \<Rightarrow>
          let ch1 = before ch;
              ch2 = after (register_waker T register i ctx ch1)
          in case cs_try_claim_at_most max_published limit (view T i ch2) of
               Inr r \<Rightarrow> (Ready (Inr r), ch2)
             | Inl ClaimEmpty \<Rightarrow> (Pending, ch2)
             | Inl ClaimShutdown \<Rightarrow> (Ready (Inl ClaimShutdown), ch2))"

definition recv_async where
  "recv_async (T :: ('g, 'w) topology) register before after i ctx (ch :: ('g, 'a) channel) =
     (case poll_claim T register before after 1 i ctx ch of
        (r, ch') \<Rightarrow> (poll_result (\<lambda>(a, b). \<lparr>rr_seq = a, rr_slot = b\<rparr>) r, ch'))"

definition recv_at_most_async where
  "recv_at_most_async (T :: ('g, 'w) topology) register before after limit i ctx (ch :: ('g, 'a) channel) =
     (if limit = (0 :: usize) then (Ready (Some empty_read_refs), ch)
      else
        case poll_claim T register before after (usize_as_i64 limit) i ctx ch of
          (r, ch') \<Rightarrow> (poll_result (\<lambda>(a, b). \<lparr>rrs_start_seq = a, rrs_end_seq = b\<rparr>) r, ch'))"

text \<open>\<open>update_in_place\<close> of a permit of a batch.\<close>

definition batch_update_in_place where
  "batch_update_in_place (T :: ('g, 'w) topology) ps f p (ch :: ('g, 'a) channel) =
     on_sender (\<lambda>sd. prod.swap (batch_permit_update_in_place (barrier T) ps f p sd)) ch"

section \<open>mpsc\<close>

type_synonym ('g, 'a) channel_sender = "(('g, 'a) channel, 'a, 'a write_permit, 'a write_permits) chan_sender"
type_synonym ('g, 'a) channel_permit = "(('g, 'a) channel, 'a write_permit, 'a) chan_write_permit"
type_synonym ('g, 'a) channel_permits = "(('g, 'a) channel, 'a write_permits, batch_write_permit) chan_write_permits"
type_synonym ('g, 'a) channel_ref = "(('g, 'a) channel, read_ref, 'a) chan_read_ref"
type_synonym ('g, 'a) channel_refs = "(('g, 'a) channel, read_refs, read_batch_iter) chan_read_refs"
type_synonym ('g, 'a, 't) channel_receiver = "(('g, 'a) channel, read_ref, read_refs, 't) chan_receiver"

definition mpsc_topology :: "('w, 't) atomic_waker_methods \<Rightarrow> ('w exclusive_gate, 'w) topology" where
  "mpsc_topology A = mpsc (waker_wake A)"

definition mpsc_sender :: "('w, 't) atomic_waker_methods \<Rightarrow> ('w exclusive_gate, 'a) channel_sender" where
  "mpsc_sender A = \<lparr>tx_try_send = try_send (mpsc_topology A), tx_try_reserve = try_reserve (mpsc_topology A),
     tx_try_send_at_most = try_send_at_most (mpsc_topology A)\<rparr>"

definition mpsc_write_permit :: "('w, 't) atomic_waker_methods \<Rightarrow> ('w exclusive_gate, 'a) channel_permit" where
  "mpsc_write_permit A = \<lparr>wp_write = permit_write (mpsc_topology A),
     wp_update_in_place = (\<lambda>f p ch. prod.swap (permit_update_in_place (mpsc_topology A) f p ch))\<rparr>"

definition mpsc_write_permits :: "('w, 't) atomic_waker_methods \<Rightarrow> ('w exclusive_gate, 'a) channel_permits" where
  "mpsc_write_permits A = \<lparr>wps_total_reserved = permits_total_reserved, wps_next = permits_next,
     wps_commit = batch_commit (mpsc_topology A)\<rparr>"

definition mpsc_read_ref :: "('w, 't) atomic_waker_methods \<Rightarrow> nat \<Rightarrow> ('w exclusive_gate, 'a) channel_ref" where
  "mpsc_read_ref A i = \<lparr>rr_deref = ref_deref, rr_finish = ref_finish (mpsc_topology A) i\<rparr>"

definition mpsc_read_refs :: "('w, 't) atomic_waker_methods \<Rightarrow> nat \<Rightarrow> ('w exclusive_gate, 'a) channel_refs" where
  "mpsc_read_refs A i = \<lparr>rrs_iter = read_refs_iter, rrs_finish = refs_finish (mpsc_topology A) i\<rparr>"

definition mpsc_receiver :: "('w, 't) atomic_waker_methods \<Rightarrow> nat \<Rightarrow> ('w exclusive_gate, 'a, 't) channel_receiver" where
  "mpsc_receiver A i = \<lparr>rx_try_recv = try_recv (mpsc_topology A) i,
     rx_try_recv_at_most = try_recv_at_most (mpsc_topology A) i,
     rx_recv_async = (\<lambda>before after. recv_async (mpsc_topology A) (waker_register A) before after i),
     rx_recv_at_most_async =
       (\<lambda>before after limit. recv_at_most_async (mpsc_topology A) (waker_register A) before after limit i)\<rparr>"

section \<open>fanout\<close>

definition fanout_topology :: "('w, 't) atomic_waker_methods \<Rightarrow> ('w fanout_gate, 'w) topology" where
  "fanout_topology A = fanout (waker_wake A)"

definition fanout_sender :: "('w, 't) atomic_waker_methods \<Rightarrow> ('w fanout_gate, 'a) channel_sender" where
  "fanout_sender A = \<lparr>tx_try_send = try_send (fanout_topology A), tx_try_reserve = try_reserve (fanout_topology A),
     tx_try_send_at_most = try_send_at_most (fanout_topology A)\<rparr>"

definition fanout_write_permit :: "('w, 't) atomic_waker_methods \<Rightarrow> ('w fanout_gate, 'a) channel_permit" where
  "fanout_write_permit A = \<lparr>wp_write = permit_write (fanout_topology A),
     wp_update_in_place = (\<lambda>f p ch. prod.swap (permit_update_in_place (fanout_topology A) f p ch))\<rparr>"

definition fanout_write_permits :: "('w, 't) atomic_waker_methods \<Rightarrow> ('w fanout_gate, 'a) channel_permits" where
  "fanout_write_permits A = \<lparr>wps_total_reserved = permits_total_reserved, wps_next = permits_next,
     wps_commit = batch_commit (fanout_topology A)\<rparr>"

definition fanout_read_ref :: "('w, 't) atomic_waker_methods \<Rightarrow> nat \<Rightarrow> ('w fanout_gate, 'a) channel_ref" where
  "fanout_read_ref A i = \<lparr>rr_deref = ref_deref, rr_finish = ref_finish (fanout_topology A) i\<rparr>"

definition fanout_read_refs :: "('w, 't) atomic_waker_methods \<Rightarrow> nat \<Rightarrow> ('w fanout_gate, 'a) channel_refs" where
  "fanout_read_refs A i = \<lparr>rrs_iter = read_refs_iter, rrs_finish = refs_finish (fanout_topology A) i\<rparr>"

definition fanout_receiver :: "('w, 't) atomic_waker_methods \<Rightarrow> nat \<Rightarrow> ('w fanout_gate, 'a, 't) channel_receiver" where
  "fanout_receiver A i = \<lparr>rx_try_recv = try_recv (fanout_topology A) i,
     rx_try_recv_at_most = try_recv_at_most (fanout_topology A) i,
     rx_recv_async = (\<lambda>before after. recv_async (fanout_topology A) (waker_register A) before after i),
     rx_recv_at_most_async =
       (\<lambda>before after limit. recv_at_most_async (fanout_topology A) (waker_register A) before after limit i)\<rparr>"

text \<open>The implementations on the channels forward to those on the inner ends, on the receiver's view.\<close>

lemma public_methods_forward:
  "tx_try_send (mpsc_sender A) v = on_sender (tx_try_send (sender_impl_methods (ex_barrier (waker_wake A))) v)"
  "tx_try_send (fanout_sender A) v = on_sender (tx_try_send (sender_impl_methods (fan_barrier (waker_wake A))) v)"
  "rx_try_recv (mpsc_receiver A i) ch = rx_try_recv (receiver_impl_methods A) (view (mpsc_topology A) i ch)"
  "rx_try_recv (fanout_receiver A i) ch' = rx_try_recv (receiver_impl_methods A) (view (fanout_topology A) i ch')"
  by (simp_all add: mpsc_sender_def fanout_sender_def mpsc_receiver_def fanout_receiver_def sender_impl_methods_def
      receiver_impl_methods_def mpsc_topology_def fanout_topology_def mpsc_def fanout_def fun_eq_iff
      try_send_def try_recv_def)

end
