(* ===== verification/Contracts.thy ===== *)
theory Contracts
  imports Refinement QueueFacts Wakeups Interface
begin

text \<open>
  Clients of the public traits. A client is generic in the implementations, as the repository's
  contract tests are: it calls the methods of the records of \<open>Interface\<close>. The locale
  \<open>queue_channel\<close> is what it may rely on, that every call answers as the queue specification does;
  both channels provide it, so a program over the traits gets the same answers from both. The async
  methods are proved against the specification too, while the others make calls during the poll.
\<close>

section \<open>A channel as its clients see it\<close>

record ('c, 'a, 'p, 'ps, 'bp, 'r, 'rs, 'it, 't) channel_interface =
  if_sender :: "('c, 'a, 'p, 'ps) chan_sender"
  if_permit :: "('c, 'p, 'a) chan_write_permit"
  if_permits :: "('c, 'ps, 'bp) chan_write_permits"
  if_batch_permit :: "'ps \<Rightarrow> ('c, 'bp, 'a) chan_write_permit"
  if_receiver :: "nat \<Rightarrow> ('c, 'r, 'rs, 't) chan_receiver"
  if_ref :: "nat \<Rightarrow> ('c, 'r, 'a) chan_read_ref"
  if_refs :: "nat \<Rightarrow> ('c, 'rs, 'it) chan_read_refs"
  if_iter_next :: "'it \<Rightarrow> 'c \<Rightarrow> 'a option \<times> 'it"
  if_drop_permit :: "'p \<Rightarrow> 'c \<Rightarrow> 'c"
  if_clone_sender :: "'c \<Rightarrow> 'c"
  if_drop_sender :: "'c \<Rightarrow> 'c"
  if_drop_receiver :: "nat \<Rightarrow> 'c \<Rightarrow> 'c"

definition mpsc_interface where
  "mpsc_interface A =
     \<lparr>if_sender = mpsc_sender A, if_permit = mpsc_write_permit A, if_permits = mpsc_write_permits A,
      if_batch_permit = (\<lambda>ps. \<lparr>wp_write = batch_write (mpsc_topology A) ps,
        wp_update_in_place = (\<lambda>f p ch. prod.swap (batch_update_in_place (mpsc_topology A) ps f p ch))\<rparr>),
      if_receiver = mpsc_receiver A, if_ref = mpsc_read_ref A, if_refs = mpsc_read_refs A,
      if_iter_next = refs_iter_next, if_drop_permit = permit_drop (mpsc_topology A),
      if_clone_sender = sender_clone, if_drop_sender = sender_drop (mpsc_topology A),
      if_drop_receiver = receiver_drop (mpsc_topology A)\<rparr>"

definition fanout_interface where
  "fanout_interface A =
     \<lparr>if_sender = fanout_sender A, if_permit = fanout_write_permit A, if_permits = fanout_write_permits A,
      if_batch_permit = (\<lambda>ps. \<lparr>wp_write = batch_write (fanout_topology A) ps,
        wp_update_in_place = (\<lambda>f p ch. prod.swap (batch_update_in_place (fanout_topology A) ps f p ch))\<rparr>),
      if_receiver = fanout_receiver A, if_ref = fanout_read_ref A, if_refs = fanout_read_refs A,
      if_iter_next = refs_iter_next, if_drop_permit = permit_drop (fanout_topology A),
      if_clone_sender = sender_clone, if_drop_sender = sender_drop (fanout_topology A),
      if_drop_receiver = receiver_drop (fanout_topology A)\<rparr>"

text \<open>Wakers that do nothing, to evaluate.\<close>

definition no_wakers :: "(unit, unit) atomic_waker_methods" where
  "no_wakers = \<lparr>aw_new = (), aw_wake = id, aw_register = (\<lambda>w t. w)\<rparr>"

section \<open>Clients\<close>

text \<open>The calls of \<open>Queues\<close>, made through the traits. A batch of at most \<open>limit\<close> items is iterated
  within \<open>limit + 1\<close> calls of \<open>next\<close>.\<close>

fun client_write_all where
  "client_write_all I ps [] c = (ps, c)"
| "client_write_all I ps (v # vs) c =
     (case wps_next (if_permits I) ps of
        (None, ps') \<Rightarrow> (ps', c)
      | (Some p, ps') \<Rightarrow> client_write_all I ps' vs (wp_write (if_batch_permit I ps') v p c))"

fun client_read_all where
  "client_read_all I 0 it c = None"
| "client_read_all I (Suc fuel) it c =
     (case if_iter_next I it c of
        (None, it') \<Rightarrow> Some []
      | (Some x, it') \<Rightarrow> map_option ((#) x) (client_read_all I fuel it' c))"

fun client_perform where
  "client_perform I (Send v) c = (case tx_try_send (if_sender I) v c of (r, c') \<Rightarrow> (Sent r, c'))"
| "client_perform I (Reserve d item) c =
     (case tx_try_reserve (if_sender I) (reset_to d) c of
        (Inl e, c') \<Rightarrow> (Reserved (Inl e), c')
      | (Inr p, c') \<Rightarrow>
          (Reserved (Inr ()),
           case item of Some v \<Rightarrow> wp_write (if_permit I) v p c' | None \<Rightarrow> if_drop_permit I p c'))"
| "client_perform I (SendMany limit d vs) c =
     (case tx_try_send_at_most (if_sender I) limit (reset_to d) c of
        (Inl e, c') \<Rightarrow> (SentMany (Inl e), c')
      | (Inr ps, c') \<Rightarrow>
          (SentMany (Inr (wps_total_reserved (if_permits I) ps)),
           case client_write_all I ps vs c' of (ps', c'') \<Rightarrow> wps_commit (if_permits I) ps' c''))"
| "client_perform I (Recv i) c =
     (case rx_try_recv (if_receiver I i) c of
        Inl e \<Rightarrow> (Received (Inl e), c)
      | Inr r \<Rightarrow> (Received (Inr (rr_deref (if_ref I i) r c)), rr_finish (if_ref I i) r c))"
| "client_perform I (RecvMany i limit) c =
     (case rx_try_recv_at_most (if_receiver I i) limit c of
        Inl e \<Rightarrow> (ReceivedMany (Inl e), c)
      | Inr r \<Rightarrow>
          (case client_read_all I (Suc limit) (rrs_iter (if_refs I i) r) c of
             None \<Rightarrow> (Done, c)
           | Some xs \<Rightarrow> (ReceivedMany (Inr xs), rrs_finish (if_refs I i) r c)))"
| "client_perform I CloneSender c = (Done, if_clone_sender I c)"
| "client_perform I DropSender c = (Done, if_drop_sender I c)"
| "client_perform I (DropReceiver i) c = (Done, if_drop_receiver I i c)"

fun client_run where
  "client_run I [] c = ([], c)"
| "client_run I (call # calls) c =
     (let (a, c1) = client_perform I call c; (as, c2) = client_run I calls c1 in (a # as, c2))"

section \<open>What a client relies on\<close>

text \<open>\<open>stands_for c t s\<close>: the memory \<open>c\<close>, in which the sequence numbers up to \<open>t\<close> are claimed, holds
  the specification's state \<open>s\<close>.\<close>

locale queue_channel =
  fixes I :: "('c, 'a, 'p, 'ps, 'bp, 'r, 'rs, 'it, 't) channel_interface"
    and stands_for :: "'c \<Rightarrow> int \<Rightarrow> 'a spec \<Rightarrow> bool"
  assumes commutes: "stands_for c t s \<Longrightarrow> t < 2 ^ 60 \<Longrightarrow> call_ok call s \<Longrightarrow>
    \<exists>t' \<le> t + 2 ^ 30. stands_for (snd (client_perform I call c)) t' (snd (spec_perform call s)) \<and>
      fst (client_perform I call c) = fst (spec_perform call s)"
begin

lemma run_commutes:
  assumes "stands_for c t s" "calls_ok calls s" "t + int (length calls) * 2 ^ 30 < 2 ^ 60 + 2 ^ 30"
  shows "fst (client_run I calls c) = fst (spec_run calls s) \<and>
    (\<exists>t' \<le> t + int (length calls) * 2 ^ 30. stands_for (snd (client_run I calls c)) t' (snd (spec_run calls s)))"
  using assms
proof (induction calls arbitrary: c t s)
  case (Cons call calls)
  have "t < 2 ^ 60" using Cons.prems(3) by simp
  then obtain t1 where t1: "t1 \<le> t + 2 ^ 30" "fst (client_perform I call c) = fst (spec_perform call s)"
    "stands_for (snd (client_perform I call c)) t1 (snd (spec_perform call s))"
    using commutes [OF Cons.prems(1)] Cons.prems(2) by auto
  have "t1 + int (length calls) * 2 ^ 30 < 2 ^ 60 + 2 ^ 30"
    using t1(1) Cons.prems(3) by (simp add: algebra_simps)
  from Cons.IH [OF t1(3) _ this] Cons.prems(2)
  have IH: "fst (client_run I calls (snd (client_perform I call c))) = fst (spec_run calls (snd (spec_perform call s)))"
    "\<exists>t' \<le> t1 + int (length calls) * 2 ^ 30. stands_for (snd (client_run I calls (snd (client_perform I call c)))) t'
      (snd (spec_run calls (snd (spec_perform call s))))"
    by simp_all
  from IH(2) obtain t' where "t' \<le> t1 + int (length calls) * 2 ^ 30"
    "stands_for (snd (client_run I calls (snd (client_perform I call c)))) t'
      (snd (spec_run calls (snd (spec_perform call s))))" by blast
  moreover have "t1 + int (length calls) * 2 ^ 30 \<le> t + int (length (call # calls)) * 2 ^ 30"
    using t1(1) by (simp add: algebra_simps)
  ultimately show ?case using t1(2) IH(1) by (auto simp: split_beta intro!: exI [of _ t'])
qed auto

text \<open>Answers of a program that starts on a new channel.\<close>

lemma answers:
  "stands_for c (- 1) s \<Longrightarrow> calls_ok calls s \<Longrightarrow> length calls \<le> 2 ^ 30 \<Longrightarrow>
     fst (client_run I calls c) = fst (spec_run calls s)"
  using run_commutes [of c "- 1" s calls] by simp

end

section \<open>Both channels provide it\<close>

text \<open>What the two implementations have in common.\<close>

definition interface_of :: "('g, 'w) topology \<Rightarrow> ('w, 't) atomic_waker_methods \<Rightarrow>
    (('g, 'a) channel, 'a, 'a write_permit, 'a write_permits, batch_write_permit, read_ref, read_refs,
     read_batch_iter, 't) channel_interface" where
  "interface_of T A =
     \<lparr>if_sender = \<lparr>tx_try_send = try_send T, tx_try_reserve = try_reserve T, tx_try_send_at_most = try_send_at_most T\<rparr>,
      if_permit = \<lparr>wp_write = permit_write T, wp_update_in_place = (\<lambda>f p ch. prod.swap (permit_update_in_place T f p ch))\<rparr>,
      if_permits = \<lparr>wps_total_reserved = permits_total_reserved, wps_next = permits_next, wps_commit = batch_commit T\<rparr>,
      if_batch_permit = (\<lambda>ps. \<lparr>wp_write = batch_write T ps,
        wp_update_in_place = (\<lambda>f p ch. prod.swap (batch_update_in_place T ps f p ch))\<rparr>),
      if_receiver = (\<lambda>i. \<lparr>rx_try_recv = try_recv T i, rx_try_recv_at_most = try_recv_at_most T i,
        rx_recv_async = (\<lambda>before after. recv_async T (waker_register A) before after i),
        rx_recv_at_most_async = (\<lambda>before after limit. recv_at_most_async T (waker_register A) before after limit i)\<rparr>),
      if_ref = (\<lambda>i. \<lparr>rr_deref = ref_deref, rr_finish = ref_finish T i\<rparr>),
      if_refs = (\<lambda>i. \<lparr>rrs_iter = read_refs_iter, rrs_finish = refs_finish T i\<rparr>),
      if_iter_next = refs_iter_next, if_drop_permit = permit_drop T,
      if_clone_sender = sender_clone, if_drop_sender = sender_drop T, if_drop_receiver = receiver_drop T\<rparr>"

lemma mpsc_interface_eq: "mpsc_interface A = interface_of (mpsc_topology A) A"
  by (simp add: mpsc_interface_def interface_of_def mpsc_sender_def mpsc_write_permit_def mpsc_write_permits_def
      mpsc_receiver_def mpsc_read_ref_def mpsc_read_refs_def fun_eq_iff)

lemma fanout_interface_eq: "fanout_interface A = interface_of (fanout_topology A) A"
  by (simp add: fanout_interface_def interface_of_def fanout_sender_def fanout_write_permit_def
      fanout_write_permits_def fanout_receiver_def fanout_read_ref_def fanout_read_refs_def fun_eq_iff)

lemma interface_of_methods [simp]:
  "tx_try_send (if_sender (interface_of T A)) = try_send T"
  "tx_try_reserve (if_sender (interface_of T A)) = try_reserve T"
  "tx_try_send_at_most (if_sender (interface_of T A)) = try_send_at_most T"
  "wp_write (if_permit (interface_of T A)) = permit_write T"
  "wps_total_reserved (if_permits (interface_of T A)) = permits_total_reserved"
  "wps_next (if_permits (interface_of T A)) = permits_next"
  "wps_commit (if_permits (interface_of T A)) = batch_commit T"
  "wp_write (if_batch_permit (interface_of T A) ps) = batch_write T ps"
  "rx_try_recv (if_receiver (interface_of T A) i) = try_recv T i"
  "rx_try_recv_at_most (if_receiver (interface_of T A) i) = try_recv_at_most T i"
  "rr_deref (if_ref (interface_of T A) i) = ref_deref" "rr_finish (if_ref (interface_of T A) i) = ref_finish T i"
  "rrs_iter (if_refs (interface_of T A) i) = read_refs_iter"
  "rrs_finish (if_refs (interface_of T A) i) = refs_finish T i"
  "if_iter_next (interface_of T A) = refs_iter_next" "if_drop_permit (interface_of T A) = permit_drop T"
  "if_clone_sender (interface_of T A) = sender_clone" "if_drop_sender (interface_of T A) = sender_drop T"
  "if_drop_receiver (interface_of T A) = receiver_drop T"
  by (simp_all add: interface_of_def)

lemma interface_of_write_all: "client_write_all (interface_of T A) ps vs ch = write_all T ps vs ch"
  by (induction vs arbitrary: ps ch) (simp_all split: prod.split option.split)

lemma interface_of_read_all: "client_read_all (interface_of T A) n it ch = read_all n it ch"
  by (induction n arbitrary: it) (simp_all split: prod.split option.split)

lemma read_all_more: "read_all n it ch = Some xs \<Longrightarrow> n \<le> m \<Longrightarrow> read_all m it ch = Some xs"
proof (induction n arbitrary: m it xs)
  case (Suc n)
  then obtain k where m: "m = Suc k" "n \<le> k" by (cases m) auto
  show ?case
  proof (cases "refs_iter_next it ch")
    case (Pair r it')
    show ?thesis
    proof (cases r)
      case (Some x)
      then obtain ys where ys: "read_all n it' ch = Some ys" "xs = x # ys"
        using Suc.prems(1) Pair by auto
      show ?thesis using Suc.IH [OF ys(1) m(2)] m(1) Some Pair ys(2) by simp
    qed (use Suc.prems(1) Pair m(1) in simp)
  qed
qed simp

lemma client_perform_eq:
  assumes "\<And>i limit. call \<noteq> RecvMany i limit"
  shows "client_perform (interface_of T A) call ch = perform T call ch"
proof (cases call)
  case (RecvMany i limit)
  then show ?thesis using assms by blast
qed (simp_all add: interface_of_write_all split: prod.split sum.split option.split)

context topology_contract
begin

text \<open>A batch receive iterates over at most \<open>limit\<close> items.\<close>

lemma client_recv_many:
  assumes inv: "chan_inv cursors ch t P" and i: "receiver_there i (abs_channel cursors ch)"
    and limit: "int limit < 2 ^ 63"
  shows "client_perform (interface_of T A) (RecvMany i limit) ch = perform T (RecvMany i limit) ch"
proof (cases "try_recv_at_most T i limit ch")
  case (Inl e)
  then show ?thesis by simp
next
  case (Inr r)
  obtain a ch' where step: "perform T (RecvMany i limit) ch = (a, ch')" by fastforce
  let ?n = "nat (rrs_end_seq r - rrs_start_seq r + 2)"
  have "a \<noteq> Done"
    using perform_recv_many [OF inv i limit step] i
    by (auto simp: receiver_there_def split: if_splits option.splits list.splits)
  then obtain xs where xs: "read_all ?n (read_refs_iter r) ch = Some xs"
    using step Inr by (auto split: option.splits)
  have "?n \<le> Suc limit"
  proof (cases "limit = 0")
    case True
    then show ?thesis using Inr by (auto simp: try_recv_at_most_def rv_try_recv_at_most_def empty_read_refs_def INIT_def)
  next
    case False
    have "int limit < 2 ^ 63" "1 \<le> int limit" using limit False by simp_all
    then have lim: "usize_as_i64 limit = int limit" "1 \<le> int limit" by (simp_all add: usize_as_i64_id)
    show ?thesis
      using recv_claim_refines [OF inv i lim(2) refl] Inr False lim(1)
      by (auto simp: try_recv_at_most_def rv_try_recv_at_most_def map_error_def split: if_splits)
  qed
  from read_all_more [OF xs this] show ?thesis
    using xs Inr by (simp add: interface_of_read_all del: read_all.simps client_read_all.simps)
qed

lemma client_simulates:
  assumes inv: "chan_inv cursors ch t P" and t: "t < 2 ^ 60" and ok: "call_ok call (abs_channel cursors ch)"
  shows "simulated cursors call ch t (fst (client_perform (interface_of T A) call ch))
    (snd (client_perform (interface_of T A) call ch))"
proof -
  have "client_perform (interface_of T A) call ch = perform T call ch"
  proof (cases "\<exists>i limit. call = RecvMany i limit")
    case True
    then show ?thesis using client_recv_many [OF inv] ok by auto
  next
    case False
    then show ?thesis using client_perform_eq by blast
  qed
  then show ?thesis using perform_simulates [OF inv t ok, of "fst (perform T call ch)"] by simp
qed

end

definition stands_for :: "('g \<Rightarrow> cursor list) \<Rightarrow> ('g, 'a) channel \<Rightarrow> int \<Rightarrow> 'a spec \<Rightarrow> bool" where
  "stands_for cursors ch t s \<longleftrightarrow> (\<exists>P. chan_inv cursors ch t P) \<and> abs_channel cursors ch = s"

context topology_contract
begin

lemma provides_queue: "queue_channel (interface_of T A) (stands_for cursors)"
proof
  fix c t s call
  assume s: "stands_for cursors c t s" and t: "t < (2 :: int) ^ 60" and ok: "call_ok call s"
  from s obtain P where inv: "chan_inv cursors c t P" and abs: "abs_channel cursors c = s"
    by (auto simp: stands_for_def)
  show "\<exists>t' \<le> t + 2 ^ 30.
      stands_for cursors (snd (client_perform (interface_of T A) call c)) t' (snd (spec_perform call s)) \<and>
      fst (client_perform (interface_of T A) call c) = fst (spec_perform call s)"
    using client_simulates [OF inv t, of call A] ok abs by (auto simp: simulated_def stands_for_def)
qed

end

interpretation mpsc_queue: queue_channel "mpsc_interface A" "stands_for (\<lambda>g. [ex_consumed g])"
  for A :: "('w, 't) atomic_waker_methods"
  unfolding mpsc_interface_eq mpsc_topology_def by (rule mpsc_wiring.provides_queue)

interpretation fanout_queue: queue_channel "fanout_interface A" "stands_for fan_consumed"
  for A :: "('w, 't) atomic_waker_methods"
  unfolding fanout_interface_eq fanout_topology_def by (rule fan_wiring.provides_queue)

lemma mpsc_new_stands_for:
  assumes "mpsc_channel_with w cap f = Inr (Some ch)"
  shows "stands_for (\<lambda>g. [ex_consumed g]) ch (- 1) (spec_new 1 cap)"
proof -
  have "validate cap = Inr ()" using assms by (auto simp: mpsc_channel_with_def split: sum.splits)
  then obtain ch0 where "mpsc_channel_with w cap f = Inr (Some ch0)"
    "chan_inv (\<lambda>g. [ex_consumed g]) ch0 (- 1) {}" "abs_channel (\<lambda>g. [ex_consumed g]) ch0 = spec_new 1 cap"
    by (rule mpsc_new)
  then show ?thesis using assms by (auto simp: stands_for_def)
qed

lemma fanout_new_stands_for:
  assumes "fanout_channel_with n w cap f = Inr (Some ch)"
  shows "stands_for fan_consumed ch (- 1) (spec_new n cap)"
proof -
  have "validate cap = Inr ()" using assms by (auto simp: fanout_channel_with_def split: sum.splits)
  then obtain ch0 where "fanout_channel_with n w cap f = Inr (Some ch0)"
    "chan_inv fan_consumed ch0 (- 1) {}" "abs_channel fan_consumed ch0 = spec_new n cap"
    by (rule fanout_new)
  then show ?thesis using assms by (auto simp: stands_for_def)
qed

end
