(* ===== verification/AsyncChannels.thy ===== *)
theory AsyncChannels
  imports Contracts
begin

text \<open>
  The async receives on a whole channel, against the queue specification: while a receiver is polled,
  the other ends make calls, before and after it registers its waker. A poll is ready with the head
  of the receiver's queue, ends the stream when the channel is closed and the queue empty, and is
  pending otherwise, each time in a state of the specification the channel really went through.
\<close>

section \<open>A look at the queue\<close>

text \<open>What a poll is expected to find.\<close>

definition spec_poll :: "nat \<Rightarrow> 'a spec \<Rightarrow> 'a option poll" where
  "spec_poll i s =
     (case queues s ! i of
        Some (x # xs) \<Rightarrow> Ready (Some x)
      | _ \<Rightarrow> if closed s then Ready None else Pending)"

text \<open>What a poll found: the value behind the guard.\<close>

fun poll_value :: "('g, 'a) channel \<Rightarrow> read_ref option poll \<Rightarrow> 'a option poll" where
  "poll_value ch Pending = Pending"
| "poll_value ch (Ready None) = Ready None"
| "poll_value ch (Ready (Some r)) = Ready (Some (ref_deref r ch))"

context topology_contract
begin

lemma look_refines:
  assumes "stands_for cursors ch t s" "receiver_there i s"
  shows "cs_try_claim_at_most max_published 1 (view T i ch) = Inl (if closed s then ClaimShutdown else ClaimEmpty) \<and>
      queues s ! i = Some [] \<or>
    (\<exists>q x xs. cs_try_claim_at_most max_published 1 (view T i ch) = Inr (q, q) \<and> queues s ! i = Some (x # xs) \<and>
      get_ref_at (sd_ring (sender ch)) q = x)"
proof -
  from assms(1) obtain P where inv: "chan_inv cursors ch t P" and abs: "abs_channel cursors ch = s"
    by (auto simp: stands_for_def)
  have i: "receiver_there i (abs_channel cursors ch)" using assms(2) abs by simp
  note R = abs_receiver [OF inv i] and D = pub_invD [OF chan_invD(2) [OF inv]]
  define c f where "c = cursors (gate_of ch) ! i" and "f = frontier t P"
  have size: "min 1 (buffer_size (mp_meta (sd_publisher (sender ch)))) = 1" using D(7) by simp
  note claim = recv_claim_refines [OF inv i _ c_def, of 1, folded f_def, unfolded size abs]
  have q: "queues s ! i = Some (map (get_ref_at (sd_ring (sender ch))) [c + 1..f])"
    using R(3) abs by (simp add: c_def f_def)
  show ?thesis
  proof (cases "f \<le> c")
    case True
    then show ?thesis using claim q by simp
  next
    case False
    then have "[c + 1..f] = (c + 1) # [c + 1 + 1..f]" by (intro upto_step) simp
    then show ?thesis using claim q False by (auto simp: min_absorb2)
  qed
qed

text \<open>Registering a waker changes nothing that the specification sees.\<close>

lemma register_keeps:
  assumes "stands_for cursors ch t s"
  shows "stands_for cursors (register_waker T register i ctx ch) t s"
proof -
  from assms obtain P where inv: "chan_inv cursors ch t P" and abs: "abs_channel cursors ch = s"
    by (auto simp: stands_for_def)
  let ?ch = "register_waker T register i ctx ch"
  have gate: "cursors (gate_of ?ch) = cursors (gate_of ch)"
    by (simp add: register_waker_def cursors_set_waker)
  have "cursors_inv (buffer_size (mp_meta (sd_publisher (sender ch)))) t P (cursors (gate_of ch))"
    using chan_invD(2) [OF inv] by (simp add: pub_inv_def)
  then have "mem_inv cursors (sender ?ch) t P (get_ref_at (sd_ring (sender ch)))"
    unfolding register_waker_def
    using chan_invD(1) [OF inv] by (intro mem_inv_set_gate) (simp_all add: cursors_set_waker)
  moreover have "open_at ?ch t P = open_at ch t P" "closed_at ?ch t P = closed_at ch t P"
    by (simp_all add: register_waker_def open_at_def closed_at_def quiet_def)
  ultimately have inv': "chan_inv cursors ?ch t P" using inv by (simp add: chan_inv_def register_waker_def)
  moreover have "abs_channel cursors ?ch = abs_channel cursors ch"
    using gate chan_invD(3) [OF inv] chan_invD(3) [OF inv'] by (simp add: abs_channel_def) (simp add: register_waker_def)
  ultimately show ?thesis using abs by (auto simp: stands_for_def)
qed

lemma poll_refines:
  assumes s: "stands_for cursors ch t s" "receiver_there i s"
    and later: "stands_for cursors (after (register_waker T register i ctx (before ch))) t2 s2"
    and there: "receiver_there i s2"
    and poll: "recv_async T register before after i ctx ch = (r, ch')"
  shows "poll_value ch' r = spec_poll i (if spec_poll i s \<noteq> Pending then s else s2) \<and>
    abs_channel cursors ch' = (if spec_poll i s \<noteq> Pending then s else s2)"
proof -
  have ready: "ref_deref \<lparr>rr_seq = q, rr_slot = q\<rparr> ch = get_ref_at (sd_ring (sender ch)) q"
    for ch :: "('g, 'a) channel" and q
    by (simp add: ref_deref_def read_ref_deref_def)
  show ?thesis
  proof (cases "spec_poll i s = Pending")
    case False
    have look: "cs_try_claim_at_most max_published 1 (view T i ch) \<noteq> Inl ClaimEmpty"
      using look_refines [OF s] False by (auto simp: spec_poll_def split: if_splits)
    have "ch' = ch \<and> poll_value ch r = spec_poll i s"
      using look_refines [OF s] poll look
      by (auto simp: recv_async_def poll_claim_def spec_poll_def ready split: if_splits)
    then show ?thesis using s(1) False by (simp add: stands_for_def)
  next
    case True
    have look: "cs_try_claim_at_most max_published 1 (view T i ch) = Inl ClaimEmpty"
      using look_refines [OF s] True by (auto simp: spec_poll_def split: if_splits)
    define ch2 where "ch2 = after (register_waker T register i ctx (before ch))"
    have s2: "stands_for cursors ch2 t2 s2" using later by (simp add: ch2_def)
    have "ch' = ch2 \<and> poll_value ch2 r = spec_poll i s2"
      using look_refines [OF s2 there] poll look
      by (auto simp: recv_async_def poll_claim_def spec_poll_def ready Let_def simp flip: ch2_def split: if_splits)
    then show ?thesis using s2 True by (simp add: stands_for_def)
  qed
qed

end

text \<open>The same with the calls of a client before and during the poll.\<close>

context topology_contract
begin

lemma poll_between_calls:
  assumes new: "stands_for cursors ch0 (- 1) s0" and ok: "calls_ok (calls @ before @ after) s0"
    and len: "length (calls @ before @ after) \<le> 2 ^ 30"
    and s: "s = snd (spec_run calls s0)" "s2 = snd (spec_run (calls @ before @ after) s0)"
    and there: "receiver_there i s" "receiver_there i s2"
    and ch: "ch = snd (client_run (interface_of T A) calls ch0)"
    and poll: "recv_async T register (\<lambda>c. snd (client_run (interface_of T A) before c))
      (\<lambda>c. snd (client_run (interface_of T A) after c)) i ctx ch = (r, ch')"
  shows "poll_value ch' r = spec_poll i (if spec_poll i s \<noteq> Pending then s else s2) \<and>
    abs_channel cursors ch' = (if spec_poll i s \<noteq> Pending then s else s2)"
proof -
  note run = queue_channel.run_commutes [OF provides_queue [of A]]
  define s1 where "s1 = snd (spec_run before s)"
  have oks: "calls_ok calls s0" "calls_ok before s" "calls_ok after s1"
    and s2: "s2 = snd (spec_run after s1)"
    using ok by (simp_all add: calls_ok_append spec_run_append s1_def s)
  define L :: "nat \<Rightarrow> int" where "L k = int k * 2 ^ 30" for k
  have lens: "0 \<le> L (length calls)" "0 \<le> L (length before)" "0 \<le> L (length after)" "L (length calls) + L (length before) + L (length after) \<le> 2 ^ 30 * 2 ^ 30"
    using len by (simp_all add: L_def)
  obtain t where t: "stands_for cursors ch t s" "t \<le> - 1 + L (length calls)"
    using run [OF new oks(1)] lens ch s(1) unfolding L_def by auto
  obtain t1 where t1: "stands_for cursors (snd (client_run (interface_of T A) before ch)) t1 s1" "t1 \<le> t + L (length before)"
    using run [OF t(1) oks(2)] t(2) lens unfolding L_def s1_def by auto
  obtain t2 where "stands_for cursors (snd (client_run (interface_of T A) after
      (register_waker T register i ctx (snd (client_run (interface_of T A) before ch))))) t2 s2"
    using run [OF register_keeps [OF t1(1)] oks(3), of register i ctx] t(2) t1(2) lens s2 unfolding L_def by auto
  then show ?thesis by (rule poll_refines [OF t(1) there(1) _ there(2) poll])
qed

end

text \<open>C16: An async receive is a receive of the specification: polled on any fan-out channel, while the
  other ends make calls before and after it registers, it is ready with the head of its receiver's
  queue, ends the stream when the channel is closed and that queue empty, and is pending otherwise, as
  of its first look if that finds something and of its second look if not.\<close>

theorem async_receive_refines:
  assumes "fanout_channel_with n w cap f = Inr (Some new)" and "calls_ok (calls @ before @ after) (spec_new n cap)"
    and "length (calls @ before @ after) \<le> 2 ^ 30"
    and "first = snd (spec_run calls (spec_new n cap))" "second = snd (spec_run (calls @ before @ after) (spec_new n cap))"
    and "receiver_there i first" "receiver_there i second"
    and "rx_recv_async (fanout_receiver A i) (\<lambda>c. snd (client_run (fanout_interface A) before c))
      (\<lambda>c. snd (client_run (fanout_interface A) after c)) ctx (snd (client_run (fanout_interface A) calls new)) = (r, ch)"
  shows "poll_value ch r = spec_poll i (if spec_poll i first \<noteq> Pending then first else second) \<and>
    abs_channel fan_consumed ch = (if spec_poll i first \<noteq> Pending then first else second)"
proof -
  have "recv_async (fanout_topology A) (waker_register A) (\<lambda>c. snd (client_run (interface_of (fanout_topology A) A) before c))
      (\<lambda>c. snd (client_run (interface_of (fanout_topology A) A) after c)) i ctx
      (snd (client_run (interface_of (fanout_topology A) A) calls new)) = (r, ch)"
    using assms(8) by (simp add: fanout_receiver_def fanout_interface_eq)
  from fan_wiring.poll_between_calls [OF fanout_new_stands_for [OF assms(1)] assms(2-7) refl this [unfolded fanout_topology_def]]
  show ?thesis .
qed

theorem async_receive_refines_witness:
  "\<exists>new r ch. fanout_channel_with 1 () 2 (\<lambda>_. 0) = Inr (Some new) \<and>
     rx_recv_async (fanout_receiver no_wakers 0) (\<lambda>c. snd (client_run (fanout_interface no_wakers) [Send (7 :: nat)] c))
       (\<lambda>c. snd (client_run (fanout_interface no_wakers) [] c)) ()
       (snd (client_run (fanout_interface no_wakers) [] new)) = (r, ch) \<and>
     poll_value ch r = Ready (Some 7)"
proof -
  have v: "validate 2 = Inr ()" by code_simp
  obtain new where new: "fanout_channel_with 1 () 2 (\<lambda>_. 0 :: nat) = Inr (Some new)"
    by (rule fanout_new [OF v])
  obtain r ch where poll: "rx_recv_async (fanout_receiver no_wakers 0)
      (\<lambda>c. snd (client_run (fanout_interface no_wakers) [Send (7 :: nat)] c))
      (\<lambda>c. snd (client_run (fanout_interface no_wakers) [] c)) ()
      (snd (client_run (fanout_interface no_wakers) [] new)) = (r, ch)"
    by fastforce
  have "calls_ok ([] @ [Send (7 :: nat)] @ []) (spec_new 1 2)" "length ([] @ [Send (7 :: nat)] @ []) \<le> 2 ^ 30"
    "receiver_there 0 (snd (spec_run [] (spec_new 1 2 :: nat spec)))"
    "receiver_there 0 (snd (spec_run ([] @ [Send (7 :: nat)] @ []) (spec_new 1 2)))"
    by (code_simp, simp, code_simp, code_simp)
  from async_receive_refines [OF new this(1,2) refl refl this(3,4) poll]
  have "poll_value ch r = spec_poll 0 (if spec_poll 0 (snd (spec_run [] (spec_new 1 2 :: nat spec))) \<noteq> Pending
      then snd (spec_run [] (spec_new 1 2)) else snd (spec_run ([] @ [Send (7 :: nat)] @ []) (spec_new 1 2)))"
    by blast
  also have "\<dots> = Ready (Some 7)" by code_simp
  finally show ?thesis using new poll by blast
qed

end
