(* ===== verification/ContractTests.thy ===== *)
theory ContractTests
  imports Contracts
begin

text \<open>
  The repository's contract tests (\<open>src/tests/shared_contract_tests.rs\<close>, \<open>fanout_tests.rs\<close>) as programs
  over the public traits, with the answers they assert: they pass on both channels, whatever the
  initial values and the wakers. Tests that hold a guard across other calls, drop one permit of a
  batch or use two threads at a time are in \<open>GuardTests\<close>.
\<close>

section \<open>The tests\<close>

text \<open>A test: its calls and the answers it asserts, for \<open>n\<close> receivers.\<close>

type_synonym test = "nat call list \<times> nat answer list"

abbreviation CHANNEL_SIZE :: nat where
  "CHANNEL_SIZE \<equiv> 16"

definition back_pressure_applied :: "nat \<Rightarrow> test" where
  "back_pressure_applied n =
     (concat (map (\<lambda>i. [CloneSender, Send i, DropSender]) [0..<CHANNEL_SIZE]) @
        [Send CHANNEL_SIZE, Reserve (Some 0) None, SendMany 5 (Some 0) []] @ map Recv [0..<n] @ [Send CHANNEL_SIZE],
      concat (replicate CHANNEL_SIZE [Done, Sent (Inr ()), Done]) @
        [Sent (Inl (SendFull CHANNEL_SIZE)), Reserved (Inl ReserveFull), SentMany (Inl AtMostFull)] @
        replicate n (Received (Inr 0)) @ [Sent (Inr ())])"

definition empty_channel_recv :: "nat \<Rightarrow> test" where
  "empty_channel_recv n =
     (concat (map (\<lambda>i. [Recv i, RecvMany i 10]) [0..<n]),
      concat (replicate n [Received (Inl RecvEmpty), ReceivedMany (Inl RecvEmpty)]))"

definition ordering_should_be_fifo :: "nat \<Rightarrow> test" where
  "ordering_should_be_fifo n =
     (map Send [0..<CHANNEL_SIZE] @ concat (map (\<lambda>i. replicate CHANNEL_SIZE (Recv i)) [0..<n]),
      replicate CHANNEL_SIZE (Sent (Inr ())) @
        concat (replicate n (map (\<lambda>v. Received (Inr v)) [0..<CHANNEL_SIZE])))"

definition slot_recycler_applied_on_write_permits_drop :: "nat \<Rightarrow> nat \<Rightarrow> nat \<Rightarrow> test" where
  "slot_recycler_applied_on_write_permits_drop magic another n =
     (Reserve (Some magic) None # map Recv [0..<n] @ SendMany CHANNEL_SIZE (Some another) [] #
        map (\<lambda>i. RecvMany i CHANNEL_SIZE) [0..<n],
      Reserved (Inr ()) # replicate n (Received (Inr magic)) @ SentMany (Inr CHANNEL_SIZE) #
        replicate n (ReceivedMany (Inr (replicate CHANNEL_SIZE another))))"

definition drop_all_sender_disconnect_receivers :: "nat \<Rightarrow> test" where
  "drop_all_sender_disconnect_receivers n =
     ([CloneSender, Send 1, DropSender] @ map Recv [0..<n] @ map Recv [0..<n] @ [DropSender] @
        map Recv [0..<n] @ map (\<lambda>i. RecvMany i CHANNEL_SIZE) [0..<n],
      [Done, Sent (Inr ()), Done] @ replicate n (Received (Inr 1)) @ replicate n (Received (Inl RecvEmpty)) @
        [Done] @ replicate n (Received (Inl RecvDisconnected)) @ replicate n (ReceivedMany (Inl RecvDisconnected)))"

definition drop_all_receiver_disconnect_sender :: "nat \<Rightarrow> test" where
  "drop_all_receiver_disconnect_sender n =
     (Send 1 # map DropReceiver [0..<n] @ [Send 2, Reserve (Some 0) None, SendMany CHANNEL_SIZE (Some 0) []],
      Sent (Inr ()) # replicate n Done @
        [Sent (Inl (SendDisconnected 2)), Reserved (Inl ReserveDisconnected), SentMany (Inl AtMostDisconnected)])"

definition try_send_at_most_is_bounded :: test where
  "try_send_at_most_is_bounded =
     ([SendMany 5 (Some 0) [10..<15], SendMany 100 (Some 0) []],
      [SentMany (Inr 5), SentMany (Inr (CHANNEL_SIZE - 5))])"

definition try_recv_at_most_is_bounded :: "nat \<Rightarrow> test" where
  "try_recv_at_most_is_bounded n =
     (SendMany 100 (Some 0) [0..<CHANNEL_SIZE] # map (\<lambda>i. RecvMany i 10) [0..<n] @ map (\<lambda>i. RecvMany i 100) [0..<n],
      SentMany (Inr CHANNEL_SIZE) # replicate n (ReceivedMany (Inr [0..<10])) @
        replicate n (ReceivedMany (Inr [10..<CHANNEL_SIZE])))"

definition try_send_at_most_with_zero_limit :: "nat \<Rightarrow> test" where
  "try_send_at_most_with_zero_limit n =
     (SendMany 0 (Some 0) [] # map Recv [0..<n], SentMany (Inr 0) # replicate n (Received (Inl RecvEmpty)))"

definition try_recv_at_most_with_zero_limit :: "nat \<Rightarrow> test" where
  "try_recv_at_most_with_zero_limit n =
     (Send 1 # map (\<lambda>i. RecvMany i 0) [0..<n], Sent (Inr ()) # replicate n (ReceivedMany (Inr [])))"

text \<open>The causes \<open>WritePermit\<close> and \<open>WritePermitsCommit\<close>; the panicking thread drops its clone.\<close>

definition write_permit_panic_should_shutdown_channel :: "nat \<Rightarrow> test list" where
  "write_permit_panic_should_shutdown_channel n =
     map (\<lambda>(call, answer). ([CloneSender, call, DropSender, Reserve (Some 0) None] @ map Recv [0..<n],
        [Done, answer, Done, Reserved (Inl ReserveDisconnected)] @ replicate n (Received (Inl RecvDisconnected))))
       [(Reserve None None, Reserved (Inr ())), (SendMany 10 None [], SentMany (Inr 10))]"

definition shared_tests :: "nat \<Rightarrow> nat \<Rightarrow> nat \<Rightarrow> test list" where
  "shared_tests magic another n =
     [back_pressure_applied n, empty_channel_recv n, ordering_should_be_fifo n,
      slot_recycler_applied_on_write_permits_drop magic another n, drop_all_sender_disconnect_receivers n,
      drop_all_receiver_disconnect_sender n, try_send_at_most_is_bounded, try_recv_at_most_is_bounded n,
      try_send_at_most_with_zero_limit n, try_recv_at_most_with_zero_limit n] @
     write_permit_panic_should_shutdown_channel n"

definition producer_block_by_slowest_receiver :: test where
  "producer_block_by_slowest_receiver =
     ([SendMany CHANNEL_SIZE (Some 0) [0..<CHANNEL_SIZE], Send CHANNEL_SIZE, RecvMany 0 CHANNEL_SIZE,
       RecvMany 1 CHANNEL_SIZE, Send CHANNEL_SIZE, RecvMany 2 CHANNEL_SIZE, Send CHANNEL_SIZE],
      [SentMany (Inr CHANNEL_SIZE), Sent (Inl (SendFull CHANNEL_SIZE)), ReceivedMany (Inr [0..<CHANNEL_SIZE]),
       ReceivedMany (Inr [0..<CHANNEL_SIZE]), Sent (Inl (SendFull CHANNEL_SIZE)),
       ReceivedMany (Inr [0..<CHANNEL_SIZE]), Sent (Inr ())])"

definition partial_receivers_disconnect_will_not_block_others :: "nat \<Rightarrow> test" where
  "partial_receivers_disconnect_will_not_block_others magic =
     ([DropReceiver 0, SendMany CHANNEL_SIZE (Some magic) [0..<CHANNEL_SIZE], RecvMany 2 CHANNEL_SIZE,
       DropReceiver 1, SendMany CHANNEL_SIZE (Some magic) []],
      [Done, SentMany (Inr CHANNEL_SIZE), ReceivedMany (Inr [0..<CHANNEL_SIZE]), Done, SentMany (Inr CHANNEL_SIZE)])"

definition fanout_tests :: "nat \<Rightarrow> test list" where
  "fanout_tests magic = [producer_block_by_slowest_receiver, partial_receivers_disconnect_will_not_block_others magic]"

section \<open>The tests pass\<close>

text \<open>What the specification says of a test.\<close>

definition spec_passes :: "nat \<Rightarrow> test \<Rightarrow> bool" where
  "spec_passes n t \<longleftrightarrow> calls_ok (fst t) (spec_new n CHANNEL_SIZE) \<and> length (fst t) \<le> 100 \<and>
     fst (spec_run (fst t) (spec_new n CHANNEL_SIZE)) = snd t"

lemma spec_passes_mpsc: "list_all (spec_passes 1) (shared_tests magic another 1)"
  by code_simp

lemma spec_passes_fanout: "list_all (spec_passes 3) (shared_tests magic another 3 @ fanout_tests magic)"
  by code_simp

text \<open>A test passes on an implementation whose new channel is \<open>c\<close>.\<close>

definition test_passes where
  "test_passes I c t \<longleftrightarrow> fst (client_run I (fst t) c) = snd t"

lemma spec_passes_runs:
  assumes "\<And>calls. calls_ok calls (spec_new n CHANNEL_SIZE) \<Longrightarrow> length calls \<le> 2 ^ 30 \<Longrightarrow>
      fst (client_run I calls c) = fst (spec_run calls (spec_new n CHANNEL_SIZE))"
    and "list_all (spec_passes n) ts"
  shows "list_all (test_passes I c) ts"
  unfolding list_all_iff
proof
  fix t assume "t \<in> set ts"
  then have t: "calls_ok (fst t) (spec_new n CHANNEL_SIZE)" "length (fst t) \<le> 100"
    "fst (spec_run (fst t) (spec_new n CHANNEL_SIZE)) = snd t"
    using assms(2) unfolding list_all_iff spec_passes_def by blast+
  have "length (fst t) \<le> 2 ^ 30" by (rule order_trans [OF t(2)]) simp
  from assms(1) [OF t(1) this] t(3) show "test_passes I c t" unfolding test_passes_def by (rule trans)
qed

text \<open>The test of the sizes, on the four constructors.\<close>

definition invalid_channel_size_should_fail :: "usize \<Rightarrow> invalid_channel_size \<Rightarrow> bool" where
  "invalid_channel_size_should_fail channel_size err \<longleftrightarrow>
     mpsc_channel () (0 :: nat) channel_size = Inl err \<and> mpsc_channel_with () channel_size (\<lambda>_. 0 :: nat) = Inl err \<and>
     fanout_channel 2 () (0 :: nat) channel_size = Inl err \<and>
     fanout_channel_with 2 () channel_size (\<lambda>_. 0 :: nat) = Inl err"

lemma invalid_channel_sizes:
  "list_all (\<lambda>(channel_size, err). invalid_channel_size_should_fail channel_size err)
     [(0, NotAPowerOfTwo), (3, NotAPowerOfTwo), (18446744073709551615, TooLarge)]"
proof -
  have "validate 0 = Inl NotAPowerOfTwo" "validate 3 = Inl NotAPowerOfTwo"
    by code_simp+
  moreover have "validate 18446744073709551615 = Inl TooLarge"
    by (simp add: validate_def MAX_CHANNEL_SIZE_def)
  ultimately show ?thesis
    by (simp add: invalid_channel_size_should_fail_def mpsc_channel_def mpsc_channel_with_def fanout_channel_def
        fanout_channel_with_def)
qed

text \<open>C40: The contract tests pass on both channels.\<close>

theorem contract_tests_pass:
  assumes "mpsc_channel_with w CHANNEL_SIZE f = Inr (Some one)"
    and "fanout_channel_with 3 w CHANNEL_SIZE f = Inr (Some three)"
  shows "list_all (test_passes (mpsc_interface A) one) (shared_tests magic another 1) \<and>
    list_all (test_passes (fanout_interface A) three) (shared_tests magic another 3 @ fanout_tests magic)"
  using spec_passes_runs [OF mpsc_queue.answers [OF mpsc_new_stands_for [OF assms(1)]] spec_passes_mpsc]
    spec_passes_runs [OF fanout_queue.answers [OF fanout_new_stands_for [OF assms(2)]] spec_passes_fanout]
  by blast

theorem contract_tests_pass_witness:
  "\<exists>one. mpsc_channel_with () CHANNEL_SIZE (\<lambda>_. 0) = Inr (Some one) \<and>
     test_passes (mpsc_interface no_wakers) one (ordering_should_be_fifo 1)"
proof -
  have v: "validate CHANNEL_SIZE = Inr ()" by code_simp
  obtain one where one: "mpsc_channel_with () CHANNEL_SIZE (\<lambda>_. 0 :: nat) = Inr (Some one)"
    by (rule mpsc_new [OF v])
  obtain three where "fanout_channel_with 3 () CHANNEL_SIZE (\<lambda>_. 0 :: nat) = Inr (Some three)"
    by (rule fanout_new [OF v])
  from contract_tests_pass [OF one this, of no_wakers] have
    "test_passes (mpsc_interface no_wakers) one (ordering_should_be_fifo 1)"
    unfolding shared_tests_def by simp
  then show ?thesis using one by blast
qed

end
