(* ===== verification/GuardTests.thy ===== *)
theory GuardTests
  imports Protocol
begin

text \<open>
  The contract tests that hold a guard across other calls, drop one permit of a batch or use two
  threads (\<open>src/tests/shared_contract_tests.rs\<close>), as scripts of the interleaved protocol on sixteen
  slots: accesses, with what the test asserts between them. Two threads between two assertions run
  in every order.
\<close>

section \<open>Calls as accesses\<close>

text \<open>The calls of context \<open>i\<close> with \<open>n\<close> receivers and their accesses: a claim that succeeds, one that
  finds the ring full, one that finds the channel closed, a commit, the close of a channel of which
  \<open>p\<close> claimed items are published, and a receive that finds \<open>k\<close> items and stops at the next.\<close>

definition reserves :: "nat \<Rightarrow> nat \<Rightarrow> nat \<Rightarrow> nat action list" where
  "reserves n i limit = BeginClaim i (int limit) # replicate (n + 3) (SenderStep i)"

definition refused_full :: "nat \<Rightarrow> nat \<Rightarrow> nat action list" where
  "refused_full n i = BeginClaim i 1 # replicate (n + 2) (SenderStep i)"

definition refused_closed :: "nat \<Rightarrow> nat action list" where
  "refused_closed i = [BeginClaim i 1, SenderStep i]"

definition writes :: "nat \<Rightarrow> nat \<Rightarrow> nat list \<Rightarrow> nat action list" where
  "writes i s vs = map (\<lambda>k. Write i (int (s + k)) (vs ! k)) [0..<length vs]"

definition commits :: "nat \<Rightarrow> nat \<Rightarrow> nat action list" where
  "commits i count = Commit i # replicate (Suc count) (SenderStep i)"

definition sends :: "nat \<Rightarrow> nat \<Rightarrow> nat \<Rightarrow> nat \<Rightarrow> nat action list" where
  "sends n i s v = reserves n i 1 @ writes i s [v] @ commits i 1"

definition closes :: "nat \<Rightarrow> nat \<Rightarrow> nat action list" where
  "closes i p = replicate (p + 4) (SenderStep i)"

definition looks :: "nat \<Rightarrow> nat \<Rightarrow> nat \<Rightarrow> nat action list" where
  "looks limit k j = BeginRecv j (int limit) # replicate (Suc k) (ReceiverStep j)"

section \<open>Scripts\<close>

text \<open>What a test asserts: a claim's answer, and what a receiver was given.\<close>

datatype assertion =
    SenderAt nat sender_pc
  | Holds nat "nat list"
  | Told nat try_claim_error

fun asserted :: "nat world \<Rightarrow> assertion \<Rightarrow> bool" where
  "asserted w (SenderAt i pc) \<longleftrightarrow> w_senders w ! i = pc"
| "asserted w (Holds j vs) \<longleftrightarrow>
     (case w_receivers w ! j of RHold a b \<Rightarrow> map (get_ref_at (w_ring w)) [a..b] = vs | _ \<Rightarrow> False)"
| "asserted w (Told j e) \<longleftrightarrow> w_receivers w ! j = RIdle (Some e)"

text \<open>A phase: the accesses of two threads, and what is asserted when both are done.\<close>

type_synonym phase = "nat action list \<times> nat action list \<times> assertion list"

text \<open>Every interleaving of the two lists can be executed and leads to \<open>P\<close>.\<close>

function every_order :: "nat action list \<Rightarrow> nat action list \<Rightarrow> (nat world \<Rightarrow> bool) \<Rightarrow> nat world \<Rightarrow> bool" where
  "every_order [] [] P w \<longleftrightarrow> P w"
| "every_order (x # xs) [] P w \<longleftrightarrow> (case step x w of Some w' \<Rightarrow> every_order xs [] P w' | None \<Rightarrow> False)"
| "every_order [] (y # ys) P w \<longleftrightarrow> (case step y w of Some w' \<Rightarrow> every_order [] ys P w' | None \<Rightarrow> False)"
| "every_order (x # xs) (y # ys) P w \<longleftrightarrow>
     (case step x w of Some w' \<Rightarrow> every_order xs (y # ys) P w' | None \<Rightarrow> False) \<and>
     (case step y w of Some w' \<Rightarrow> every_order (x # xs) ys P w' | None \<Rightarrow> False)"
  by pat_completeness auto
termination by (relation "measure (\<lambda>(xs, ys, P, w). length xs + length ys)") auto

text \<open>These are the orders of \<open>shuffles\<close>, the interleavings of two lists.\<close>

definition go :: "nat action \<Rightarrow> nat world option \<Rightarrow> nat world option" where
  "go act w = (case w of Some w' \<Rightarrow> step act w' | None \<Rightarrow> None)"

lemma go_simps [simp]: "go act None = None" "go act (Some w) = step act w"
  by (simp_all add: go_def)

lemma fold_go_None [simp]: "fold go acts None = None"
  by (induction acts) simp_all

lemma every_order_shuffles:
  "every_order xs ys P w \<longleftrightarrow> (\<forall>acts \<in> shuffles xs ys. \<exists>w'. fold go acts (Some w) = Some w' \<and> P w')"
proof (induction xs ys P w rule: every_order.induct)
  case (4 x xs y ys P w)
  have first: "(case step z w of Some w' \<Rightarrow> Q w' | None \<Rightarrow> False) \<longleftrightarrow>
      (\<forall>acts \<in> (#) z ` A. \<exists>w'. fold go acts (Some w) = Some w' \<and> P w')"
    if "\<And>w'. step z w = Some w' \<Longrightarrow> Q w' \<longleftrightarrow> (\<forall>acts \<in> A. \<exists>w''. fold go acts (Some w') = Some w'' \<and> P w'')"
      and "A \<noteq> {}" for z Q A
    using that by (cases "step z w") auto
  have ne: "shuffles as bs \<noteq> {}" for as bs :: "nat action list"
    by (induction as bs rule: shuffles.induct) auto
  show ?case
    unfolding every_order.simps shuffles.simps ball_Un by (intro arg_cong2 [of _ _ _ _ "(\<and>)"] first 4 ne)
qed (auto split: option.splits)

fun script_passes :: "phase list \<Rightarrow> nat world \<Rightarrow> bool" where
  "script_passes [] w \<longleftrightarrow> True"
| "script_passes ((xs, ys, as) # phases) w \<longleftrightarrow>
     every_order xs ys (\<lambda>w'. list_all (asserted w') as \<and> script_passes phases w') w"

text \<open>One thread alone.\<close>

definition alone :: "nat action list \<Rightarrow> assertion list \<Rightarrow> phase" where
  "alone acts as = (acts, [], as)"

definition each :: "nat \<Rightarrow> (nat \<Rightarrow> nat action list) \<Rightarrow> (nat \<Rightarrow> assertion) \<Rightarrow> phase list" where
  "each n acts a = map (\<lambda>j. alone (acts j) [a j]) [0..<n]"

definition test_world :: "nat \<Rightarrow> nat world" where
  "test_world n = world_new \<lparr>slots = replicate 16 0, rb_meta = \<lparr>index_mask = 15, buffer_size = 16\<rparr>\<rparr> n"

section \<open>The tests\<close>

text \<open>The guards of all receivers are held while the sender tries.\<close>

definition read_refs_block_sender_until_commit :: "nat \<Rightarrow> phase list" where
  "read_refs_block_sender_until_commit n =
     [alone (reserves n 0 16 @ writes 0 0 [0..<16] @ commits 0 16) []] @
     each n (looks 1 1) (\<lambda>j. Holds j [0]) @
     [alone (refused_full n 0) [SenderAt 0 (SIdle (Some ClaimEmpty))],
      alone (map Release [0..<n] @ sends n 0 16 16) [SenderAt 0 (SIdle None)]] @
     each n (looks 16 16) (\<lambda>j. Holds j [1..<17]) @
     [alone (refused_full n 0) [SenderAt 0 (SIdle (Some ClaimEmpty))],
      alone (map Release [0..<n] @ sends n 0 17 17) [SenderAt 0 (SIdle None)]]"

text \<open>The permits of a batch are all written before the receivers look, and committed after.\<close>

definition uncommitted_permits_will_not_be_recv :: "nat \<Rightarrow> phase list" where
  "uncommitted_permits_will_not_be_recv n =
     [alone (reserves n 0 100) [SenderAt 0 (SOwn 0 15)], alone (writes 0 0 [0..<16]) []] @
     each n (looks 100 0) (\<lambda>j. Told j ClaimEmpty) @
     [alone (commits 0 16) [SenderAt 0 (SIdle None)]] @
     each n (looks 100 16) (\<lambda>j. Holds j [0..<16])"

text \<open>The cause \<open>WritePermitsSlot\<close>: the recycler of one permit of a batch panics, and that of the batch
  when its drop recycles the rest.\<close>

definition write_permits_slot_panic_should_shutdown_channel :: "nat \<Rightarrow> phase list" where
  "write_permits_slot_panic_should_shutdown_channel n =
     [alone (CloneSenderCtx 0 # reserves n 1 10) [SenderAt 1 (SOwn 0 9)],
      alone (PanickedBatchPermit 1 # closes 1 0) [SenderAt 1 (SOwn 0 9)],
      alone (PanickedDrop 1 # closes 1 0 @ [DropSenderCtx 1]) [SenderAt 1 SGone],
      alone (refused_closed 0) [SenderAt 0 (SIdle (Some ClaimShutdown))]] @
     each n (looks 1 0) (\<lambda>j. Told j ClaimShutdown)"

text \<open>The recycler of one permit of the batch panics, and that of its drop at the end of the thread.\<close>

definition panic_allow_receiver_drain_already_published :: "nat \<Rightarrow> phase list" where
  "panic_allow_receiver_drain_already_published n =
     [alone (concat (map (\<lambda>i. sends n 0 (i - 1) i) [1..<5]) @ CloneSenderCtx 0 # reserves n 1 16) [SenderAt 1 (SOwn 4 15)],
      alone (PanickedBatchPermit 1 # closes 1 4) [SenderAt 1 (SOwn 4 15)],
      alone (PanickedDrop 1 # closes 1 4 @ [DropSenderCtx 1]) [SenderAt 1 SGone]] @
     concat (map (\<lambda>j.
       [alone (looks 1 1 j) [Holds j [1]], alone (Release j # looks 1 1 j) [Holds j [2]],
        alone (Release j # looks 10 2 j) [Holds j [3, 4]],
        alone (Release j # looks 1 0 j) [Told j ClaimShutdown], alone (looks 10 0 j) [Told j ClaimShutdown]]) [0..<n])"

text \<open>The panicking commit of one thread against the commit of the later range by another.\<close>

definition panic_will_prevent_subsequent_receiving :: "nat \<Rightarrow> phase list" where
  "panic_will_prevent_subsequent_receiving n =
     [alone (CloneSenderCtx 0 # reserves n 1 5) [SenderAt 1 (SOwn 0 4)],
      alone (reserves n 0 5) [SenderAt 0 (SOwn 5 9)],
      (PanickedDrop 1 # closes 1 0 @ [DropSenderCtx 1], writes 0 5 [0..<5] @ commits 0 5,
        [SenderAt 0 (SIdle None), SenderAt 1 SGone]),
      alone (refused_closed 0) [SenderAt 0 (SIdle (Some ClaimShutdown))]] @
     each n (looks 1 0) (\<lambda>j. Told j ClaimShutdown)"


definition guard_tests :: "nat \<Rightarrow> phase list list" where
  "guard_tests n =
     [read_refs_block_sender_until_commit n, uncommitted_permits_will_not_be_recv n,
      write_permits_slot_panic_should_shutdown_channel n, panic_allow_receiver_drain_already_published n,
      panic_will_prevent_subsequent_receiving n]"

section \<open>Evaluation\<close>

text \<open>Orders of accesses that lead to the same world are followed once: a row holds, for every
  suffix of \<open>ys\<close>, the worlds in which the second thread has that suffix left (\<open>None\<close>: an access
  that could not be executed).\<close>

fun sweep :: "nat action list \<Rightarrow> nat world option list list \<Rightarrow> nat world option list \<Rightarrow> nat world option list list" where
  "sweep _ [] _ = []"
| "sweep [] (b # _) cur = [remdups (b @ cur)]"
| "sweep (y # ys) (b # bs) cur = (let here = remdups (b @ cur) in here # sweep ys bs (map (go y) here))"

fun last_worlds :: "nat action list \<Rightarrow> nat action list \<Rightarrow> nat world option list list \<Rightarrow> nat world option list" where
  "last_worlds [] _ row = last row"
| "last_worlds (x # xs) ys row = last_worlds xs ys (sweep ys (map (map (go x)) row) [])"

definition first_row :: "nat action list \<Rightarrow> nat world \<Rightarrow> nat world option list list" where
  "first_row ys w = sweep ys ([Some w] # replicate (length ys) []) []"

definition succeeds :: "assertion list \<Rightarrow> (nat world \<Rightarrow> bool) \<Rightarrow> nat world option \<Rightarrow> bool" where
  "succeeds as P r \<longleftrightarrow> (case r of Some w \<Rightarrow> list_all (asserted w) as \<and> P w | None \<Rightarrow> False)"

fun script_checks :: "phase list \<Rightarrow> nat world \<Rightarrow> bool" where
  "script_checks [] w \<longleftrightarrow> True"
| "script_checks ((xs, [], as) # phases) w \<longleftrightarrow> succeeds as (script_checks phases) (fold go xs (Some w))"
| "script_checks ((xs, y # ys, as) # phases) w \<longleftrightarrow>
     list_all (succeeds as (script_checks phases)) (last_worlds xs (y # ys) (first_row (y # ys) w))"

text \<open>A row is closed when the second thread's next access leads into its next entry.\<close>

fun row_closed :: "nat action list \<Rightarrow> nat world option list list \<Rightarrow> bool" where
  "row_closed [] row \<longleftrightarrow> length row = 1"
| "row_closed (y # ys) row \<longleftrightarrow>
     (\<exists>b b' bs. row = b # b' # bs \<and> go y ` set b \<subseteq> set b' \<and> row_closed ys (b' # bs))"

lemma sweep_row:
  "length row = Suc (length ys) \<Longrightarrow>
     row_closed ys (sweep ys row cur) \<and> set (hd row) \<union> set cur = set (hd (sweep ys row cur)) \<and>
     list_all2 (\<lambda>b b'. set b \<subseteq> set b') row (sweep ys row cur)"
proof (induction ys row cur rule: sweep.induct)
  case (3 y ys b bs cur)
  let ?here = "remdups (b @ cur)"
  have IH: "row_closed ys (sweep ys bs (map (go y) ?here))"
    "set (hd bs) \<union> go y ` set ?here = set (hd (sweep ys bs (map (go y) ?here)))"
    "list_all2 (\<lambda>b b'. set b \<subseteq> set b') bs (sweep ys bs (map (go y) ?here))"
    using 3 by auto
  have "length bs = Suc (length ys)" using "3.prems" by simp
  then obtain c cs where cs: "sweep ys bs (map (go y) ?here) = c # cs"
    using list_all2_lengthD [OF IH(3)] by (metis length_Suc_conv)
  have "go y ` set ?here \<subseteq> set c" using IH(2) cs by auto
  then show ?case using IH cs by (auto simp: Let_def)
qed auto

fun leads :: "nat action list \<Rightarrow> nat action list \<Rightarrow> (nat world \<Rightarrow> bool) \<Rightarrow> nat world option \<Rightarrow> bool" where
  "leads xs ys P None \<longleftrightarrow> False"
| "leads xs ys P (Some w) \<longleftrightarrow> every_order xs ys P w"

lemma leads_step:
  "leads (x # xs) [] P r \<longleftrightarrow> leads xs [] P (go x r)"
  "leads [] (y # ys) P r \<longleftrightarrow> leads [] ys P (go y r)"
  "leads (x # xs) (y # ys) P r \<longleftrightarrow> leads xs (y # ys) P (go x r) \<and> leads (x # xs) ys P (go y r)"
  by (cases r; simp split: option.splits)+

text \<open>The suffixes of \<open>ys\<close> and the row's entries side by side.\<close>

fun row_leads :: "nat action list \<Rightarrow> nat action list \<Rightarrow> (nat world \<Rightarrow> bool) \<Rightarrow> nat world option list list \<Rightarrow> bool" where
  "row_leads xs ys P [] \<longleftrightarrow> True"
| "row_leads xs ys P (b # bs) \<longleftrightarrow> list_all (leads xs ys P) b \<and> row_leads xs (tl ys) P bs"

lemma row_leads_end:
  "row_closed ys row \<Longrightarrow> list_all (leads [] [] P) (last row) \<Longrightarrow> row_leads [] ys P row"
proof (induction ys arbitrary: row)
  case (Cons y ys)
  then obtain b b' bs where row: "row = b # b' # bs" "go y ` set b \<subseteq> set b'" "row_closed ys (b' # bs)" by auto
  have IH: "row_leads [] ys P (b' # bs)" by (rule Cons.IH [OF row(3)]) (use Cons.prems(2) row(1) in simp)
  then have "list_all (leads [] (y # ys) P) b" using row(2) by (auto simp: leads_step list_all_iff)
  then show ?case using IH row(1) by simp
qed (auto simp: length_Suc_conv)

lemma row_leads_step:
  "row_closed ys row \<Longrightarrow> list_all2 (\<lambda>b b'. go x ` set b \<subseteq> set b') row row' \<Longrightarrow> row_leads xs ys P row' \<Longrightarrow>
     row_leads (x # xs) ys P row"
proof (induction ys arbitrary: row row')
  case Nil
  then obtain b where row: "row = [b]" by (auto simp: length_Suc_conv)
  then obtain b' where "row' = [b']" "go x ` set b \<subseteq> set b'" using Nil by (auto simp: list_all2_Cons1)
  then show ?case using Nil row by (auto simp: leads_step list_all_iff)
next
  case (Cons y ys)
  then obtain b b' bs where row: "row = b # b' # bs" "go y ` set b \<subseteq> set b'" "row_closed ys (b' # bs)" by auto
  then obtain c cs where row': "row' = c # cs" "go x ` set b \<subseteq> set c"
    "list_all2 (\<lambda>b b'. go x ` set b \<subseteq> set b') (b' # bs) cs" using Cons.prems by (auto simp: list_all2_Cons1)
  have cs: "list_all (leads xs (y # ys) P) c" "row_leads xs ys P cs" using Cons.prems row'(1) by auto
  have IH: "row_leads (x # xs) ys P (b' # bs)" using Cons.IH [OF row(3) row'(3) cs(2)] .
  then have "list_all (leads (x # xs) (y # ys) P) b" using row(2) row'(2) cs(1)
    by (auto simp: leads_step list_all_iff)
  then show ?case using IH row(1) by simp
qed

lemma row_closed_length: "row_closed ys row \<Longrightarrow> length row = Suc (length ys)"
proof (induction ys arbitrary: row)
  case (Cons y ys)
  then obtain b b' bs where "row = b # b' # bs" "row_closed ys (b' # bs)" by auto
  then show ?case using Cons.IH [of "b' # bs"] by simp
qed simp

lemma last_worlds_leads:
  "row_closed ys row \<Longrightarrow> list_all (leads [] [] P) (last_worlds xs ys row) \<Longrightarrow> row_leads xs ys P row"
proof (induction xs arbitrary: row)
  case (Cons x xs)
  let ?row = "sweep ys (map (map (go x)) row) []"
  have s: "row_closed ys ?row" "list_all2 (\<lambda>b b'. set b \<subseteq> set b') (map (map (go x)) row) ?row"
    using sweep_row [of "map (map (go x)) row" ys "[]"] row_closed_length [OF Cons.prems(1)] by auto
  have "row_leads xs ys P ?row" using Cons.IH [OF s(1)] Cons.prems(2) by simp
  moreover have "list_all2 (\<lambda>b b'. go x ` set b \<subseteq> set b') row ?row" using s(2) by (simp add: list_all2_map1)
  ultimately show ?case using row_leads_step Cons.prems(1) by blast
qed (simp add: row_leads_end)

lemma last_worlds_every_order:
  assumes "list_all (leads [] [] P) (last_worlds xs ys (first_row ys w))"
  shows "every_order xs ys P w"
proof -
  let ?row = "[Some w] # replicate (length ys) []"
  have s: "row_closed ys (first_row ys w)" "list_all2 (\<lambda>b b'. set b \<subseteq> set b') ?row (first_row ys w)"
    using sweep_row [of ?row ys "[]"] by (auto simp: first_row_def)
  obtain b bs where b: "first_row ys w = b # bs" "Some w \<in> set b" using s(2) by (auto simp: list_all2_Cons1)
  have "row_leads xs ys P (first_row ys w)" by (rule last_worlds_leads [OF s(1) assms])
  then have "leads xs ys P (Some w)" using b by (auto simp: list_all_iff)
  then show ?thesis by simp
qed

lemma leads_succeeds: "leads [] [] (\<lambda>w. list_all (asserted w) as \<and> P w) = succeeds as P"
  by (rule ext) (simp add: succeeds_def split: option.split)

lemma every_order_mono: "(\<And>w. P w \<Longrightarrow> Q w) \<Longrightarrow> every_order xs ys P w \<Longrightarrow> every_order xs ys Q w"
  by (induction xs ys P w rule: every_order.induct) (auto split: option.splits)

lemma leads_alone: "leads xs [] P r \<longleftrightarrow> leads [] [] P (fold go xs r)"
  by (induction xs arbitrary: r) (simp_all add: leads_step)

lemma script_checks_every_order:
  assumes "script_checks ((xs, ys, as) # phases) w"
  shows "every_order xs ys (\<lambda>w'. list_all (asserted w') as \<and> script_checks phases w') w"
proof (cases ys)
  case Nil
  then show ?thesis
    using assms leads_alone [of xs "\<lambda>w'. list_all (asserted w') as \<and> script_checks phases w'" "Some w"]
    by (simp add: leads_succeeds)
next
  case (Cons y zs)
  show ?thesis by (rule last_worlds_every_order) (use assms Cons in \<open>simp add: leads_succeeds\<close>)
qed

lemma script_checks_passes: "script_checks phases w \<Longrightarrow> script_passes phases w"
proof (induction phases arbitrary: w)
  case (Cons phase phases)
  obtain xs ys as where p: "phase = (xs, ys, as)" by (cases phase)
  show ?case
    unfolding p script_passes.simps
    by (rule every_order_mono [OF _ script_checks_every_order [OF Cons.prems [unfolded p]]]) (use Cons.IH in blast)
qed simp

section \<open>The tests pass\<close>

lemma guard_tests_check_mpsc: "list_all (\<lambda>test. script_checks test (test_world 1)) (guard_tests 1)"
  by code_simp

lemma guard_tests_check_fanout:
  "script_checks (read_refs_block_sender_until_commit 3) (test_world 3)"
  "script_checks (uncommitted_permits_will_not_be_recv 3) (test_world 3)"
  "script_checks (write_permits_slot_panic_should_shutdown_channel 3) (test_world 3)"
  "script_checks (panic_allow_receiver_drain_already_published 3) (test_world 3)"
  "script_checks (panic_will_prevent_subsequent_receiving 3) (test_world 3)"
  by code_simp+

text \<open>The tests pass with one receiver and with three.\<close>

theorem guard_tests_pass:
  "list_all (\<lambda>test. script_passes test (test_world 1)) (guard_tests 1) \<and>
   list_all (\<lambda>test. script_passes test (test_world 3)) (guard_tests 3)"
proof
  show "list_all (\<lambda>test. script_passes test (test_world 1)) (guard_tests 1)"
    using guard_tests_check_mpsc by (rule list.pred_mono_strong) (rule script_checks_passes)
  have "list_all (\<lambda>test. script_checks test (test_world 3)) (guard_tests 3)"
    using guard_tests_check_fanout by (simp add: guard_tests_def del: script_checks.simps)
  then show "list_all (\<lambda>test. script_passes test (test_world 3)) (guard_tests 3)"
    by (rule list.pred_mono_strong) (rule script_checks_passes)
qed

end
