(* ===== verification/Divergences.thy ===== *)
theory Divergences
  imports EndProperties
begin

text \<open>
  States in which the code does not do what its comments and its documentation promise: a
  limit of \<open>usize::MAX\<close>, a commit after a shutdown, and two guards of one receiver at a time. The
  sequential specification excludes them (limits below \<open>2 ^ 63\<close>, one reservation and one guard at a
  time).
\<close>

section \<open>A limit beyond \<open>i64\<close>\<close>

abbreviation usize_MAX :: usize where
  "usize_MAX \<equiv> 18446744073709551615"

lemma usize_MAX_cast: "usize_as_i64 usize_MAX = - 1"
  by (simp add: usize_as_i64_def wrap64_def)

text \<open>C35: A batch receive with the limit \<open>usize::MAX\<close> - "everything there is" - casts it to \<open>-1\<close> and
  never gets anything, however many items are waiting.\<close>

theorem unlimited_receive_gets_nothing:
  assumes "- 1 \<le> consumed c" "consumed c < 2 ^ 61" "meta_ok (cs_meta c)"
  shows "rv_try_recv_at_most 18446744073709551615 c = Inl RecvEmpty"
proof -
  have add: "seq_add (consumed c) 1 = consumed c + 1" "seq_add (consumed c) (- 1) = consumed c - 1"
    using assms(1,2) by simp_all
  have n: "min (- 1) (buffer_size (cs_meta c)) = - 1" using assms(3) by (simp add: meta_ok_def)
  have "max_published (producer_gate c) (consumed c + 1) (consumed c - 1) = \<lparr>ss_seq = consumed c, ss_shutdown = False\<rparr>"
    using assms(1,2) by (simp add: max_published_def scan_available_until_def)
  then have "cs_try_claim_at_most max_published (- 1) c = Inl ClaimEmpty"
    by (simp add: cs_try_claim_at_most_def cursor_load_def add n Let_def)
  then show ?thesis by (simp add: rv_try_recv_at_most_def usize_MAX_cast)
qed

text \<open>The channel of the examples, with one receiver and four slots.\<close>

definition start4 :: "(unit fanout_gate, nat) channel" where
  "start4 = fanout_channel_with_ring 1 () \<lparr>slots = [0, 0, 0, 0], rb_meta = \<lparr>index_mask = 3, buffer_size = 4\<rparr>\<rparr>"

lemma start4_new: "fanout_channel_with 1 () 4 (\<lambda>_. 0) = Inr (Some start4)"
  by code_simp

definition filled4 :: "(unit fanout_gate, nat) channel" where
  "filled4 = snd (run (fanout id) [Send 7, Send 8] start4)"

theorem unlimited_receive_gets_nothing_witness:
  "try_recv_at_most (fanout id) 0 18446744073709551615 filled4 = Inl RecvEmpty \<and>
   fst (run (fanout id) [RecvMany 0 4] filled4) = [ReceivedMany (Inr [7, 8])]"
proof -
  have c: "consumed (view (fanout id) 0 filled4) = - 1"
    and m: "cs_meta (view (fanout id) 0 filled4) = \<lparr>index_mask = 3, buffer_size = 4\<rparr>"
    and r: "fst (run (fanout id) [RecvMany 0 4] filled4) = [ReceivedMany (Inr [7, 8])]"
    by code_simp+
  have "meta_ok \<lparr>index_mask = 3, buffer_size = 4\<rparr>" by (simp add: meta_ok_def is_power_of_two.simps)
  then show ?thesis
    using unlimited_receive_gets_nothing [of "view (fanout id) 0 filled4"] c m r by (simp add: try_recv_at_most_def)
qed

text \<open>A gate that has a live consumer and room answers with a position among its cursors.\<close>

lemma gate_with_room:
  fixes p :: "'w fanout_gate multi_publisher"
  defines "cs \<equiv> fan_consumed (consumer_gate (shared p))"
  assumes inv: "pub_inv cs p t P"
    and live: "\<exists>c \<in> set cs. c \<noteq> SHUTDOWN_OPEN" and room: "\<forall>c \<in> set cs. t < c + b"
  obtains mc where "max_consumed (fan_barrier wake) (consumer_gate (shared p)) = \<lparr>ss_seq = mc, ss_shutdown = False\<rparr>"
    "- 1 \<le> mc" "mc \<le> t" "t < mc + b"
proof
  let ?s = "max_consumed (fan_barrier wake) (consumer_gate (shared p))"
  note D = pub_invD [OF inv, unfolded cs_def]
  have sd: "\<not> ss_shutdown ?s" using fan_gate.all_left [OF D(12)] live unfolding cs_def by blast
  have c: "ss_seq ?s \<in> set cs" using fan_gate.attained [OF D(12) sd] by (simp add: cs_def)
  have "ss_seq ?s < SHUTDOWN_OPEN" using fan_gate.live_consumer(2) [OF D(12) sd] .
  then show "- 1 \<le> ss_seq ?s" "ss_seq ?s \<le> t"
    using c D(3) by (auto simp: cursors_inv_def live_cursor_def cs_def)
  show "t < ss_seq ?s + b" using room c by blast
  show "?s = \<lparr>ss_seq = ss_seq ?s, ss_shutdown = False\<rparr>" using sd by simp
qed

text \<open>C36: A batch send with the limit \<open>usize::MAX\<close> breaks any open channel that has room: the cast
  makes the limit \<open>-1\<close>, the claim "succeeds" with the empty range from \<open>t + 1\<close> to \<open>t - 1\<close> and moves
  \<open>claimed\<close> back by one. If nothing was sent before, \<open>claimed\<close> then reads as a shutdown and sends are
  refused from then on; otherwise the next send gets the last sequence number \<open>t\<close> again and writes
  over what was sent under it.\<close>

theorem unlimited_send_breaks_channel:
  fixes sd :: "('w fanout_gate, 'a) sender_impl"
  defines "cs \<equiv> fan_consumed (consumer_gate (shared (sd_publisher sd)))"
  assumes inv: "mem_inv fan_consumed sd t P h"
    and opened: "\<not> has_shutdown (claimed (shared (sd_publisher sd)))"
    and live: "\<exists>c \<in> set cs. c \<noteq> SHUTDOWN_OPEN"
    and room: "\<forall>c \<in> set cs. t < c + buffer_size (mp_meta (sd_publisher sd))"
  shows "case sd_try_send_at_most (fan_barrier wake) 18446744073709551615 recycler sd of
    (r, sd') \<Rightarrow>
      r = Inr \<lparr>start_seq = t + 1, end_seq = t - 1, next_seq = t + 1, wps_recycler = recycler\<rparr> \<and>
      claimed (shared (sd_publisher sd')) = t - 1 \<and>
      (if t = - 1 then sd_try_send (fan_barrier wake) v sd' = (Inl (SendDisconnected v), sd')
       else fst (sd_try_send (fan_barrier wake) v sd') = Inr () \<and>
         get_ref_at (sd_ring (snd (sd_try_send (fan_barrier wake) v sd'))) t = v)"
proof -
  let ?B = "fan_barrier wake" and ?p = "sd_publisher sd"
  define p' where "p' = ?p\<lparr>shared := (shared ?p)\<lparr>claimed := t - 1\<rparr>\<rparr>"
  note D = pub_invD [OF mem_invD(1) [OF inv]]
  obtain mc where mc: "max_consumed ?B (consumer_gate (shared ?p)) = \<lparr>ss_seq = mc, ss_shutdown = False\<rparr>"
    "- 1 \<le> mc" "mc \<le> t" "t < mc + buffer_size (mp_meta ?p)"
    by (rule gate_with_room [OF mem_invD(1) [OF inv] live [unfolded cs_def] room [unfolded cs_def]])
  have nl: "\<not> (\<forall>c \<in> set cs. c = SHUTDOWN_OPEN)" using live by blast
  have "mp_try_claim_at_most ?B (- 1) ?p = (Inr (t + 1, t - 1), p')"
    using fan_gate.claim_outcome [OF mem_invD(1) [OF inv], of "- 1" wake] opened nl mc
    by (simp add: cs_def p'_def Let_def)
  then have send: "sd_try_send_at_most ?B 18446744073709551615 recycler sd =
      (Inr \<lparr>start_seq = t + 1, end_seq = t - 1, next_seq = t + 1, wps_recycler = recycler\<rparr>, sd\<lparr>sd_publisher := p'\<rparr>)"
    by (simp add: sd_try_send_at_most_def usize_MAX_cast)
  have p': "claimed (shared p') = t - 1" "mp_meta p' = mp_meta ?p" "consumer_gate (shared p') = consumer_gate (shared ?p)"
    by (simp_all add: p'_def)
  have claim: "mp_try_claim_at_most ?B 1 p' =
      (if t = - 1 then (Inl ClaimShutdown, p') else (Inr (t, t), p'\<lparr>shared := (shared p')\<lparr>claimed := t\<rparr>\<rparr>))"
  proof (cases "t = - 1")
    case True
    then have "has_shutdown (claimed (shared p'))" by (simp add: p' has_shutdown_def)
    then show ?thesis using True
      by (simp add: mp_try_claim_at_most_def cursor_load_def fan_gate.claim_loop_at_claimed)
  next
    case False
    then have t: "0 \<le> t" using D(9) by simp
    have "\<not> has_shutdown (t - 1)" using t by (simp add: has_shutdown_def)
    moreover have "claim_target (mp_meta ?p) 1 (t - 1) (max_consumed ?B (consumer_gate (shared ?p))) = Inr (t, t)"
      using claim_target_eq [OF D(6), of "t - 1" mc 1] t D(10) mc by (simp add: Let_def)
    moreover have "min 1 (buffer_size (mp_meta ?p)) = 1" using D(7) by simp
    ultimately show ?thesis using False fan_gate.claim_loop_at_claimed [where p = p' and n = 1 and wake = wake]
      by (simp add: mp_try_claim_at_most_def cursor_load_def p')
  qed
  show ?thesis
  proof (cases "t = - 1")
    case True
    then show ?thesis using claim by (simp add: send p' sd_try_send_def mp_try_claim_def)
  next
    case False
    have "get_ref_at (modify_at (sd_ring sd) t (\<lambda>_. v)) t = v"
      by (rule get_modify_same_index) (use mem_invD(5) [OF inv] in simp_all)
    then show ?thesis using claim False
      by (simp add: send p' sd_try_send_def mp_try_claim_def sd_commit_def sd_write_slot_def)
  qed
qed

text \<open>On a fresh channel of four slots, and on the same after one send.\<close>

theorem unlimited_send_breaks_channel_witness:
  "(case sd_try_send_at_most (fan_barrier id) 18446744073709551615 (\<lambda>v. (v, False)) sender4 of
     (r, sd') \<Rightarrow> sd_try_send (fan_barrier id) 7 sd' = (Inl (SendDisconnected 7), sd')) \<and>
   (case sd_try_send_at_most (fan_barrier id) 18446744073709551615 (\<lambda>v. (v, False))
       (snd (sd_try_send (fan_barrier id) 5 sender4)) of
     (r, sd') \<Rightarrow> get_ref_at (sd_ring (snd (sd_try_send (fan_barrier id) 9 sd'))) 0 = 9)"
proof -
  let ?one = "snd (sd_try_send (fan_barrier id) 5 sender4)"
  have "fst (sd_try_send (fan_barrier id) 5 sender4) = Inr ()" by code_simp
  from fan_gate.sd_try_send_outcome(3) [OF sender4_inv _ this]
  have one: "mem_inv fan_consumed ?one 0 {} ((get_ref_at (sd_ring sender4))(0 := 5))" by simp
  have cs: "fan_consumed (consumer_gate (shared (sd_publisher sender4))) = [- 1, - 1]"
    "fan_consumed (consumer_gate (shared (sd_publisher ?one))) = [- 1, - 1]"
    "buffer_size (mp_meta (sd_publisher sender4)) = 4" "buffer_size (mp_meta (sd_publisher ?one)) = 4"
    "\<not> has_shutdown (claimed (shared (sd_publisher sender4)))" "\<not> has_shutdown (claimed (shared (sd_publisher ?one)))"
    by code_simp+
  show ?thesis
    using unlimited_send_breaks_channel [OF sender4_inv cs(5), where wake = id and recycler = "\<lambda>v. (v, False)" and v = 7]
      unlimited_send_breaks_channel [OF one cs(6), where wake = id and recycler = "\<lambda>v. (v, False)" and v = 9]
    unfolding cs(1-4) by (auto simp: SHUTDOWN_OPEN_def split: prod.splits)
qed

section \<open>A commit after a shutdown\<close>

text \<open>C38: A commit erases a shutdown marker. A permit is outstanding for the first sequence number
  that is not published, another one's recycler panicked, and the marker is in the permit's slot: a
  receiver that has taken everything before it is told \<open>Disconnected\<close>. When the permit is written, the
  same receiver gets its item, and the marker of its slot is gone while those of other slots stay -
  a termination puts down only one.\<close>

theorem commit_erases_shutdown_marker:
  fixes ch :: "('w fanout_gate, 'a) channel" and p :: "'a write_permit" and item :: 'a and wake :: "'w \<Rightarrow> 'w"
  defines "st \<equiv> slot_states (shared (sd_publisher (sender ch)))"
    and "ch' \<equiv> permit_write (fanout wake) item p ch"
  assumes inv: "mem_inv fan_consumed (sender ch) t P h" and s: "wp_sequence p \<in> P"
    and i: "i < length (fan_consumed (gate_of ch))" "fan_consumed (gate_of ch) ! i = wp_sequence p - 1"
    and m: "marked st (wp_sequence p)"
  shows "try_recv (fanout wake) i ch = Inl RecvDisconnected \<and>
    (\<exists>r. try_recv (fanout wake) i ch' = Inr r \<and> ref_deref r ch' = item) \<and>
    (\<forall>q. marked (slot_states (shared (sd_publisher (sender ch')))) q \<longleftrightarrow>
       marked st q \<and> slot_index st q \<noteq> slot_index st (wp_sequence p))"
proof (intro conjI)
  let ?s = "wp_sequence p" and ?B = "fan_barrier wake"
  let ?w = "sd_write_slot ?s item (sender ch)"
  note D = pub_invD [OF mem_invD(1) [OF inv]] and F = frontier_props [OF pub_invD(1) [OF mem_invD(1) [OF inv]]]
  have ch': "ch' = ch\<lparr>sender := sd_commit ?B ?s ?w\<rparr>"
    by (simp add: ch'_def permit_write_def write_permit_write_def write_permit_drop_def fanout_def)
  have st': "slot_states (shared (sd_publisher (sender ch'))) = publish st ?s"
    by (simp add: ch' sd_commit_def mp_commit_def notify_gate_def sd_write_slot_def st_def)
  have gate: "fan_consumed (gate_of ch') = fan_consumed (gate_of ch)"
    by (simp add: ch' gate_of_def sd_commit_def mp_commit_def notify_gate_def sd_write_slot_def fan_gate.notify_cursors)
  have c: "fan_consumed (gate_of ch) ! i \<noteq> SHUTDOWN_OPEN"
    using i(2) flags_invD(4) [OF D(1) s] D(10) by (simp add: SHUTDOWN_OPEN_def)
  have "frontier t P < ?s" using F(2) [OF s] .
  then have "cs_try_claim_at_most max_published 1 (view (fanout wake) i ch) = Inl ClaimShutdown"
    using fan_wiring.recv_outcome [OF inv i(1) c, of 1 wake] m by (simp add: i(2) st_def)
  then show "try_recv (fanout wake) i ch = Inl RecvDisconnected"
    by (simp add: try_recv_def rv_try_recv_def cs_try_claim_def)
  let ?h = "publish_values {?s} (sd_ring ?w) h"
  have inv': "mem_inv fan_consumed (sender ch') t (P - {?s}) ?h"
    using fan_gate.sd_commit_keeps [OF mem_inv_write [OF inv s] s, of wake item] by (simp add: ch')
  have "live_cursor (buffer_size (mp_meta (sd_publisher (sender ch)))) t P (?s - 1)"
    using fan_wiring.mem_cursor [OF inv i(1) c] i(2) by simp
  then have "\<forall>q \<in> P. ?s \<le> q" by (auto simp: live_cursor_def)
  then have "?s \<le> frontier t (P - {?s})"
    using frontier_props(4) [OF pub_invD(1) [OF mem_invD(1) [OF inv']]] flags_invD(4) [OF D(1) s] by force
  moreover have "1 \<le> ring_size st" using flags_invD(6) [OF D(1)] by (simp add: st_def)
  ultimately have claim: "cs_try_claim_at_most max_published 1 (view (fanout wake) i ch') = Inr (?s, ?s)"
    and val: "get_ref_at (sd_ring (sender ch')) ?s = ?h ?s"
    using fan_wiring.recv_outcome [OF inv', of i 1 wake] fan_wiring.recv_value [OF inv', of i ?s] i c gate st'
    by (simp_all add: min_def)
  have "get_ref_at (modify_at (sd_ring (sender ch)) ?s (\<lambda>_. item)) ?s = item"
    by (rule get_modify_same_index) (rule mem_invD(5) [OF inv], rule refl)
  then have "?h ?s = item" by (simp add: publish_values_def sd_write_slot_def)
  then show "\<exists>r. try_recv (fanout wake) i ch' = Inr r \<and> ref_deref r ch' = item"
    using claim val by (simp add: try_recv_def rv_try_recv_def cs_try_claim_def ref_deref_def read_ref_deref_def)
  show "\<forall>q. marked (slot_states (shared (sd_publisher (sender ch')))) q \<longleftrightarrow>
      marked st q \<and> slot_index st q \<noteq> slot_index st ?s"
    unfolding st' using marked_publish [OF D(11) [folded st_def], of ?s] by metis
qed

text \<open>Three slots are claimed and the first is not published when the channel is terminated.\<close>

definition terminated4 :: "(unit fanout_gate, nat) channel" where
  "terminated4 = \<lparr>sender = sd_terminate (fan_barrier id) claimed4, sender_count = 1\<rparr>"

theorem commit_erases_shutdown_marker_witness:
  "\<exists>r. try_recv (fanout id) 0 (permit_write (fanout id) 7
      \<lparr>wp_sequence = 0, wp_recycler = (\<lambda>v. (v, False)), wp_wrote = False\<rparr> terminated4) = Inr r"
proof -
  obtain h where "mem_inv fan_consumed claimed4 2 {0..2} h" using claimed4_inv by blast
  then have inv: "mem_inv fan_consumed (sender terminated4) 2 {0..2} h"
    unfolding terminated4_def by (simp add: fan_gate.sd_terminate_keeps(1))
  have "fan_consumed (gate_of terminated4) = [- 1, - 1]"
    "marked (slot_states (shared (sd_publisher (sender terminated4)))) 0"
    by code_simp+
  then show ?thesis
    using commit_erases_shutdown_marker
        [OF inv, of "\<lparr>wp_sequence = 0, wp_recycler = (\<lambda>v. (v, False)), wp_wrote = False\<rparr>" 0 id 7]
    by auto
qed

section \<open>Two guards of one receiver\<close>

text \<open>A receive that succeeds has something ahead, and gives a guard on the next sequence number.\<close>

lemma recv_guard:
  fixes ch :: "('w fanout_gate, 'a) channel" and i :: nat
  defines "c \<equiv> fan_consumed (gate_of ch) ! i"
  assumes inv: "mem_inv fan_consumed (sender ch) t P h" and i: "i < length (fan_consumed (gate_of ch))" "c \<noteq> SHUTDOWN_OPEN"
    and r: "try_recv (fanout wake) i ch = Inr r"
  shows "c < frontier t P" "r = \<lparr>rr_seq = c + 1, rr_slot = c + 1\<rparr>"
proof -
  have "min 1 (ring_size (slot_states (shared (sd_publisher (sender ch))))) = 1"
    using flags_invD(6) [OF pub_invD(1) [OF mem_invD(1) [OF inv]]] by simp
  then have recv: "cs_try_claim_at_most max_published 1 (view (fanout wake) i ch) =
      (if c < frontier t P then Inr (c + 1, min (frontier t P) (c + 1))
       else if marked (slot_states (shared (sd_publisher (sender ch)))) (c + 1) then Inl ClaimShutdown else Inl ClaimEmpty)"
    using fan_wiring.recv_outcome [OF inv i(1) i(2) [unfolded c_def], of 1 wake] by (simp add: c_def)
  then show ahead: "c < frontier t P"
    using r by (auto simp: try_recv_def rv_try_recv_def cs_try_claim_def split: if_splits)
  show "r = \<lparr>rr_seq = c + 1, rr_slot = c + 1\<rparr>"
    using recv ahead min_absorb2 [of "c + 1" "frontier t P"] r by (simp add: try_recv_def rv_try_recv_def cs_try_claim_def)
qed

text \<open>Its drop moves the receiver's cursor.\<close>

lemma finish_moves:
  fixes ch :: "('w fanout_gate, 'a) channel" and i :: nat and wake :: "'w \<Rightarrow> 'w"
  defines "c \<equiv> fan_consumed (gate_of ch) ! i"
    and "ch1 \<equiv> ref_finish (fanout wake) i \<lparr>rr_seq = fan_consumed (gate_of ch) ! i + 1,
      rr_slot = fan_consumed (gate_of ch) ! i + 1\<rparr> ch"
  assumes inv: "mem_inv fan_consumed (sender ch) t P h" and i: "i < length (fan_consumed (gate_of ch))" "c \<noteq> SHUTDOWN_OPEN"
    and ahead: "c < frontier t P"
  shows "mem_inv fan_consumed (sender ch1) t P h" "fan_consumed (gate_of ch1) = (fan_consumed (gate_of ch))[i := c + 1]"
    "claimed (shared (sd_publisher (sender ch1))) = claimed (shared (sd_publisher (sender ch)))"
    "mp_meta (sd_publisher (sender ch1)) = mp_meta (sd_publisher (sender ch))"
proof -
  have ch1: "ch1 = store_view (fanout wake) i (cs_commit (c + 1) (view (fanout wake) i ch)) ch"
    by (simp add: ch1_def c_def ref_finish_def read_ref_finish_def read_ref_drop_def)
  have con: "consumed (cs_commit (c + 1) (view (fanout wake) i ch)) = c + 1"
    by (simp add: cs_commit_def cursor_store_def)
  have "live_cursor (buffer_size (mp_meta (sd_publisher (sender ch)))) t P (c + 1)"
    using fan_wiring.commit_position_live [OF inv i(1) i(2) [unfolded c_def], of "c + 1"] ahead by (simp add: c_def)
  then show "mem_inv fan_consumed (sender ch1) t P h"
    unfolding ch1 using fan_wiring.store_view_keeps [OF inv i(1)] con by simp
  show "fan_consumed (gate_of ch1) = (fan_consumed (gate_of ch))[i := c + 1]"
    unfolding ch1 using fan_wiring.store_view_cursors [OF i(1)] con by simp
  show "claimed (shared (sd_publisher (sender ch1))) = claimed (shared (sd_publisher (sender ch)))"
    "mp_meta (sd_publisher (sender ch1)) = mp_meta (sd_publisher (sender ch))"
    by (simp_all add: ch1 store_view_def)
qed

text \<open>A send that succeeds writes the slot of the sequence number a ring length behind its own.\<close>

lemma send_writes_slot:
  fixes sd :: "('w fanout_gate, 'a) sender_impl"
  assumes inv: "mem_inv fan_consumed sd t P h" and t: "t < 2 ^ 60" and ok: "fst (sd_try_send (fan_barrier wake) v sd) = Inr ()"
    and s: "s + buffer_size (mp_meta (sd_publisher sd)) = t + 1"
  shows "get_ref_at (sd_ring (snd (sd_try_send (fan_barrier wake) v sd))) s = v"
proof -
  let ?sd = "snd (sd_try_send (fan_barrier wake) v sd)"
  have inv': "mem_inv fan_consumed ?sd (t + 1) P (h(t + 1 := v))"
    by (rule fan_gate.sd_try_send_outcome(3) [OF inv t ok])
  note D = pub_invD [OF mem_invD(1) [OF inv]]
  have m: "rb_meta (sd_ring ?sd) = mp_meta (sd_publisher sd)"
    using mem_invD(3) [OF inv]
    by (auto simp: sd_try_send_def sd_commit_def sd_write_slot_def split: prod.splits sum.splits try_claim_error.splits)
  have "t + 1 \<notin> P" using flags_invD(4) [OF D(1)] by force
  then have "get_ref_at (sd_ring ?sd) (t + 1) = v"
    using mem_invD(2) [OF inv'] D(7,9) m by (simp add: data_inv_def)
  moreover have "get_ref_at (sd_ring ?sd) (t + 1) = get_ref_at (sd_ring ?sd) s"
    using D(6) s [symmetric] m by (simp only: get_ref_at_def index_of_seq_lap)
  ultimately show ?thesis by simp
qed

text \<open>C39: Two guards of one receiver, which \<open>try_recv\<close> only borrows shared, refer to the same item; and
  when the ring is full and no other receiver is as far behind, the drop of the second lets a sender
  overwrite the slot that the first still refers to.\<close>

theorem second_guard_aliases_first:
  fixes ch :: "('w fanout_gate, 'a) channel"
  defines "cs \<equiv> fan_consumed (gate_of ch)"
  assumes inv: "mem_inv fan_consumed (sender ch) t P h" and t: "t < 2 ^ 60"
    and opened: "\<not> has_shutdown (claimed (shared (sd_publisher (sender ch))))"
    and i: "i < length cs" and full: "cs ! i + buffer_size (mp_meta (sd_publisher (sender ch))) = t"
    and others: "\<forall>j < length cs. j \<noteq> i \<longrightarrow> cs ! i < cs ! j"
    and guards: "try_recv (fanout wake) i ch = Inr first" "try_recv (fanout wake) i ch = Inr second"
  shows "case try_send (fanout wake) v (ref_finish (fanout wake) i second ch) of
    (answer, ch') \<Rightarrow> ref_deref first ch = h (cs ! i + 1) \<and> answer = Inr () \<and> ref_deref first ch' = v"
proof -
  let ?c = "cs ! i" and ?sz = "buffer_size (mp_meta (sd_publisher (sender ch)))"
  define ch1 where "ch1 = ref_finish (fanout wake) i second ch"
  note D = pub_invD [OF mem_invD(1) [OF inv]]
  have c: "?c \<noteq> SHUTDOWN_OPEN" "?c + 1 \<noteq> SHUTDOWN_OPEN" using full D(7,10) by (simp_all add: SHUTDOWN_OPEN_def)
  note i' = i [unfolded cs_def] c(1) [unfolded cs_def]
  note ahead = recv_guard(1) [OF inv i' guards(1)]
    and g = recv_guard(2) [OF inv i' guards(1), folded cs_def] recv_guard(2) [OF inv i' guards(2), folded cs_def]
  note M = finish_moves [OF inv i' ahead, of wake, folded cs_def, folded g(2), folded ch1_def]
  have val: "ref_deref first ch = h (?c + 1)"
    using fan_wiring.recv_value [OF inv i', of "?c + 1"] ahead by (simp add: cs_def ref_deref_def read_ref_deref_def g)
  have room: "\<forall>c' \<in> set (cs[i := ?c + 1]). t < c' + ?sz"
  proof
    fix c' assume "c' \<in> set (cs[i := ?c + 1])"
    then obtain j where "j < length cs" "c' = (if j = i then ?c + 1 else cs ! j)"
      by (auto simp: in_set_conv_nth nth_list_update split: if_splits)
    then show "t < c' + ?sz" using others full by (cases "j = i") force+
  qed
  have live: "\<exists>c \<in> set (cs[i := ?c + 1]). c \<noteq> SHUTDOWN_OPEN" using set_update_memI [OF i] c(2) by blast
  obtain mc where mc: "max_consumed (fan_barrier wake) (consumer_gate (shared (sd_publisher (sender ch1)))) =
      \<lparr>ss_seq = mc, ss_shutdown = False\<rparr>" "t < mc + ?sz"
    by (rule gate_with_room [OF mem_invD(1) [OF M(1)], of ?sz wake])
      (use live room M(2) in \<open>simp_all add: gate_of_def\<close>)
  have ok: "fst (sd_try_send (fan_barrier wake) v (sender ch1)) = Inr ()"
    using fan_gate.sd_try_send_outcome(1) [OF M(1) t, of wake v] opened live mc M(2-4) by (simp add: gate_of_def)
  have "get_ref_at (sd_ring (snd (sd_try_send (fan_barrier wake) v (sender ch1)))) (?c + 1) = v"
    using full M(4) by (intro send_writes_slot [OF M(1) t ok]) simp
  moreover have "try_send (fanout wake) v ch1 = (Inr (), ch1\<lparr>sender := snd (sd_try_send (fan_barrier wake) v (sender ch1))\<rparr>)"
    using ok by (auto simp: try_send_def on_sender_def fanout_def split: prod.splits)
  ultimately show ?thesis
    unfolding ch1_def [symmetric] using val by (simp add: ref_deref_def read_ref_deref_def g(1))
qed

text \<open>One slot, one receiver, one item in the ring.\<close>

definition start1 :: "(unit fanout_gate, nat) channel" where
  "start1 = fanout_channel_with_ring 1 () \<lparr>slots = [0], rb_meta = \<lparr>index_mask = 0, buffer_size = 1\<rparr>\<rparr>"

definition full1 :: "(unit fanout_gate, nat) channel" where
  "full1 = snd (try_send (fanout id) 7 start1)"

theorem second_guard_aliases_first_witness:
  "case try_send (fanout id) 8 (ref_finish (fanout id) 0 \<lparr>rr_seq = 0, rr_slot = 0\<rparr> full1) of
     (answer, ch') \<Rightarrow> ref_deref \<lparr>rr_seq = 0, rr_slot = 0\<rparr> full1 = 7 \<and> answer = Inr () \<and>
       ref_deref \<lparr>rr_seq = 0, rr_slot = 0\<rparr> ch' = 8"
proof -
  have ok: "ring_ok \<lparr>slots = [0 :: nat], rb_meta = \<lparr>index_mask = 0, buffer_size = 1\<rparr>\<rparr>"
    by (simp add: ring_ok_def meta_ok_def is_power_of_two.simps)
  from chan_invD(1) [OF new_channel_refines(1) [OF ok, of fan_consumed "fan_new 1 ()" 1]]
  have start: "mem_inv fan_consumed (sender start1) (- 1) {} (get_ref_at (sd_ring (sender start1)))"
    by (simp add: start1_def fanout_channel_with_ring_def fan_new_def cursor_new_def)
  have "fst (sd_try_send (fan_barrier id) 7 (sender start1)) = Inr ()" by code_simp
  from fan_gate.sd_try_send_outcome(3) [OF start _ this]
  have inv: "mem_inv fan_consumed (sender full1) 0 {} ((get_ref_at (sd_ring (sender start1)))(0 := 7))"
    by (auto simp: full1_def try_send_def on_sender_def fanout_def split: prod.splits)
  have parts: "fan_consumed (gate_of full1) = [- 1]" "buffer_size (mp_meta (sd_publisher (sender full1))) = 1"
    "\<not> has_shutdown (claimed (shared (sd_publisher (sender full1))))"
    "try_recv (fanout id) 0 full1 = Inr \<lparr>rr_seq = 0, rr_slot = 0\<rparr>"
    by code_simp+
  show ?thesis
    using second_guard_aliases_first [OF inv, of 0 id "\<lparr>rr_seq = 0, rr_slot = 0\<rparr>" "\<lparr>rr_seq = 0, rr_slot = 0\<rparr>" 8] parts
    by simp
qed

end
