(* ===== verification/Examples.thy ===== *)
theory Examples
  imports Refinement
begin

text \<open>
  The programs of \<open>src/examples\<close> and the unit tests of the crate's modules, as the model runs them:
  each program as its list of calls (or, where a guard is alive across another call, as its
  operations), each test function as the conjunction of its assertions. They are evaluated, so the
  definitions of the model are checked against what the repository itself says of its code.
\<close>

section \<open>The example programs\<close>

text \<open>\<open>fanout_usage.rs\<close>: a single send, a batch over all the room that is left, and two receivers that
  each see everything.\<close>

definition fanout_usage :: "nat call list" where
  "fanout_usage = [Send 42, SendMany 16 (Some 0) [100..<116], Recv 0, Recv 1] @
     concat (map (\<lambda>_. [Recv 0, Recv 1]) [100..<115])"

definition fanout_usage_answers :: "nat answer list" where
  "fanout_usage_answers = [Sent (Inr ()), SentMany (Inr 15), Received (Inr 42), Received (Inr 42)] @
     concat (map (\<lambda>i. [Received (Inr i), Received (Inr i)]) [100..<115])"

text \<open>\<open>graceful_shutdown.rs\<close>: the loop ends in its first round.\<close>

definition graceful_shutdown :: "nat call list" where
  "graceful_shutdown = [Send 42, DropSender, Recv 0, RecvMany 0 64]"

definition graceful_shutdown_answers :: "nat answer list" where
  "graceful_shutdown_answers = [Sent (Inr ()), Done, Received (Inr 42), ReceivedMany (Inl RecvDisconnected)]"

text \<open>\<open>mpsc_usage.rs\<close>: a clone of the sender, and a batch of ten of which nine are written.\<close>

definition mpsc_usage :: "nat call list" where
  "mpsc_usage = [CloneSender, Send 1, Send 2, SendMany 10 (Some 0) [3..<12], RecvMany 0 30]"

definition mpsc_usage_answers :: "nat answer list" where
  "mpsc_usage_answers = [Done, Sent (Inr ()), Sent (Inr ()), SentMany (Inr 10), ReceivedMany (Inr ([1..<12] @ [0]))]"

text \<open>\<open>spsc_basic.rs\<close>.\<close>

definition spsc_basic :: "nat call list" where
  "spsc_basic = [Send 42, Recv 0, SendMany 8 (Some 0) [1..<9], SendMany 8 (Some 0) [1..<9], RecvMany 0 8, RecvMany 0 20]"

definition spsc_basic_answers :: "nat answer list" where
  "spsc_basic_answers = [Sent (Inr ()), Received (Inr 42), SentMany (Inr 8), SentMany (Inr 8),
     ReceivedMany (Inr [1..<9]), ReceivedMany (Inr [1..<9])]"

text \<open>The example of the crate's documentation (\<open>lib.rs\<close>).\<close>

definition crate_example :: "nat call list" where
  "crate_example = [Send 42, Recv 0, SendMany 8 (Some 0) [1..<9], RecvMany 0 8]"

definition crate_example_answers :: "nat answer list" where
  "crate_example_answers = [Sent (Inr ()), Received (Inr 42), SentMany (Inr 8), ReceivedMany (Inr [1..<9])]"

text \<open>\<open>receiver_disconnect.rs\<close>: the receiver is dropped while a batch of permits is alive.\<close>

definition receiver_disconnect ::
  "(unit exclusive_gate, nat) channel \<Rightarrow> (try_send_at_most_error + usize) \<times> (try_send_at_most_error + usize)" where
  "receiver_disconnect ch =
     (case try_send_at_most (mpsc id) 8 (reset_with_default (Some 0)) ch of
        (Inl e, ch1) \<Rightarrow> (Inl e, Inl e)
      | (Inr ps, ch1) \<Rightarrow>
          let ch2 = receiver_drop (mpsc id) 0 ch1;
              (ps', ch3) = write_all (mpsc id) ps (replicate 8 0) ch2;
              ch4 = batch_commit (mpsc id) ps' ch3
          in (Inr (permits_total_reserved ps),
              map_sum id permits_total_reserved
                (fst (try_send_at_most (mpsc id) 8 (reset_with_default (Some 0)) ch4))))"

section \<open>The unit tests\<close>

text \<open>\<open>sequence.rs\<close> and \<open>slot_recycler.rs\<close>.\<close>

definition compares_to_i64 :: bool where
  "compares_to_i64 \<longleftrightarrow>
     (let s = seq_new 7
      in seq_eq_i64 s 7 \<and> seq_partial_cmp_i64 s 5 = Some Greater \<and> seq_partial_cmp_i64 s 10 = Some Less)"

definition adds_and_subs_with_i64 :: bool where
  "adds_and_subs_with_i64 \<longleftrightarrow> seq_add 5 3 = 8 \<and> seq_sub 5 2 = 3"

definition reset_with_default_test :: bool where
  "reset_with_default_test \<longleftrightarrow> reset_with (\<lambda>_. Some (0 :: int)) 42 = (0, False)"

definition test_closure_recycle :: bool where
  "test_closure_recycle \<longleftrightarrow> recycle_closure (\<lambda>_. (0 :: int, False)) 42 = (0, False)"

text \<open>\<open>ringbuffer.rs\<close>. The panic of a constructor is its \<open>None\<close>.\<close>

definition test_invalid_capacity_should_panic :: bool where
  "test_invalid_capacity_should_panic \<longleftrightarrow> (case init_with 7 (\<lambda>_. 0 :: nat) of None \<Rightarrow> True | Some _ \<Rightarrow> False)"

definition test_ringbuffer_capacity :: bool where
  "test_ringbuffer_capacity \<longleftrightarrow> (case init_with 8 (\<lambda>_. 0 :: nat) of None \<Rightarrow> False | Some rb \<Rightarrow> rb_capacity rb = 8)"

definition test_index_of_seq :: bool where
  "test_index_of_seq \<longleftrightarrow>
     (case meta_new 8 of None \<Rightarrow> False
      | Some m \<Rightarrow> map (index_of_seq m) [0, 1, 7, 8, 9, 15, 16] = [0, 1, 7, 0, 1, 7, 0])"

definition test_available_slots :: bool where
  "test_available_slots \<longleftrightarrow>
     (case meta_new 4 of None \<Rightarrow> False
      | Some m \<Rightarrow>
          available_slots m INIT INIT = 4 \<and>
          map (\<lambda>(p, c). available_slots m p c) [(0, INIT), (1, INIT), (2, INIT), (3, 0), (3, 3)] = [3, 2, 1, 1, 4] \<and>
          map (\<lambda>(p, c). available_slots m p c) [(4, 3), (5, 3), (6, 3), (7, 4), (8, 4)] = [3, 2, 1, 1, 0])"

text \<open>\<open>slot_states.rs\<close>.\<close>

definition run_slot_state_group_suite :: "(ring_meta \<Rightarrow> u32_slot_states) \<Rightarrow> bool" where
  "run_slot_state_group_suite new_empty \<longleftrightarrow>
     (case meta_new 8 of None \<Rightarrow> False
      | Some ring \<Rightarrow>
          let scan_seq = (\<lambda>s a b. ss_seq (scan_available_until s a b));
              s0 = new_empty ring; s1 = publish s0 0; s2 = publish s1 2; s3 = publish s2 1; s4 = publish_range s3 3 5
          in scan_seq s0 0 0 = - 1 \<and> scan_seq s0 5 7 = 4 \<and> scan_seq s1 0 0 = 0 \<and> scan_seq s2 0 2 = 0 \<and>
             scan_seq s3 0 2 = 2 \<and> scan_seq s4 0 5 = 5 \<and> scan_seq s4 3 4 = 4 \<and>
             \<not> ss_shutdown (scan_available_until s4 0 5))"

definition run_lap_handling_suite :: "(ring_meta \<Rightarrow> u32_slot_states) \<Rightarrow> bool" where
  "run_lap_handling_suite new_empty \<longleftrightarrow>
     (case meta_new 4 of None \<Rightarrow> False
      | Some ring \<Rightarrow>
          let scan_seq = (\<lambda>s a b. ss_seq (scan_available_until s a b));
              s1 = publish (new_empty ring) 0; s2 = publish s1 4; s3 = publish_range s2 2 5
          in scan_seq s1 0 0 = 0 \<and> scan_seq s2 0 0 = - 1 \<and> scan_seq s2 4 4 = 4 \<and>
             scan_seq s3 2 3 = 3 \<and> scan_seq s3 4 5 = 5 \<and> scan_seq s3 0 1 = - 1 \<and> scan_seq s3 2 5 = 5)"

definition shutdown_bit_detected_by_scan :: bool where
  "shutdown_bit_detected_by_scan \<longleftrightarrow>
     (case meta_new 4 of None \<Rightarrow> False
      | Some ring \<Rightarrow> scan_available_until (mark_shutdown (publish_range (new_all_empty ring) 0 2) 3) 0 3 =
          \<lparr>ss_seq = 2, ss_shutdown = True\<rparr>)"

definition shutdown_on_published_slot_still_detected :: bool where
  "shutdown_on_published_slot_still_detected \<longleftrightarrow>
     (case meta_new 4 of None \<Rightarrow> False
      | Some ring \<Rightarrow> scan_available_until (mark_shutdown (publish_range (new_all_empty ring) 0 3) 3) 0 3 =
          \<lparr>ss_seq = 3, ss_shutdown = True\<rparr>)"

lemma arithmetic_tests_pass:
  "compares_to_i64" "adds_and_subs_with_i64" "reset_with_default_test" "test_closure_recycle"
  "test_invalid_capacity_should_panic" "test_ringbuffer_capacity" "test_index_of_seq" "test_available_slots"
  by code_simp+

lemma slot_state_tests_pass:
  "run_slot_state_group_suite new_all_empty" "run_lap_handling_suite new_all_empty"
  "shutdown_bit_detected_by_scan" "shutdown_on_published_slot_still_detected"
  by code_simp+

section \<open>The examples run as their assertions say\<close>

lemma spec_answers:
  "calls_ok fanout_usage (spec_new 2 16)" "fst (spec_run fanout_usage (spec_new 2 16)) = fanout_usage_answers"
  "calls_ok graceful_shutdown (spec_new 1 16)"
  "fst (spec_run graceful_shutdown (spec_new 1 16)) = graceful_shutdown_answers"
  "calls_ok mpsc_usage (spec_new 1 16)" "fst (spec_run mpsc_usage (spec_new 1 16)) = mpsc_usage_answers"
  "calls_ok spsc_basic (spec_new 1 64)" "fst (spec_run spsc_basic (spec_new 1 64)) = spsc_basic_answers"
  "calls_ok crate_example (spec_new 1 64)" "fst (spec_run crate_example (spec_new 1 64)) = crate_example_answers"
  by code_simp+

lemma channel_eq:
  "mpsc_channel w d cap = mpsc_channel_with w cap (\<lambda>_. d)"
  "fanout_channel n w d cap = fanout_channel_with n w cap (\<lambda>_. d)"
  by (simp_all add: mpsc_channel_def mpsc_channel_with_def fanout_channel_def fanout_channel_with_def)

definition mpsc16 :: "(unit exclusive_gate, nat) channel" where
  "mpsc16 = \<lparr>sender = \<lparr>sd_publisher = mp_new (ex_new ()) \<lparr>index_mask = 15, buffer_size = 16\<rparr>,
     sd_ring = \<lparr>slots = replicate 16 0, rb_meta = \<lparr>index_mask = 15, buffer_size = 16\<rparr>\<rparr>\<rparr>, sender_count = 1\<rparr>"

lemma mpsc16_new: "mpsc_channel () 0 16 = Inr (Some mpsc16)"
  by code_simp

text \<open>The stages of \<open>receiver_disconnect.rs\<close>: eight slots are claimed, the receiver leaves, zeros are
  written over the zeros of the ring, and the batch is committed.\<close>

definition claimed16 :: "(unit exclusive_gate, nat) channel" where
  "claimed16 = mpsc16\<lparr>sender := (sender mpsc16)\<lparr>sd_publisher := (sd_publisher (sender mpsc16))
     \<lparr>shared := (shared (sd_publisher (sender mpsc16)))\<lparr>claimed := 7\<rparr>\<rparr>\<rparr>\<rparr>"

definition permits8 :: "nat write_permits" where
  "permits8 = \<lparr>start_seq = 0, end_seq = 7, next_seq = 0, wps_recycler = reset_with_default (Some 0)\<rparr>"

lemma fst_try_send_at_most:
  "fst (try_send_at_most (mpsc id) 8 r ch) =
     map_error at_most_error_of (map_sum id (\<lambda>(a, b). \<lparr>start_seq = a, end_seq = b, next_seq = a, wps_recycler = r\<rparr>)
       (fst (mp_try_claim_at_most (ex_barrier id) 8 (sd_publisher (sender ch)))))"
  by (simp add: try_send_at_most_def on_sender_def sd_try_send_at_most_def mpsc_def split: prod.splits)

lemma disconnect_claim:
  "try_send_at_most (mpsc id) 8 (reset_with_default (Some 0)) mpsc16 = (Inr permits8, claimed16)"
proof -
  have "mp_try_claim_at_most (ex_barrier id) 8 (sd_publisher (sender mpsc16)) = (Inr (0, 7), sd_publisher (sender claimed16))"
    by code_simp
  then show ?thesis
    by (simp add: try_send_at_most_def on_sender_def sd_try_send_at_most_def mpsc_def permits8_def claimed16_def)
qed

lemma write_zero:
  fixes ch :: "('w exclusive_gate, nat) channel"
  assumes "sd_ring (sender ch) = \<lparr>slots = replicate 16 0, rb_meta = \<lparr>index_mask = 15, buffer_size = 16\<rparr>\<rparr>"
  shows "batch_write (mpsc id) ps 0 p ch = ch"
proof -
  have "modify_at (sd_ring (sender ch)) s (\<lambda>_. 0) = sd_ring (sender ch)" for s
  proof (cases "index_of_seq \<lparr>index_mask = 15, buffer_size = 16\<rparr> s < 16")
    case True
    then have "(replicate 16 0)[index_of_seq \<lparr>index_mask = 15, buffer_size = 16\<rparr> s := 0] = replicate 16 (0 :: nat)"
      by (metis list_update_id nth_replicate)
    then show ?thesis by (simp add: assms modify_at_def)
  qed (simp add: assms modify_at_def list_update_beyond)
  then show ?thesis by (simp add: mpsc_wiring.batch_write_eq sd_write_slot_def)
qed

lemma disconnect_writes:
  fixes ch :: "('w exclusive_gate, nat) channel"
  assumes "sd_ring (sender ch) = \<lparr>slots = replicate 16 0, rb_meta = \<lparr>index_mask = 15, buffer_size = 16\<rparr>\<rparr>"
  shows "write_all (mpsc id) permits8 (replicate 8 0) ch = (permits8\<lparr>next_seq := 8\<rparr>, ch)"
  by (simp add: permits8_def permits_next_def write_zero [OF assms] numeral_eq_Suc)

lemma receiver_disconnect_answers: "receiver_disconnect mpsc16 = (Inr 8, Inl AtMostDisconnected)"
proof -
  let ?ch = "receiver_drop (mpsc id) 0 claimed16"
  have ring: "sd_ring (sender ?ch) = \<lparr>slots = replicate 16 0, rb_meta = \<lparr>index_mask = 15, buffer_size = 16\<rparr>\<rparr>"
    by (simp add: receiver_drop_def claimed16_def mpsc16_def)
  have n: "permits_total_reserved permits8 = 8" by code_simp
  have "fst (mp_try_claim_at_most (ex_barrier id) 8 (sd_publisher (sender
      (batch_commit (mpsc id) (permits8\<lparr>next_seq := 8\<rparr>) ?ch)))) = Inl ClaimShutdown"
    by code_simp
  then have "fst (try_send_at_most (mpsc id) 8 (reset_with_default (Some 0))
      (batch_commit (mpsc id) (permits8\<lparr>next_seq := 8\<rparr>) ?ch)) = Inl AtMostDisconnected"
    by (simp add: fst_try_send_at_most)
  then show ?thesis
    by (simp add: receiver_disconnect_def disconnect_claim disconnect_writes [OF ring] n Let_def)
qed

text \<open>The programs of \<open>src/examples\<close> and the example of the crate's documentation, run by the model on channels from the crate's
  constructors, get the answers that their assertions and comments state.\<close>

theorem examples_run_as_asserted:
  "(\<exists>ch. fanout_channel 2 () 0 16 = Inr (Some ch) \<and> fst (run (fanout id) fanout_usage ch) = fanout_usage_answers) \<and>
   (\<exists>ch. mpsc_channel () 0 16 = Inr (Some ch) \<and>
      fst (run (mpsc id) graceful_shutdown ch) = graceful_shutdown_answers \<and>
      fst (run (mpsc id) mpsc_usage ch) = mpsc_usage_answers \<and>
      receiver_disconnect ch = (Inr 8, Inl AtMostDisconnected)) \<and>
   (\<exists>ch. mpsc_channel () 0 64 = Inr (Some ch) \<and> fst (run (mpsc id) spsc_basic ch) = spsc_basic_answers \<and>
      fst (run (mpsc id) crate_example ch) = crate_example_answers)"
proof (intro conjI)
  have v: "validate 16 = Inr ()" "validate 64 = Inr ()" by code_simp+
  have short: "length fanout_usage \<le> 2 ^ 30" "length graceful_shutdown \<le> 2 ^ 30" "length mpsc_usage \<le> 2 ^ 30"
    "length spsc_basic \<le> 2 ^ 30" "length crate_example \<le> 2 ^ 30"
    by (simp_all add: crate_example_def fanout_usage_def graceful_shutdown_def mpsc_usage_def spsc_basic_def length_concat sum_list_triv comp_def)
  obtain ch where ch: "fanout_channel_with 2 () 16 (\<lambda>_. 0 :: nat) = Inr (Some ch)" using v(1) by (rule fanout_new)
  with fanout_runs [OF ch spec_answers(1) short(1), of id] spec_answers(2)
  show "\<exists>ch. fanout_channel 2 () 0 16 = Inr (Some ch) \<and> fst (run (fanout id) fanout_usage ch) = fanout_usage_answers"
    by (intro exI [of _ ch]) (simp add: channel_eq)
  have m: "mpsc_channel_with () 16 (\<lambda>_. 0) = Inr (Some mpsc16)" using mpsc16_new by (simp add: channel_eq)
  show "\<exists>ch. mpsc_channel () 0 16 = Inr (Some ch) \<and>
      fst (run (mpsc id) graceful_shutdown ch) = graceful_shutdown_answers \<and>
      fst (run (mpsc id) mpsc_usage ch) = mpsc_usage_answers \<and>
      receiver_disconnect ch = (Inr 8, Inl AtMostDisconnected)"
    using mpsc_runs [OF m spec_answers(3) short(2), of id] spec_answers(4)
      mpsc_runs [OF m spec_answers(5) short(3), of id] spec_answers(6)
    by (intro exI [of _ mpsc16] conjI mpsc16_new receiver_disconnect_answers) simp_all
  obtain ch' where ch': "mpsc_channel_with () 64 (\<lambda>_. 0 :: nat) = Inr (Some ch')" using v(2) by (rule mpsc_new)
  with mpsc_runs [OF ch' spec_answers(7) short(4), of id] spec_answers(8)
    mpsc_runs [OF ch' spec_answers(9) short(5), of id] spec_answers(10)
  show "\<exists>ch. mpsc_channel () 0 64 = Inr (Some ch) \<and> fst (run (mpsc id) spsc_basic ch) = spsc_basic_answers \<and>
      fst (run (mpsc id) crate_example ch) = crate_example_answers"
    by (intro exI [of _ ch']) (simp add: channel_eq)
qed

end
