(* ===== verification/Texts.thy ===== *)
theory Texts
  imports Guards
begin

text \<open>
  The texts of the crate's values: \<open>Display\<close> of a sequence number (\<open>sequence.rs\<close>), the \<open>Debug\<close> instances of
  the permits (\<open>guards.rs\<close>), as \<open>debug_struct\<close> writes them on one line, and the messages of the errors
  (\<open>errors.rs\<close>). The decimal text of a sequence number can be read back.
\<close>

definition digit :: "nat \<Rightarrow> char" where
  "digit n = ''0123456789'' ! n"

fun decimal :: "nat \<Rightarrow> string" where
  "decimal n = (if n < 10 then [digit n] else decimal (n div 10) @ [digit (n mod 10)])"

declare decimal.simps [simp del]

text \<open>The text of an \<open>i64\<close>, and \<open>write!(f, "{}", self.0)\<close>.\<close>

definition display_i64 :: "i64 \<Rightarrow> string" where
  "display_i64 n = (if n < 0 then ''-'' @ decimal (nat (- n)) else decimal (nat n))"

definition display_sequence :: "sequence \<Rightarrow> string" where
  "display_sequence s = display_i64 s"

definition debug_sequence :: "sequence \<Rightarrow> string" where
  "debug_sequence s = ''Sequence('' @ display_sequence s @ '')''"

definition debug_bool :: "bool \<Rightarrow> string" where
  "debug_bool b = (if b then ''true'' else ''false'')"

definition debug_fields :: "(string \<times> string) list \<Rightarrow> string" where
  "debug_fields fs = concat (map (\<lambda>(name, txt). name @ '': '' @ txt @ '', '') (butlast fs)) @
     (case fs of [] \<Rightarrow> '''' | _ \<Rightarrow> fst (last fs) @ '': '' @ snd (last fs))"

definition debug_write_permit :: "'a write_permit \<Rightarrow> string" where
  "debug_write_permit p = ''WritePermitImpl { '' @
     debug_fields [(''sequence'', debug_sequence (wp_sequence p)), (''wrote'', debug_bool (wp_wrote p))] @ '', .. }''"

definition debug_write_permits :: "'a write_permits \<Rightarrow> string" where
  "debug_write_permits ps = ''WritePermitsImpl { '' @
     debug_fields [(''start_seq'', display_i64 (start_seq ps)), (''end_seq'', display_i64 (end_seq ps)),
       (''next_seq'', display_i64 (next_seq ps))] @ '' }''"

text \<open>The messages of the \<open>error\<close> attributes.\<close>

fun claim_error_text :: "try_claim_error \<Rightarrow> string" where
  "claim_error_text ClaimEmpty = ''The channel is empty''"
| "claim_error_text ClaimShutdown = ''The channel is shutdown''"

fun reserve_error_text :: "try_reserve_error \<Rightarrow> string" where
  "reserve_error_text ReserveFull = ''The channel is full''"
| "reserve_error_text ReserveDisconnected = ''The consumers are disconnected''"

fun at_most_error_text :: "try_send_at_most_error \<Rightarrow> string" where
  "at_most_error_text AtMostFull = ''The channel is full''"
| "at_most_error_text AtMostDisconnected = ''The consumers are disconnected''"

fun recv_error_text :: "try_recv_error \<Rightarrow> string" where
  "recv_error_text RecvEmpty = ''The channel is empty''"
| "recv_error_text RecvDisconnected = ''The channel is disconnected''"

fun size_error_text :: "invalid_channel_size \<Rightarrow> string" where
  "size_error_text NotAPowerOfTwo = ''The channel size must be a power of two''"
| "size_error_text TooLarge = ''The channel size is too large (max: '' @ decimal MAX_CHANNEL_SIZE @ '')''"

section \<open>Reading back\<close>

definition digit_value :: "char \<Rightarrow> nat" where
  "digit_value c = of_char c - 48"

definition decimal_value :: "string \<Rightarrow> nat" where
  "decimal_value cs = foldl (\<lambda>n c. 10 * n + digit_value c) 0 cs"

fun read_sequence :: "string \<Rightarrow> int" where
  "read_sequence (c # cs) = (if c = CHR ''-'' then - int (decimal_value cs) else int (decimal_value (c # cs)))"
| "read_sequence [] = 0"

lemma digit_value_digit:
  assumes "n < 10"
  shows "digit_value (digit n) = n \<and> digit n \<noteq> CHR ''-''"
proof -
  have "list_all (\<lambda>n. digit_value (digit n) = n \<and> digit n \<noteq> CHR ''-'') [0..<10]" by code_simp
  then show ?thesis using assms by (simp add: list_all_iff)
qed

lemma decimal_read: "decimal_value (decimal n) = n \<and> decimal n \<noteq> [] \<and> hd (decimal n) \<noteq> CHR ''-''"
proof (induction n rule: decimal.induct)
  case (1 n)
  show ?case
  proof (cases "n < 10")
    case True
    then have "decimal n = [digit n]" by (simp add: decimal.simps)
    then show ?thesis using digit_value_digit [OF True] by (simp add: decimal_value_def)
  next
    case False
    then have "decimal n = decimal (n div 10) @ [digit (n mod 10)]" by (subst decimal.simps) simp
    then show ?thesis using 1 [OF False] digit_value_digit [of "n mod 10"] by (simp add: decimal_value_def)
  qed
qed

theorem display_read_back: "read_sequence (display_sequence s) = s"
proof -
  have "read_sequence (decimal n) = int n" for n using decimal_read [of n] by (cases "decimal n") auto
  then show ?thesis using decimal_read [of "nat (- s)"] by (simp add: display_sequence_def display_i64_def)
qed

text \<open>Different permits of a channel have different texts.\<close>

lemma display_inj: "display_sequence s = display_sequence s' \<longleftrightarrow> s = s'"
  using display_read_back by metis

lemma texts:
  "debug_write_permit \<lparr>wp_sequence = 5, wp_recycler = r, wp_wrote = False\<rparr> =
     ''WritePermitImpl { sequence: Sequence(5), wrote: false, .. }''"
  "debug_write_permits \<lparr>start_seq = 0, end_seq = - 1, next_seq = 0, wps_recycler = r\<rparr> =
     ''WritePermitsImpl { start_seq: 0, end_seq: -1, next_seq: 0 }''"
  "size_error_text TooLarge = ''The channel size is too large (max: 1073741824)''"
  by (simp_all add: debug_write_permit_def debug_write_permits_def debug_fields_def debug_sequence_def
      display_sequence_def display_i64_def debug_bool_def
      decimal.simps digit_def MAX_CHANNEL_SIZE_def)

end
