(* ===== verification/Spec2Isabelle.thy ===== *)
theory Spec2Isabelle
  imports EndProperties QueueFacts Wakeups Terminations Refusals AsyncCorrect AsyncChannels ContractTests GuardTests Divergences Examples Texts
begin

text \<open>
  A model of \<open>enso_channel\<close> (\<open>src/src\<close>), bounded lock-free channels over a pre-allocated ring:
  \<open>mpsc\<close> (many senders, one receiver) and \<open>fanout\<close> (many senders, a fixed number of receivers that
  each see everything).

  \<^bold>\<open>The program.\<close> Sequence numbers are claimed, written and committed. A claim
  (\<open>sequencers/pub_mul.rs\<close>) is a compare-and-swap on the cursor \<open>claimed\<close>, limited by the gate of
  the consumers' cursors (\<open>con_ex.rs\<close>, \<open>con_fanout.rs\<close>); the slot of a sequence number is its value
  modulo the capacity (\<open>ringbuffer.rs\<close>); a commit stores the lap of the sequence number in the state
  of its slot (\<open>slot_states.rs\<close>), where the receivers' scans find it (\<open>consumer.rs\<close>); a receive returns
  a guard whose drop moves the receiver's cursor. Dropping the last sender, or a recycler that panics,
  puts a shutdown marker into the first unpublished slot and the sign bit into \<open>claimed\<close>.

  \<^bold>\<open>The theories, bottom up.\<close>
  \<^item> \<open>Prelude\<close>: machine integers, powers of two, residues, inclusive ranges and the longest run.
  \<^item> \<open>Sequences\<close> (\<open>sequence.rs\<close>, \<open>cursor.rs\<close>), \<open>Errors\<close> (\<open>errors.rs\<close>), \<open>RingBuffers\<close>
    (\<open>ringbuffer.rs\<close>), \<open>SlotStates\<close> (\<open>slot_states.rs\<close>), \<open>Gates\<close> (the \<open>ConsumerBarrier\<close> trait and its
    two gates), \<open>Publisher\<close> (\<open>pub_mul.rs\<close>), \<open>Consumer\<close> (\<open>consumer.rs\<close>), \<open>Guards\<close>
    (\<open>slot_recycler.rs\<close>, \<open>guards.rs\<close>), \<open>Endpoints\<close> (\<open>sender.rs\<close>, \<open>receiver.rs\<close>), \<open>Channels\<close>
    (\<open>mpsc.rs\<close>, \<open>fanout.rs\<close>): one record per struct and one definition per method, in the order of
    the code, every method run to its end. Interfaces are locales: \<open>producer_barrier\<close> and
    \<open>slot_state_group\<close> (interpreted on the slot states and on the publisher's gate),
    \<open>consumer_gate_contract\<close> (on both gates), \<open>topology_contract\<close> and \<open>queue_channel\<close> (on both channels).
  \<^item> \<open>Invariants\<close>, \<open>SenderCorrect\<close>, \<open>ReceiverCorrect\<close>: the invariant of the shared memory (which
    sequence numbers each slot state, each cursor and each cell stands for, with \<open>t\<close> the last claimed
    sequence number and \<open>P\<close> the claimed and unpublished ones), kept by every operation.
  \<^item> \<open>Queues\<close> and \<open>QueueFacts\<close>: the specification, a queue per receiver and a closed flag, with its
    own theorems; \<open>Refinement\<close>: every call of the public interface on the memory is the call of the
    specification on \<open>abs_channel\<close> of the memory.
  \<^item> \<open>PartProperties\<close>, \<open>EndProperties\<close>, \<open>Wakeups\<close>: the properties of the single parts, of the two
    ends, and of the async receivers.
  \<^item> \<open>Protocol\<close>: the same methods broken into their atomic accesses, for any number of senders and
    receivers, interleaved; \<open>ProtocolCorrect\<close>: its invariant, kept by every step;
    \<open>ProtocolMethods\<close>: a context that runs alone computes what the method computes, in a bounded
    number of accesses; \<open>Schedules\<close>: evaluated interleavings; \<open>Terminations\<close>: the close of a panicking
    permit while others claim and publish (it ends in a bounded number of its own accesses, no claim
    succeeds after it), and an execution after which no receive reports the end.
  \<^item> \<open>SharedQueues\<close>: the specification of the channel under concurrency, one queue whose events are
    atomic, and the locale \<open>event_simulation\<close>; \<open>SharedRefinement\<close>: \<open>Protocol\<close> as an instance of it, so that the
    traces of the interleaved program are traces of the queue; \<open>Refusals\<close>: claims that are refused for
    lack of room, which are no single event of it.
  \<^item> \<open>AsyncProtocol\<close>: \<open>Protocol\<close> with its async receivers: the wakes of \<open>notify\<close>, one receiver after the
    other, and the looks and the registration of a poll are steps of their own; \<open>AsyncCorrect\<close>: no task
    that waits for something published is forgotten, and a sender left to run wakes it.
  \<^item> \<open>Interface\<close>: the traits of the crate as records of their methods (a supertrait is the record that
    is extended) and their implementations as values of them, down to the public ones of \<open>mpsc.rs\<close> and
    \<open>fanout.rs\<close>, with \<open>waker.rs\<close> and the async methods on a channel; \<open>Contracts\<close>: clients of the traits,
    for any implementation, and the locale \<open>queue_channel\<close> of what they may rely on, interpreted on both
    channels; \<open>ContractTests\<close> (\<open>src/tests\<close>): the contract tests as such clients; \<open>GuardTests\<close>: those
    that hold guards across calls or use two threads, as scripts of \<open>Protocol\<close> evaluated in every order
    of the two; \<open>AsyncChannels\<close>: a poll refines the specification while the other ends make calls during it.
  \<^item> \<open>Examples\<close>: the programs of \<open>src/examples\<close>, the example in \<open>lib.rs\<close> and the unit tests of the
    modules, run by the model.
  \<^item> \<open>Texts\<close>: the \<open>Display\<close> and \<open>Debug\<close> texts and the messages of the errors.
  \<^item> \<open>Divergences\<close>: states, as general as they can be, in which the code breaks what its documentation
    says, each with an instance.

  \<^bold>\<open>Conventions.\<close> A \<open>Result\<close> is a sum with the error left; a panic of a constructor is \<open>None\<close>. An
  \<open>i64\<close> is an \<open>int\<close> and every addition is followed by \<open>wrap64\<close>, as in a release build;
  \<open>debug_assert\<close> is not modelled. \<open>usize\<close> has 64 bits. A slot state is a \<open>32 word\<close>. A \<open>for\<close> over
  sequence numbers runs over \<open>[a..b]\<close>. Traits are resolved by passing a record of methods. A
  recycler maps the stale value of a slot to what it leaves and whether it panicked; the drop of a
  guard is written out where the compiler inserts it. Third-party code is a parameter: \<open>wake\<close> and
  \<open>register\<close> of \<open>AtomicWaker\<close>, with its documented contract \<open>atomic_waker\<close> as a hypothesis where it
  matters. With the feature \<open>async-receiver\<close> off, \<open>wake\<close> is the identity.

  \<^bold>\<open>Bounds.\<close> The sequential theorems allow \<open>2 ^ 30\<close> calls of at most \<open>2 ^ 30\<close> items, so sequence
  numbers stay below \<open>2 ^ 61\<close>; the concurrent ones hold while fewer than \<open>2 ^ 60\<close> sequence numbers
  were claimed. Both are far below \<open>i64\<close>, where \<open>claimed\<close> would turn negative. The lap in a slot state
  wraps after \<open>2 ^ 31\<close> laps, which \<open>slot_flag_collision\<close> states exactly and the invariant rules out.
  Limits of batch calls are below \<open>2 ^ 63\<close>; beyond, the cast to \<open>i64\<close> is negative (\<open>Divergences\<close>).
  Fuel appears where a client's loop is driven by the model: \<open>read_all\<close> gets one more than the items
  of the batch, \<open>client_read_all\<close> one more than the limit of the receive, and \<open>settle_claim\<close>, \<open>settle_recv\<close> and \<open>settle_close\<close> the number of accesses that the
  theorems show to be enough. The compare-and-swap loop alone has a termination proof; with
  interference each failure is another claim's success (\<open>failed_cas_was_overtaken\<close>).

  \<^bold>\<open>Terminations.\<close> In the interleaved model a permit whose recycler panics terminates the channel while
  other contexts go on: a permit or a batch is abandoned (\<open>panicked_drop_step\<close>), the batch of a permit
  that panicked is committed later (\<open>panicked_batch_permit_step\<close>). Delivery, exclusion of slots,
  stability of held items, capacity and the published history hold all the same;
  \<open>disconnected_means_drained\<close> holds as long as no permit panicked. In the specification of
  \<open>SharedQueues\<close> a panic is the event \<open>Poisons\<close>, after which a receiver may be told the end at a gap. A claim
  that finds no room is no event there, because its gate reads the cursors one after the other
  (\<open>refused_claim_saw_full_queue\<close>).

  \<^bold>\<open>Not modelled.\<close> Memory orderings and fences: atomic accesses are sequentially consistent. In the
  interleaved model a receiver takes one guard at a time (two can alias, \<open>second_guard_aliases_first\<close>),
  and \<open>register\<close> and \<open>wake\<close> of the third-party \<open>AtomicWaker\<close> are one step each.
  Allocation, \<open>Arc\<close> counts except that of the senders, drops of the values in the ring, the prose of
  \<open>lib.rs\<close>, the benchmarks (timing harnesses) and the async tests (a task on the \<open>pollster\<close> executor
  against a thread that sleeps or runs freely; \<open>AsyncCorrect\<close> is about all their executions).

  \<^bold>\<open>Plan.\<close> The code of \<open>src/src\<close> is modelled up to the list above; what could follow is a memory
  model weaker than sequential consistency.
\<close>

section \<open>The channels implement their specification\<close>

text \<open>C1: A fan-out channel behaves as its specification: every sequence of calls, of senders
  and receivers in any order, has the answers the specification gives, and leaves a memory that
  stands for the specification's state. At most \<open>2 ^ 30\<close> calls are made, so that the 63 bits of a
  sequence number and the 31 bits of a lap never run out.\<close>

theorem fanout_implements_spec:
  assumes "fanout_channel_with n w cap f = Inr (Some ch)"
    and "calls_ok calls (spec_new n cap)" "length calls \<le> 2 ^ 30"
  shows "spec_run calls (spec_new n cap) =
    (fst (run (fanout wake) calls ch), abs_channel fan_consumed (snd (run (fanout wake) calls ch)))"
  using assms by (rule fanout_runs)

theorem fanout_implements_spec_witness:
  "\<exists>ch. fanout_channel_with 2 () 2 (\<lambda>_. 0 :: nat) = Inr (Some ch) \<and>
     fst (run (fanout id) [Send 7, Send 8, Send 9, Recv 1, DropReceiver 0, Send 9, DropSender, RecvMany 1 5, Recv 1] ch) =
       [Sent (Inr ()), Sent (Inr ()), Sent (Inl (SendFull 9)), Received (Inr 7), Done, Sent (Inr ()), Done,
        ReceivedMany (Inr [8, 9]), Received (Inl RecvDisconnected)]"
proof -
  let ?calls = "[Send 7, Send 8, Send (9 :: nat), Recv 1, DropReceiver 0, Send 9, DropSender, RecvMany 1 5, Recv 1]"
  have v: "validate 2 = Inr ()" by code_simp
  then obtain ch where ch: "fanout_channel_with 2 () 2 (\<lambda>_. 0 :: nat) = Inr (Some ch)"
    by (rule fanout_new)
  have ok: "calls_ok ?calls (spec_new 2 2)" by code_simp
  have out: "fst (spec_run ?calls (spec_new 2 2)) =
      [Sent (Inr ()), Sent (Inr ()), Sent (Inl (SendFull 9)), Received (Inr 7), Done, Sent (Inr ()), Done,
       ReceivedMany (Inr [8, 9]), Received (Inl RecvDisconnected)]"
    by code_simp
  have len: "length ?calls \<le> 2 ^ 30" by simp
  have run: "fst (run (fanout id) ?calls ch) = fst (spec_run ?calls (spec_new 2 2))"
    by (simp only: fanout_implements_spec [OF ch ok len, of id] fst_conv)
  show ?thesis by (intro exI [of _ ch] conjI ch) (simp only: run out)
qed

text \<open>C6: An mpsc channel behaves as its specification, with one receiver.\<close>

theorem mpsc_implements_spec:
  assumes "mpsc_channel_with w cap f = Inr (Some ch)"
    and "calls_ok calls (spec_new 1 cap)" "length calls \<le> 2 ^ 30"
  shows "spec_run calls (spec_new 1 cap) =
    (fst (run (mpsc wake) calls ch), abs_channel (\<lambda>g. [ex_consumed g]) (snd (run (mpsc wake) calls ch)))"
  using assms by (rule mpsc_runs)

theorem mpsc_implements_spec_witness:
  "\<exists>ch. mpsc_channel_with () 4 (\<lambda>_. 0 :: nat) = Inr (Some ch) \<and>
     fst (run (mpsc id) [CloneSender, SendMany 3 (Some 1) [7], Reserve None None, Recv 0, RecvMany 0 9, Recv 0] ch) =
       [Done, SentMany (Inr 3), Reserved (Inr ()), Received (Inr 7), ReceivedMany (Inr [1, 1]),
        Received (Inl RecvDisconnected)]"
proof -
  let ?calls = "[CloneSender, SendMany 3 (Some (1 :: nat)) [7], Reserve None None, Recv 0, RecvMany 0 9, Recv 0]"
  have v: "validate 4 = Inr ()" by code_simp
  then obtain ch where ch: "mpsc_channel_with () 4 (\<lambda>_. 0 :: nat) = Inr (Some ch)"
    by (rule mpsc_new)
  have ok: "calls_ok ?calls (spec_new 1 4)" by code_simp
  have out: "fst (spec_run ?calls (spec_new 1 4)) =
      [Done, SentMany (Inr 3), Reserved (Inr ()), Received (Inr 7), ReceivedMany (Inr [1, 1]),
        Received (Inl RecvDisconnected)]"
    by code_simp
  have len: "length ?calls \<le> 2 ^ 30" by simp
  have run: "fst (run (mpsc id) ?calls ch) = fst (spec_run ?calls (spec_new 1 4))"
    by (simp only: mpsc_implements_spec [OF ch ok len, of id] fst_conv)
  show ?thesis by (intro exI [of _ ch] conjI ch) (simp only: run out)
qed

text \<open>C12: Fan-out delivery: what a receiver that is not dropped gets, with what the channel still
  holds for it, is exactly what the senders published, in order, whatever the other receivers
  do.\<close>

theorem fanout_fifo:
  assumes "fanout_channel_with n w cap f = Inr (Some ch)"
    and "calls_ok calls (spec_new n cap)" "length calls \<le> 2 ^ 30"
    and "i < n" "DropReceiver i \<notin> set calls"
  shows "\<exists>rest. queues (abs_channel fan_consumed (snd (run (fanout wake) calls ch))) ! i = Some rest \<and>
    all_delivered i calls (fst (run (fanout wake) calls ch)) @ rest =
      all_accepted calls (fst (run (fanout wake) calls ch))"
proof -
  have "i < length (queues (spec_new n cap))" "queues (spec_new n cap) ! i = Some []"
    using assms(4) by (simp_all add: spec_new_def)
  from spec_run_fifo [OF assms(2) this assms(5) fanout_runs [OF assms(1-3)]] show ?thesis by simp
qed

theorem fanout_fifo_witness:
  "\<exists>ch rest. fanout_channel_with 2 () 4 (\<lambda>_. 0 :: nat) = Inr (Some ch) \<and>
     all_delivered 1 [Send 7, Send 8, Recv 1] (fst (run (fanout id) [Send 7, Send 8, Recv 1] ch)) @ rest =
       all_accepted [Send 7, Send 8, Recv 1] (fst (run (fanout id) [Send 7, Send 8, Recv 1] ch))"
proof -
  have v: "validate 4 = Inr ()" by code_simp
  then obtain ch where ch: "fanout_channel_with 2 () 4 (\<lambda>_. 0 :: nat) = Inr (Some ch)"
    by (rule fanout_new)
  have ok: "calls_ok [Send 7, Send (8 :: nat), Recv 1] (spec_new 2 4)" by code_simp
  from fanout_fifo [OF ch ok, of 1 id] ch show ?thesis by auto
qed

text \<open>C13: mpsc delivery: what the receiver gets, with what the channel still holds, is exactly what
  all the senders published, in the order of their sequence numbers.\<close>

theorem mpsc_fifo:
  assumes "mpsc_channel_with w cap f = Inr (Some ch)"
    and "calls_ok calls (spec_new 1 cap)" "length calls \<le> 2 ^ 30" "DropReceiver 0 \<notin> set calls"
  shows "\<exists>rest. queues (abs_channel (\<lambda>g. [ex_consumed g]) (snd (run (mpsc wake) calls ch))) = [Some rest] \<and>
    length rest \<le> cap \<and>
    all_delivered 0 calls (fst (run (mpsc wake) calls ch)) @ rest =
      all_accepted calls (fst (run (mpsc wake) calls ch))"
proof -
  let ?s = "abs_channel (\<lambda>g. [ex_consumed g]) (snd (run (mpsc wake) calls ch))"
  note run = mpsc_runs [OF assms(1-3), of wake]
  have "0 < length (queues (spec_new 1 cap))" "queues (spec_new 1 cap) ! 0 = Some []"
    by (simp_all add: spec_new_def)
  from spec_run_fifo [OF assms(2) this assms(4) run] obtain rest where rest: "queues ?s ! 0 = Some rest"
    "all_delivered 0 calls (fst (run (mpsc wake) calls ch)) @ rest = all_accepted calls (fst (run (mpsc wake) calls ch))"
    by auto
  have one: "queues ?s = [queues ?s ! 0]" by (simp add: abs_channel_def)
  have "within_capacity (spec_new 1 cap)" by (simp add: within_capacity_def spec_new_def)
  with assms(2) have "within_capacity ?s" using within_run [of calls] run by (metis snd_conv)
  moreover have "capacity ?s = cap" using capacity_run [of calls "spec_new 1 cap"] unfolding run by (simp add: spec_new_def)
  moreover have "Some rest \<in> set (queues ?s)" using rest(1) one by (metis list.set_intros(1))
  ultimately have "length rest \<le> cap" by (simp add: within_capacity_def)
  with rest one show ?thesis by metis
qed

theorem mpsc_fifo_witness:
  "\<exists>ch. mpsc_channel_with () 4 (\<lambda>_. 0 :: nat) = Inr (Some ch) \<and>
     (\<exists>rest. length rest \<le> 4 \<and> all_delivered 0 [Send 7, Send 8, Recv 0] (fst (run (mpsc id) [Send 7, Send 8, Recv 0] ch)) @ rest =
       all_accepted [Send 7, Send 8, Recv 0] (fst (run (mpsc id) [Send 7, Send 8, Recv 0] ch)))"
proof -
  have v: "validate 4 = Inr ()" by code_simp
  then obtain ch where ch: "mpsc_channel_with () 4 (\<lambda>_. 0 :: nat) = Inr (Some ch)"
    by (rule mpsc_new)
  have ok: "calls_ok [Send 7, Send (8 :: nat), Recv 0] (spec_new 1 4)" by code_simp
  from mpsc_fifo [OF ch ok, of id] ch show ?thesis by (intro exI [of _ ch]) auto
qed

text \<open>Back pressure: after any calls, no receiver that is there is more than the capacity behind,
  so a sender never overwrites what was not read.\<close>

theorem fanout_queues_bounded:
  assumes "fanout_channel_with n w cap f = Inr (Some ch)"
    and "calls_ok calls (spec_new n cap)" "length calls \<le> 2 ^ 30"
    and "Some xs \<in> set (queues (abs_channel fan_consumed (snd (run (fanout wake) calls ch))))"
  shows "length xs \<le> cap"
proof -
  note run = fanout_runs [OF assms(1-3), of wake]
  let ?s = "abs_channel fan_consumed (snd (run (fanout wake) calls ch))"
  have "within_capacity (spec_new n cap)" by (auto simp: within_capacity_def spec_new_def)
  with assms(2) have "within_capacity ?s" using within_run [of calls] run by (metis snd_conv)
  moreover have "capacity ?s = cap" using capacity_run [of calls "spec_new n cap"] unfolding run by (simp add: spec_new_def)
  ultimately show ?thesis using assms(4) by (simp add: within_capacity_def)
qed

theorem fanout_queues_bounded_witness:
  "\<exists>ch xs. fanout_channel_with 1 () 2 (\<lambda>_. 0 :: nat) = Inr (Some ch) \<and>
     queues (abs_channel fan_consumed (snd (run (fanout id) [Send 7, Send 8, Send 9] ch))) = [Some xs] \<and> length xs \<le> 2"
proof -
  let ?calls = "[Send 7, Send 8, Send (9 :: nat)]"
  have v: "validate 2 = Inr ()" by code_simp
  then obtain ch where ch: "fanout_channel_with 1 () 2 (\<lambda>_. 0 :: nat) = Inr (Some ch)"
    by (rule fanout_new)
  have ok: "calls_ok ?calls (spec_new 1 2)" and q: "queues (snd (spec_run ?calls (spec_new 1 2))) = [Some [7, 8]]"
    by code_simp+
  have "queues (abs_channel fan_consumed (snd (run (fanout id) ?calls ch))) = [Some [7, 8]]"
    using fanout_runs [OF ch ok, of id] q by simp
  moreover from this have "length [7, 8 :: nat] \<le> 2" by (intro fanout_queues_bounded [OF ch ok, of _ id]) simp_all
  ultimately show ?thesis using ch by blast
qed

text \<open>C14: Among calls that each use up what they reserve, disconnection is final: after a \<open>try_send\<close>
  was refused as \<open>Disconnected\<close> every later one is, and after a \<open>try_recv\<close> of a receiver was told
  \<open>Disconnected\<close> every later one of that receiver is, whatever such calls are made in between. (A
  permit held across a termination can still be committed and received:
  \<open>commit_erases_shutdown_marker\<close>.)\<close>

theorem disconnected_is_final:
  assumes "fanout_channel_with n w cap f = Inr (Some ch)"
    and "calls_ok calls (spec_new n cap)" "length calls \<le> 2 ^ 30" "j < k" "k < length calls"
  shows "(\<forall>v v' u. calls ! j = Send v \<and> fst (run (fanout wake) calls ch) ! j = Sent (Inl (SendDisconnected v')) \<and>
      calls ! k = Send u \<longrightarrow> fst (run (fanout wake) calls ch) ! k = Sent (Inl (SendDisconnected u))) \<and>
    (\<forall>i. calls ! j = Recv i \<and> fst (run (fanout wake) calls ch) ! j = Received (Inl RecvDisconnected) \<and>
      calls ! k = Recv i \<longrightarrow> fst (run (fanout wake) calls ch) ! k = Received (Inl RecvDisconnected))"
proof -
  have run: "fst (run (fanout wake) calls ch) = fst (spec_run calls (spec_new n cap))"
    using fanout_runs [OF assms(1-3), of wake] by simp
  show ?thesis unfolding run
    using sends_stay_refused [OF assms(2,4,5)] receives_stay_ended [OF assms(2,4,5)] by blast
qed

theorem disconnected_is_final_witness:
  "\<exists>ch. fanout_channel_with 1 () 2 (\<lambda>_. 0 :: nat) = Inr (Some ch) \<and>
     fst (run (fanout id) [DropReceiver 0, Send 7, CloneSender, Send 8] ch) ! 3 = Sent (Inl (SendDisconnected 8))"
proof -
  let ?calls = "[DropReceiver 0, Send (7 :: nat), CloneSender, Send 8]"
  have v: "validate 2 = Inr ()" by code_simp
  then obtain ch where ch: "fanout_channel_with 1 () 2 (\<lambda>_. 0 :: nat) = Inr (Some ch)"
    by (rule fanout_new)
  have ok: "calls_ok ?calls (spec_new 1 2)"
    and a: "fst (spec_run ?calls (spec_new 1 2)) ! 1 = Sent (Inl (SendDisconnected 7))"
    by code_simp+
  have "fst (run (fanout id) ?calls ch) ! 1 = Sent (Inl (SendDisconnected 7))"
    using fanout_runs [OF ch ok, of id] a by simp
  with disconnected_is_final [OF ch ok, of 1 3 id] ch show ?thesis by auto
qed

text \<open>C5: Graceful shutdown: when the last sender is dropped, a receiver that is there still gets
  everything published and not yet received, in order, and only then \<open>Disconnected\<close>.\<close>

theorem closed_channel_drains:
  assumes "fanout_channel_with n w cap f = Inr (Some ch)"
    and "calls_ok calls (spec_new n cap)" "length calls + cap + 2 \<le> 2 ^ 30"
    and "count_list calls DropSender = count_list calls CloneSender"
    and "i < n" "DropReceiver i \<notin> set calls"
  shows "\<exists>rest. all_delivered i calls (fst (run (fanout wake) calls ch)) @ rest =
      all_accepted calls (fst (run (fanout wake) calls ch)) \<and>
    fst (run (fanout wake) (calls @ DropSender # replicate (length rest) (Recv i) @ [Recv i]) ch) =
      fst (run (fanout wake) calls ch) @ Done # map (\<lambda>x. Received (Inr x)) rest @ [Received (Inl RecvDisconnected)]"
proof -
  let ?start = "spec_new n cap"
  let ?s = "snd (spec_run calls ?start)"
  have "length calls \<le> 2 ^ 30" using assms(3) by simp
  from fanout_runs [OF assms(1,2) this, of wake]
  have run: "fst (run (fanout wake) calls ch) = fst (spec_run calls ?start)" by (simp only: fst_conv)
  have "i < length (queues ?start)" "queues ?start ! i = Some []" using assms(5) by (simp_all add: spec_new_def)
  from spec_run_fifo [OF assms(2) this assms(6), of "fst (spec_run calls ?start)" ?s] obtain rest where
    rest: "queues ?s ! i = Some rest" "all_delivered i calls (fst (spec_run calls ?start)) @ rest = all_accepted calls (fst (spec_run calls ?start))"
    by auto
  have i: "i < length (queues ?s)" using assms(5) by (simp add: length_queues_run spec_new_def)
  have "within_capacity ?s"
    using within_run [OF assms(2)] by (auto simp: within_capacity_def spec_new_def)
  then have len: "length rest \<le> cap" using nth_mem [OF i] rest(1) by (simp add: within_capacity_def spec_new_def)
  have one: "senders ?s = 1" using senders_run [OF assms(2)] assms(4) by (simp add: spec_new_def)
  let ?shut = "snd (spec_perform DropSender ?s)" and ?more = "replicate (length rest) (Recv i) @ [Recv i]"
  have s1: "closed ?shut" "i < length (queues ?shut)" "queues ?shut ! i = Some rest" using one i rest(1) by simp_all
  note D = drain [OF s1]
  have "calls_ok (calls @ DropSender # ?more) ?start"
    using assms(2) D(2) one by (simp add: calls_ok_append)
  moreover have "length (calls @ DropSender # ?more) \<le> 2 ^ 30" using assms(3) len by simp
  ultimately have "fst (run (fanout wake) (calls @ DropSender # ?more) ch) = fst (spec_run (calls @ DropSender # ?more) ?start)"
    using fanout_runs [OF assms(1), of "calls @ DropSender # ?more" wake] by simp
  also have "\<dots> = fst (spec_run calls ?start) @ Done # map (\<lambda>x. Received (Inr x)) rest @ [Received (Inl RecvDisconnected)]"
    using run_then_calls [of calls DropSender ?more ?start] unfolding D(1) by simp
  finally show ?thesis using rest(2) run by auto
qed

theorem closed_channel_drains_witness:
  "\<exists>ch rest. fanout_channel_with 1 () 2 (\<lambda>_. 0 :: nat) = Inr (Some ch) \<and>
     all_delivered 0 [Send 7, Send 8] (fst (run (fanout id) [Send 7, Send 8] ch)) @ rest =
       all_accepted [Send 7, Send 8] (fst (run (fanout id) [Send 7, Send 8] ch))"
proof -
  have v: "validate 2 = Inr ()" by code_simp
  then obtain ch where ch: "fanout_channel_with 1 () 2 (\<lambda>_. 0 :: nat) = Inr (Some ch)"
    by (rule fanout_new)
  have ok: "calls_ok [Send 7, Send (8 :: nat)] (spec_new 1 2)" by code_simp
  from closed_channel_drains [OF ch ok, of 0 id] ch show ?thesis by (auto intro: exI [of _ ch])
qed

text \<open>C34: A channel can be constructed exactly for the capacities that are powers of two up to
  \<open>2 ^ 30\<close>; for these the constructor does not panic, and it fills every slot by the initializer.\<close>

theorem fanout_construction:
  "((\<exists>ch. fanout_channel_with n w cap f = Inr (Some ch) \<and>
      slots (sd_ring (sender ch)) = map f [0..<cap] \<and> fan_consumed (gate_of ch) = replicate n INIT) \<longleftrightarrow>
     (\<exists>k \<le> 30. cap = 2 ^ k)) \<and>
   fanout_channel_with n w cap f \<noteq> Inr None"
proof
  have eq: "fanout_channel_with n w cap f = Inr (Some ch) \<Longrightarrow> fan_consumed (gate_of ch) = replicate n INIT" for ch
    by (auto simp: fanout_channel_with_def fanout_channel_with_ring_def gate_of_def mp_new_def shared_new_def
        fan_new_def cursor_new_def split: sum.splits)
  show "(\<exists>ch. fanout_channel_with n w cap f = Inr (Some ch) \<and>
      slots (sd_ring (sender ch)) = map f [0..<cap] \<and> fan_consumed (gate_of ch) = replicate n INIT) \<longleftrightarrow>
     (\<exists>k \<le> 30. cap = 2 ^ k)"
  proof (cases "validate cap")
    case (Inl e)
    then have "\<not> (\<exists>k \<le> 30. cap = 2 ^ k)" using validate_ok_iff [of cap] by auto
    then show ?thesis using Inl by (simp add: fanout_channel_with_def)
  next
    case (Inr u)
    then have "\<exists>k \<le> 30. cap = 2 ^ k" using validate_ok_iff [of cap] by simp
    moreover obtain ch where "fanout_channel_with n w cap f = Inr (Some ch)"
      "slots (sd_ring (sender ch)) = map f [0..<cap]"
      using fanout_new [OF Inr, of n w f] by metis
    ultimately show ?thesis using eq by blast
  qed
  show "fanout_channel_with n w cap f \<noteq> Inr None"
  proof (cases "validate cap")
    case (Inr u)
    then obtain ch where "fanout_channel_with n w cap f = Inr (Some ch)" by (rule fanout_new)
    then show ?thesis by simp
  qed (simp add: fanout_channel_with_def)
qed

section \<open>The channels under concurrency\<close>

text \<open>C2: Delivery under every interleaving: as long as fewer than \<open>2 ^ 60\<close> sequence numbers were
  claimed, what a receiver has taken is the beginning of the published history, in order, without
  a gap, a repetition or a value of another slot or lap.\<close>

theorem concurrent_delivery:
  assumes "reachable rb n w g" "ring_ok rb" "top_seq g < 2 ^ 60" "j < length (w_receivers w)"
  shows "\<exists>m. received g ! j = map (history g) [0..m] \<and> m \<le> top_seq g \<and> (\<forall>p \<in> pending g. m < p)"
  using taken_prefix [OF reachable_inv [OF assms(1-3)] assms(4)] by metis

theorem concurrent_delivery_witness:
  "\<exists>w g. reachable small_ring 1 w g \<and> received g ! 0 = [7] \<and>
     (\<exists>m. [7] = map (history g) [0..m] \<and> m \<le> top_seq g)"
proof -
  obtain w g where r: "reachable small_ring 1 w g" and w: "w_receivers w = [RIdle (Some ClaimShutdown)]"
    and x: "received g = [[7]]" and t: "top_seq g < 2 ^ 60"
    using drained_top by blast
  have "0 < length (w_receivers w)" using w by simp
  from concurrent_delivery [OF r small_ring_ok t this]
  have "\<exists>m. [7] = map (history g) [0..m] \<and> m \<le> top_seq g" unfolding x by (metis nth_Cons_0)
  then show ?thesis using r x by (intro exI [of _ w] exI [of _ g]) simp
qed

text \<open>C4: No data race on a slot: two contexts never own the same slot, and no context owns a slot
  that a receiver holds.\<close>

theorem slots_exclusive:
  assumes "reachable rb n w g" "ring_ok rb" "top_seq g < 2 ^ 60"
    and "i < length (w_senders w)" "s \<in> owned (w_senders w ! i)"
  shows "(\<forall>k < length (w_senders w). k \<noteq> i \<longrightarrow> (\<forall>q \<in> owned (w_senders w ! k).
      slot_index (w_states w) s \<noteq> slot_index (w_states w) q)) \<and>
    (\<forall>j < length (w_receivers w). \<forall>a b. w_receivers w ! j = RHold a b \<longrightarrow> (\<forall>q \<in> {a..b}.
      slot_index (w_states w) s \<noteq> slot_index (w_states w) q))"
  using senders_exclusive [OF reachable_inv [OF assms(1-3)] assms(4) _ _ assms(5)]
    reader_exclusive [OF reachable_inv [OF assms(1-3)] assms(4,5)] by auto

theorem slots_exclusive_witness:
  "\<exists>w g. reachable small_ring 1 w g \<and> w_senders w ! 1 = SOwn 1 1 \<and> w_receivers w ! 0 = RHold 0 0 \<and>
     slot_index (w_states w) 1 \<noteq> slot_index (w_states w) 0"
proof -
  obtain w g where r: "reachable small_ring 1 w g" and w: "w_senders w = [SIdle None, SOwn 1 1]"
    "w_receivers w = [RHold 0 0]" and t: "top_seq g < 2 ^ 60"
    using reading_top by blast
  have "1 < length (w_senders w)" "1 \<in> owned (w_senders w ! 1)" using w by simp_all
  from slots_exclusive [OF r small_ring_ok t this] show ?thesis
    using r w by (intro exI [of _ w] exI [of _ g]) simp
qed

text \<open>C7: What a guard refers to does not change, as long as its receiver has no other guard: every item
  the one guard of a receiver refers to is published and the ring keeps its published value, whatever
  the senders and the other receivers do. (With two guards of one receiver it can change:
  \<open>second_guard_aliases_first\<close>.)\<close>

theorem held_items_stable:
  assumes "reachable rb n w g" "ring_ok rb" "top_seq g < 2 ^ 60"
    and "j < length (w_receivers w)" "w_receivers w ! j = RHold a b" "a \<le> q" "q \<le> b"
  shows "get_ref_at (w_ring w) q = history g q \<and> q \<notin> pending g \<and> q \<le> top_seq g"
  using held_window [OF reachable_inv [OF assms(1-3)] assms(4-7)] by blast

theorem held_items_stable_witness:
  "\<exists>w g. reachable small_ring 1 w g \<and> w_receivers w ! 0 = RHold 0 0 \<and>
     get_ref_at (w_ring w) 0 = history g 0"
proof -
  obtain w g where r: "reachable small_ring 1 w g" and w: "w_receivers w = [RHold 0 0]" and t: "top_seq g < 2 ^ 60"
    using reading_top by blast
  have "0 < length (w_receivers w)" "w_receivers w ! 0 = RHold 0 0" using w by simp_all
  from held_items_stable [OF r small_ring_ok t this, of 0] show ?thesis
    using r w by (intro exI [of _ w] exI [of _ g]) simp
qed

text \<open>C8: A receiver that is told \<open>Disconnected\<close>, where no permit panicked, has taken
  everything that was ever published, and nothing is left half published.\<close>

theorem disconnected_means_drained:
  assumes "reachable rb n w g" "ring_ok rb" "top_seq g < 2 ^ 60"
    and "j < length (w_receivers w)" "w_receivers w ! j = RIdle (Some ClaimShutdown)" "\<not> terminated g"
  shows "received g ! j = map (history g) [0..top_seq g] \<and> pending g = {} \<and> over w"
  using disconnected_drained [OF reachable_inv [OF assms(1-3)] assms(4-6)] by blast

theorem disconnected_means_drained_witness:
  "\<exists>w g. reachable small_ring 1 w g \<and> w_receivers w ! 0 = RIdle (Some ClaimShutdown) \<and>
     [7] = map (history g) [0..top_seq g]"
proof -
  obtain w g where r: "reachable small_ring 1 w g" and w: "w_receivers w = [RIdle (Some ClaimShutdown)]"
    and x: "received g = [[7]]" and t: "top_seq g < 2 ^ 60" and n: "\<not> terminated g"
    using drained_top by blast
  have "0 < length (w_receivers w)" "w_receivers w ! 0 = RIdle (Some ClaimShutdown)" "\<not> terminated g" using w n by simp_all
  from disconnected_means_drained [OF r small_ring_ok t this] show ?thesis
    using r w x by (intro exI [of _ w] exI [of _ g]) simp
qed

text \<open>C11: Back pressure under every interleaving: no claim ever reaches past one ring length ahead
  of a receiver that is still there, although the gate reads the cursors one after the other while
  they move.\<close>

theorem claims_within_capacity:
  assumes "reachable rb n w g" "ring_ok rb" "top_seq g < 2 ^ 60"
    and "j < length (w_receivers w)" "w_receivers w ! j \<noteq> RGone"
  shows "w_cursors w ! j \<le> top_seq g \<and> top_seq g \<le> w_cursors w ! j + size_of w"
  using claims_bounded [OF reachable_inv [OF assms(1-3)] assms(4,5)] by blast

theorem claims_within_capacity_witness:
  "\<exists>w g. reachable small_ring 1 w g \<and> w_cursors w ! 0 = - 1 \<and> top_seq g \<le> - 1 + size_of w"
proof -
  obtain w g where r: "reachable small_ring 1 w g" and w: "w_receivers w = [RHold 0 0]" "w_cursors w = [- 1]"
    and t: "top_seq g < 2 ^ 60"
    using reading_top by blast
  have "0 < length (w_receivers w)" "w_receivers w ! 0 \<noteq> RGone" using w by simp_all
  from claims_within_capacity [OF r small_ring_ok t this] show ?thesis
    using r w by (intro exI [of _ w] exI [of _ g]) simp
qed

text \<open>C18: Lock freedom of claiming: a compare-and-swap fails only because another context's claim
  succeeded after this one loaded the cursor, or because a permit panicked and terminated the channel;
  so some claim always succeeds, or the next test of the flag ends this one.\<close>

theorem failed_cas_was_overtaken:
  assumes "reachable rb n w g" "ring_ok rb" "top_seq g < 2 ^ 60"
    and "i < length (w_senders w)" "w_senders w ! i = SCas limit loaded a b"
    and "fst (compare_exchange (w_claimed w) loaded b) = Inl found"
  shows "loaded < top_seq g \<and> found = top_seq g \<or> terminated g \<and> has_shutdown found"
proof -
  have "w_claimed w \<noteq> loaded" "found = w_claimed w"
    using assms(6) by (auto simp: compare_exchange_def split: if_splits)
  then show ?thesis using cas_overtaken [OF reachable_inv [OF assms(1-3)] assms(4,5)] by blast
qed

theorem failed_cas_was_overtaken_witness:
  "\<exists>w g. reachable small_ring 1 w g \<and> w_senders w ! 1 = SCas 1 (- 1) 0 0 \<and> - 1 < top_seq g"
proof -
  obtain w g where r: "reachable small_ring 1 w g" and w: "w_claimed w = 0" "w_senders w = [SOwn 0 0, SCas 1 (- 1) 0 0]"
    and t: "top_seq g < 2 ^ 60"
    using racing_top by blast
  have "1 < length (w_senders w)" "w_senders w ! 1 = SCas 1 (- 1) 0 0"
    "fst (compare_exchange (w_claimed w) (- 1) 0) = Inl 0" using w by simp_all
  from failed_cas_was_overtaken [OF r small_ring_ok t this] have "- 1 < top_seq g" by (simp add: has_shutdown_def)
  then show ?thesis
    using r w by (intro exI [of _ w] exI [of _ g]) simp
qed

text \<open>C19: What is published stays: no step of any context changes the value recorded for a published
  sequence number or makes it unpublished.\<close>

theorem published_history_is_final:
  assumes "reachable rb n w g" "ring_ok rb" "top_seq g < 2 ^ 60" "step act w = Some w'"
    and "q \<le> top_seq g" "q \<notin> pending g"
  shows "q \<le> top_seq (observe act w g) \<and> q \<notin> pending (observe act w g) \<and>
    history (observe act w g) q = history g q"
  using history_kept [OF reachable_inv [OF assms(1-3)] assms(4), of q] assms(5,6) by (simp add: readable_def)

theorem published_history_is_final_witness:
  "\<exists>w g w'. reachable small_ring 1 w g \<and> step (Write 1 1 8) w = Some w' \<and>
     history (observe (Write 1 1 8) w g) 0 = history g 0"
proof -
  obtain w g where r: "reachable small_ring 1 w g" and w: "w_senders w = [SIdle None, SOwn 1 1]"
    "w_receivers w = [RHold 0 0]" and t: "top_seq g < 2 ^ 60"
    using reading_top by blast
  have "0 \<le> top_seq g" "0 \<notin> pending g"
    using held_window [OF reachable_inv [OF r small_ring_ok t], of 0 0 0 0] w by simp_all
  moreover obtain w' where "step (Write 1 1 8) w = Some w'" using w by (simp add: write_step_def)
  ultimately show ?thesis
    using published_history_is_final [OF r small_ring_ok t, of "Write 1 1 8" w' 0] r by blast
qed

end
